(* ===== verification/Prelude.thy ===== *)
theory Prelude
  imports Main "HOL-Library.Word" "HOL-Library.Signed_Division"
begin

text \<open>
  Shared vocabulary of the development: the C integer types as words, byte-addressed
  memory, result codes, and the generic lemmas on bits, bytes and lists that the component
  theories use.
\<close>

unbundle bit_operations_syntax

section \<open>C integer types and memory\<close>

type_synonym u8 = "8 word"
type_synonym u16 = "16 word"
type_synonym u32 = "32 word"
type_synonym u64 = "64 word"

text \<open>
  A pointer into a byte buffer is a memory and an offset into it. Reads and writes are
  unchecked, as in C; what a routine writes is stated by a frame condition.
\<close>

type_synonym mem = "nat \<Rightarrow> u8"

text \<open>Consecutive byte stores, as a \<open>memcpy\<close> or an unrolled store sequence does them.\<close>

fun mem_write :: "mem \<Rightarrow> nat \<Rightarrow> u8 list \<Rightarrow> mem" where
  "mem_write m p [] = m"
| "mem_write m p (b # bs) = mem_write (m(p := b)) (Suc p) bs"

definition mem_read :: "mem \<Rightarrow> nat \<Rightarrow> nat \<Rightarrow> u8 list" where
  "mem_read m p n = map (\<lambda>i. m (p + i)) [0..<n]"

section \<open>Result codes\<close>

definition SQLITE_OK :: nat where "SQLITE_OK = 0"
definition SQLITE_NOMEM :: nat where "SQLITE_NOMEM = 7"
definition SQLITE_IOERR :: nat where "SQLITE_IOERR = 10"
definition SQLITE_CORRUPT :: nat where "SQLITE_CORRUPT = 11"
definition SQLITE_CANTOPEN :: nat where "SQLITE_CANTOPEN = 14"
definition SQLITE_DONE :: nat where "SQLITE_DONE = 101"

lemma result_codes_distinct [simp]:
  "SQLITE_NOMEM \<noteq> SQLITE_OK" "SQLITE_OK \<noteq> SQLITE_NOMEM"
  "SQLITE_CORRUPT \<noteq> SQLITE_OK" "SQLITE_OK \<noteq> SQLITE_CORRUPT"
  "SQLITE_IOERR \<noteq> SQLITE_OK" "SQLITE_OK \<noteq> SQLITE_IOERR"
  "SQLITE_CANTOPEN \<noteq> SQLITE_OK" "SQLITE_OK \<noteq> SQLITE_CANTOPEN"
  "SQLITE_DONE \<noteq> SQLITE_OK" "SQLITE_OK \<noteq> SQLITE_DONE"
  by (simp_all add: SQLITE_OK_def SQLITE_NOMEM_def SQLITE_CORRUPT_def SQLITE_IOERR_def
    SQLITE_CANTOPEN_def SQLITE_DONE_def)

section \<open>Collections of facts\<close>

named_theorems word_bits \<open>bit-level facts that turn word expressions into their bits\<close>

section \<open>Memory lemmas\<close>

lemma mem_write_other [simp]:
  "q < p \<or> p + length bs \<le> q \<Longrightarrow> mem_write m p bs q = m q"
  by (induction bs arbitrary: m p) auto

lemma mem_write_at: "i < length bs \<Longrightarrow> mem_write m p bs (p + i) = bs ! i"
proof (induction bs arbitrary: m p i)
  case Nil
  then show ?case by simp
next
  case (Cons b bs)
  show ?case
  proof (cases i)
    case 0
    then show ?thesis by simp
  next
    case (Suc j)
    then show ?thesis using Cons.IH [of j "m(p := b)" "Suc p"] Cons.prems
      by (simp del: fun_upd_apply)
  qed
qed

lemma mem_write_append:
  "mem_write m p (xs @ ys) = mem_write (mem_write m p xs) (p + length xs) ys"
  by (induction xs arbitrary: m p) auto

lemma length_mem_read [simp]: "length (mem_read m p n) = n"
  by (simp add: mem_read_def)

lemma mem_read_nth [simp]: "i < n \<Longrightarrow> mem_read m p n ! i = m (p + i)"
  by (simp add: mem_read_def)

lemma mem_read_add: "mem_read m p (a + b) = mem_read m p a @ mem_read m (p + a) b"
  by (simp add: list_eq_iff_nth_eq nth_append)

lemma mem_read_write: "mem_read (mem_write m p bs) p (length bs) = bs"
  by (simp add: list_eq_iff_nth_eq mem_write_at)

section \<open>Bits of words\<close>

lemma bit_u8_high [word_bits]: "8 \<le> n \<Longrightarrow> bit (b :: u8) n \<longleftrightarrow> False"
  using bit_imp_le_length [of b n] by auto

lemmas bit_basics [word_bits] =
  bit_or_iff bit_and_iff bit_xor_iff bit_push_bit_iff bit_drop_bit_eq bit_unsigned_iff

text \<open>
  Two words are equal when their bits agree at each position, listed so that the simplifier
  decides every position by evaluation.
\<close>

lemma u8_eqI:
  assumes "list_all (\<lambda>n. bit v n = bit w n)
    [0, 1, 2, 3, 4, 5, 6, 7]"
  shows "v = (w :: u8)"
proof -
  have "[0..<8] =
    [0, 1, 2, 3, 4, 5, 6, 7 :: nat]" by (simp add: upt_conv_Cons)
  with assms have "list_all (\<lambda>n. bit v n = bit w n) [0..<8]" by (simp only:)
  then show ?thesis by (intro bit_word_eqI) (simp add: list_all_iff)
qed

lemma u32_eqI:
  assumes "list_all (\<lambda>n. bit v n = bit w n)
    [0, 1, 2, 3, 4, 5, 6, 7, 8, 9, 10, 11, 12, 13, 14, 15, 16, 17, 18, 19, 20, 21,
     22, 23, 24, 25, 26, 27, 28, 29, 30, 31]"
  shows "v = (w :: u32)"
proof -
  have "[0..<32] =
    [0, 1, 2, 3, 4, 5, 6, 7, 8, 9, 10, 11, 12, 13, 14, 15, 16, 17, 18, 19, 20, 21,
     22, 23, 24, 25, 26, 27, 28, 29, 30, 31 :: nat]" by (simp add: upt_conv_Cons)
  with assms have "list_all (\<lambda>n. bit v n = bit w n) [0..<32]" by (simp only:)
  then show ?thesis by (intro bit_word_eqI) (simp add: list_all_iff)
qed

lemma u64_eqI:
  assumes "list_all (\<lambda>n. bit v n = bit w n)
    [0, 1, 2, 3, 4, 5, 6, 7, 8, 9, 10, 11, 12, 13, 14, 15, 16, 17, 18, 19, 20, 21,
     22, 23, 24, 25, 26, 27, 28, 29, 30, 31, 32, 33, 34, 35, 36, 37, 38, 39, 40, 41,
     42, 43, 44, 45, 46, 47, 48, 49, 50, 51, 52, 53, 54, 55, 56, 57, 58, 59, 60, 61,
     62, 63]"
  shows "v = (w :: u64)"
proof -
  have "[0..<64] =
    [0, 1, 2, 3, 4, 5, 6, 7, 8, 9, 10, 11, 12, 13, 14, 15, 16, 17, 18, 19, 20, 21,
     22, 23, 24, 25, 26, 27, 28, 29, 30, 31, 32, 33, 34, 35, 36, 37, 38, 39, 40, 41,
     42, 43, 44, 45, 46, 47, 48, 49, 50, 51, 52, 53, 54, 55, 56, 57, 58, 59, 60, 61,
     62, 63 :: nat]" by (simp add: upt_conv_Cons)
  with assms have "list_all (\<lambda>n. bit v n = bit w n) [0..<64]" by (simp only:)
  then show ?thesis by (intro bit_word_eqI) (simp add: list_all_iff)
qed

lemma unat_u8_less: "unat (w :: u8) < 256"
  using unsigned_less [of w, where ?'a = nat] by simp

lemma unat_u32_less: "unat (w :: u32) < 2 ^ 32"
  using unsigned_less [of w, where ?'a = nat] by simp

lemma unat_u64_less: "unat (w :: u64) < 2 ^ 64"
  using unsigned_less [of w, where ?'a = nat] by simp

lemma unat_ucast_u8_u32 [simp]: "unat (ucast (b :: u8) :: u32) = unat b"
  using unat_u8_less [of b] by (simp add: unsigned_ucast_eq take_bit_nat_eq_self)

lemma unat_ucast_u8_u64 [simp]: "unat (ucast (b :: u8) :: u64) = unat b"
  using unat_u8_less [of b] by (simp add: unsigned_ucast_eq take_bit_nat_eq_self)

lemma unat_ucast_u32_u64 [simp]: "unat (ucast (w :: u32) :: u64) = unat w"
  using unat_u32_less [of w] by (simp add: unsigned_ucast_eq take_bit_nat_eq_self)

lemma ucast_u32_u64_u32 [simp]: "ucast (ucast (w :: u32) :: u64) = w"
  by (rule bit_word_eqI) (auto simp: bit_simps)

lemma ucast_u8_u64_u32 [simp]: "ucast (ucast (b :: u8) :: u64) = (ucast b :: u32)"
  by (rule bit_word_eqI) (auto simp: bit_simps)

lemma bit_7_u8: "bit (w :: u8) 7 \<longleftrightarrow> 128 \<le> unat w"
proof -
  have "bit (unat w) 7 \<longleftrightarrow> bit w 7" by (simp add: bit_unsigned_iff)
  then have "bit w 7 \<longleftrightarrow> odd (unat w div 128)" by (simp add: bit_iff_odd)
  moreover have "unat w div 128 = (if 128 \<le> unat w then 1 else 0)"
    using unat_u8_less [of w] by (simp add: le_div_geq)
  ultimately show ?thesis by simp
qed

lemma and_80_u8: "(w :: u8) AND 0x80 = 0 \<longleftrightarrow> \<not> bit w 7"
proof -
  have "(w AND 0x80 = 0) \<longleftrightarrow> (w AND push_bit 7 1 = 0)" by simp
  also have "\<dots> \<longleftrightarrow> \<not> bit w 7" by (simp add: bit_iff_and_push_bit_not_eq_0)
  finally show ?thesis .
qed

lemma less_80_u8: "(w :: u8) < 0x80 \<longleftrightarrow> \<not> bit w 7"
  by (auto simp: bit_7_u8 word_less_nat_alt)

lemma take_bit_eq_self_unat: "take_bit n (w :: 'a::len word) = w \<longleftrightarrow> unat w < 2 ^ n"
  by (simp add: word_unat_eq_iff unsigned_take_bit_eq take_bit_nat_eq_self_iff)

lemma sint_u8_nonneg: "0 \<le> sint (b :: u8) \<longleftrightarrow> \<not> bit b 7"
  using bit_last_iff [of b] by auto

lemma and_80_u32: "(w :: u32) AND 0x80 = 0 \<longleftrightarrow> \<not> bit w 7"
proof -
  have "(w AND 0x80 = 0) \<longleftrightarrow> (w AND push_bit 7 1 = 0)" by simp
  also have "\<dots> \<longleftrightarrow> \<not> bit w 7" by (simp add: bit_iff_and_push_bit_not_eq_0)
  finally show ?thesis .
qed

section \<open>Self-delimiting byte encodings\<close>

text \<open>
  The interface of an integer encoding: a writer, given by the bytes it stores, and a reader
  that returns the value and the number of bytes it consumed. The law is that a reader placed
  on the bytes of \<open>v\<close> returns \<open>v\<close> and their number, whatever follows them. A sequence of such
  encodings can then be read back value by value, which is how record headers, cell headers
  and journal records are parsed.
\<close>

fun decode_seq :: "(mem \<Rightarrow> nat \<Rightarrow> 'a \<times> nat) \<Rightarrow> nat \<Rightarrow> mem \<Rightarrow> nat \<Rightarrow> 'a list \<times> nat" where
  "decode_seq dec 0 m p = ([], p)"
| "decode_seq dec (Suc k) m p =
     (let (v, n) = dec m p; (vs, q) = decode_seq dec k m (p + n) in (v # vs, q))"

locale byte_codec =
  fixes enc :: "'a \<Rightarrow> u8 list"
    and dec :: "mem \<Rightarrow> nat \<Rightarrow> 'a \<times> nat"
  assumes dec_enc: "mem_read m p (length (enc v)) = enc v \<Longrightarrow> dec m p = (v, length (enc v))"
    and enc_nonempty: "enc v \<noteq> []"
begin

lemma dec_written: "dec (mem_write m p (enc v)) p = (v, length (enc v))"
  by (rule dec_enc) (rule mem_read_write)

lemma enc_inj: "enc v = enc w \<longleftrightarrow> v = w"
  by (metis dec_written prod.inject)

lemma enc_prefix_free: "enc v @ xs = enc w @ ys \<Longrightarrow> v = w \<and> xs = ys"
proof -
  assume eq: "enc v @ xs = enc w @ ys"
  let ?m = "mem_write (\<lambda>_. 0) 0 (enc v @ xs)"
  have at: "?m i = (enc v @ xs) ! i" if "i < length (enc v @ xs)" for i
    using mem_write_at [OF that, of _ 0] by simp
  have "mem_read ?m 0 (length (enc v)) = enc v"
    by (simp add: list_eq_iff_nth_eq at nth_append)
  moreover have "mem_read ?m 0 (length (enc w)) = enc w"
    using at unfolding eq by (simp add: list_eq_iff_nth_eq nth_append)
  ultimately have "v = w" using dec_enc by (metis prod.inject)
  with eq show ?thesis by simp
qed

lemma decode_seq_enc:
  "mem_read m p (length (concat (map enc vs))) = concat (map enc vs) \<Longrightarrow>
   decode_seq dec (length vs) m p = (vs, p + length (concat (map enc vs)))"
proof (induction vs arbitrary: p)
  case Nil
  then show ?case by simp
next
  case (Cons v vs)
  have "mem_read m p (length (enc v)) = enc v"
    "mem_read m (p + length (enc v)) (length (concat (map enc vs))) = concat (map enc vs)"
    using Cons.prems mem_read_add [of m p "length (enc v)" "length (concat (map enc vs))"] by auto
  then show ?case using Cons.IH [of "p + length (enc v)"] by (simp add: dec_enc Let_def)
qed

end

section \<open>Three-way comparison functions\<close>

text \<open>
  The contract of a C comparison function: negative, zero or positive, antisymmetric and
  transitive. Its clients sort and search with it.
\<close>

locale three_way =
  fixes cmp :: "'a \<Rightarrow> 'a \<Rightarrow> int"
  assumes cmp_antisym: "0 < cmp a b \<longleftrightarrow> cmp b a < 0"
    and cmp_trans: "cmp a b \<le> 0 \<Longrightarrow> cmp b c \<le> 0 \<Longrightarrow> cmp a c \<le> 0"
begin

lemma cmp_refl: "cmp a a = 0"
  using cmp_antisym [of a a] by linarith

lemma cmp_zero_sym: "cmp a b = 0 \<longleftrightarrow> cmp b a = 0"
  using cmp_antisym [of a b] cmp_antisym [of b a] by linarith

lemma cmp_total: "cmp a b \<le> 0 \<or> cmp b a \<le> 0"
  using cmp_antisym [of a b] by linarith

lemma cmp_zero_trans: "cmp a b = 0 \<Longrightarrow> cmp b c = 0 \<Longrightarrow> cmp a c = 0"
  using cmp_trans [of a b c] cmp_trans [of c b a] cmp_zero_sym [of a b] cmp_zero_sym [of b c]
    cmp_zero_sym [of a c] cmp_antisym [of a c] by auto

lemma cmp_less_trans: "cmp a b < 0 \<Longrightarrow> cmp b c \<le> 0 \<Longrightarrow> cmp a c < 0"
  using cmp_trans [of a b c] cmp_trans [of b c a] cmp_antisym [of c a] cmp_antisym [of b a]
    cmp_zero_sym [of a c] by linarith

lemma cmp_zero_cong: "cmp a b = 0 \<Longrightarrow> cmp a c < 0 \<longleftrightarrow> cmp b c < 0"
  using cmp_less_trans [of a c] cmp_trans [of b a c] cmp_trans [of a b c] cmp_zero_sym [of a b]
    cmp_zero_trans [of a b c] cmp_zero_trans [of b a c] by linarith

end

section \<open>Stores that refine a map\<close>

fun puts :: "('m \<Rightarrow> 's \<Rightarrow> 'q \<Rightarrow> 'v \<Rightarrow> 's) \<Rightarrow> ('m \<times> 'q \<times> 'v) list \<Rightarrow> 's \<Rightarrow> 's" where
  "puts put [] s = s"
| "puts put ((m, q, v) # ops) s = puts put ops (put m s q v)"

fun puts_fit ::
  "('m \<Rightarrow> 's \<Rightarrow> 'q \<Rightarrow> 'v \<Rightarrow> 's) \<Rightarrow> ('m \<Rightarrow> 's \<Rightarrow> 'q \<Rightarrow> bool) \<Rightarrow> ('m \<times> 'q \<times> 'v) list \<Rightarrow> 's \<Rightarrow> bool" where
  "puts_fit put fits [] s \<longleftrightarrow> True"
| "puts_fit put fits ((m, q, v) # ops) s \<longleftrightarrow> fits m s q \<and> puts_fit put fits ops (put m s q v)"

text \<open>
  A store whose lookups read an abstract map and whose updates write one entry of it. \<open>fits\<close> says
  when an update at a key, with the allocation outcome \<open>'m\<close>, is possible in a state.
\<close>

locale map_store =
  fixes ok :: "'s \<Rightarrow> bool" and abs_map :: "'s \<Rightarrow> 'k \<Rightarrow> 'v" and get :: "'s \<Rightarrow> 'q \<Rightarrow> 'v"
    and key :: "'q \<Rightarrow> 'k" and put :: "'m \<Rightarrow> 's \<Rightarrow> 'q \<Rightarrow> 'v \<Rightarrow> 's" and fits :: "'m \<Rightarrow> 's \<Rightarrow> 'q \<Rightarrow> bool"
  assumes get_abs: "ok s \<Longrightarrow> get s q = abs_map s (key q)"
    and put_abs: "ok s \<Longrightarrow> fits m s q \<Longrightarrow>
      ok (put m s q v) \<and> abs_map (put m s q v) = (abs_map s)(key q := v)"
begin

lemma puts_abs:
  "ok s \<Longrightarrow> puts_fit put fits ops s \<Longrightarrow> ok (puts put ops s) \<and>
     abs_map (puts put ops s) = fold (\<lambda>(m, q, v) f. f(key q := v)) ops (abs_map s)"
  by (induction ops arbitrary: s) (auto simp: put_abs)

lemma get_puts:
  "ok s \<Longrightarrow> puts_fit put fits ops s \<Longrightarrow>
     get (puts put ops s) q = fold (\<lambda>(m, q, v) f. f(key q := v)) ops (abs_map s) (key q)"
  using puts_abs by (simp add: get_abs)

lemma get_put_same: "ok s \<Longrightarrow> fits m s q \<Longrightarrow> get (put m s q v) q = v"
  using put_abs by (simp add: get_abs)

lemma get_put_other: "ok s \<Longrightarrow> fits m s q \<Longrightarrow> key q' \<noteq> key q \<Longrightarrow> get (put m s q v) q' = get s q'"
  using put_abs by (simp add: get_abs)

end

end
