(* ===== verification/Varint.thy ===== *)
theory Varint
  imports Prelude
begin

text \<open>
  The variable-length integers and the big-endian fields of \<open>util.c\<close>, with the macros of \<open>sqliteInt.h\<close>
  and \<open>btreeInt.h\<close> that shortcut them. Buffers are memories from which the routines read, and to which they write, at a
  position; the values are 32- and 64-bit words. The unrolled readers are compared with a reader that takes one byte
  at a time, and readers and writers are instances of the codec contract of \<open>Prelude\<close>.
\<close>

section \<open>Writing\<close>

fun putVarint64_fill :: "nat \<Rightarrow> mem \<Rightarrow> nat \<Rightarrow> u64 \<Rightarrow> mem" where
  "putVarint64_fill 0 m p v = m"
| "putVarint64_fill (Suc i) m p v =
     putVarint64_fill i (m(p + i := ucast ((v AND 0x7f) OR 0x80))) p (drop_bit 7 v)"

lemma unat_drop_bit_7: "unat (drop_bit 7 (v :: u64)) = unat v div 128"
  by (simp add: drop_bit_eq_div unat_div)

lemma unat_drop_bit_7_less: "drop_bit 7 v \<noteq> 0 \<Longrightarrow> unat (drop_bit 7 v) < unat (v :: u64)"
  by (auto simp: drop_bit_eq_div unat_div intro!: div_less_dividend simp flip: unat_gt_0)

function putVarint64_buf :: "u64 \<Rightarrow> u8 list" where
  "putVarint64_buf v =
     ucast ((v AND 0x7f) OR 0x80) #
       (if drop_bit 7 v \<noteq> 0 then putVarint64_buf (drop_bit 7 v) else [])"
  by pat_completeness auto
termination
  by (relation "measure unat") (auto intro: unat_drop_bit_7_less)

declare putVarint64_buf.simps [simp del]

definition putVarint64 :: "mem \<Rightarrow> nat \<Rightarrow> u64 \<Rightarrow> mem \<times> nat" where
  "putVarint64 m p v =
     (if v AND push_bit 32 0xff000000 \<noteq> 0
      then (putVarint64_fill 8 (m(p + 8 := ucast v)) p (drop_bit 8 v), 9)
      else (let buf = putVarint64_buf v; buf = buf[0 := buf ! 0 AND 0x7f]
            in (mem_write m p (rev buf), length buf)))"

definition sqlite3PutVarint :: "mem \<Rightarrow> nat \<Rightarrow> u64 \<Rightarrow> mem \<times> nat" where
  "sqlite3PutVarint m p v =
     (if v \<le> 0x7f then (m(p := ucast (v AND 0x7f)), 1)
      else if v \<le> 0x3fff
      then (m(p := ucast ((drop_bit 7 v AND 0x7f) OR 0x80), p + 1 := ucast (v AND 0x7f)), 2)
      else putVarint64 m p v)"


section \<open>Reading\<close>

definition SLOT_2_0 :: u32 where "SLOT_2_0 = 0x001fc07f"
definition SLOT_4_2_0 :: u32 where "SLOT_4_2_0 = 0xf01fc07f"

definition join32 :: "u32 \<Rightarrow> u32 \<Rightarrow> u64" where
  "join32 s a = push_bit 32 (ucast s) OR ucast a"

definition sqlite3GetVarint :: "mem \<Rightarrow> nat \<Rightarrow> u64 \<times> nat" where
  "sqlite3GetVarint m p =
    (if 0 \<le> sint (m p) then (ucast (m p), 1)
     else if 0 \<le> sint (m (p + 1))
     then (ucast (push_bit 7 (ucast (m p AND 0x7f)) OR ucast (m (p + 1)) :: u32), 2)
     else
     let a = push_bit 14 (ucast (m p)) :: u32; b = ucast (m (p + 1)) :: u32;
         a = a OR ucast (m (p + 2))
     in if a AND 0x80 = 0
     then (let a = a AND SLOT_2_0; b = b AND 0x7f; b = push_bit 7 b; a = a OR b
           in (ucast a, 3))
     else
     let a = a AND SLOT_2_0; b = push_bit 14 b; b = b OR ucast (m (p + 3))
     in if b AND 0x80 = 0
     then (let b = b AND SLOT_2_0; a = push_bit 7 a; a = a OR b in (ucast a, 4))
     else
     let b = b AND SLOT_2_0; s = a; a = push_bit 14 a; a = a OR ucast (m (p + 4))
     in if a AND 0x80 = 0
     then (let b = push_bit 7 b; a = a OR b; s = drop_bit 18 s in (join32 s a, 5))
     else
     let s = push_bit 7 s; s = s OR b; b = push_bit 14 b; b = b OR ucast (m (p + 5))
     in if b AND 0x80 = 0
     then (let a = a AND SLOT_2_0; a = push_bit 7 a; a = a OR b; s = drop_bit 18 s
           in (join32 s a, 6))
     else
     let a = push_bit 14 a; a = a OR ucast (m (p + 6))
     in if a AND 0x80 = 0
     then (let a = a AND SLOT_4_2_0; b = b AND SLOT_2_0; b = push_bit 7 b; a = a OR b;
               s = drop_bit 11 s
           in (join32 s a, 7))
     else
     let a = a AND SLOT_2_0; b = push_bit 14 b; b = b OR ucast (m (p + 7))
     in if b AND 0x80 = 0
     then (let b = b AND SLOT_4_2_0; a = push_bit 7 a; a = a OR b; s = drop_bit 4 s
           in (join32 s a, 8))
     else
     let a = push_bit 15 a; a = a OR ucast (m (p + 8)); b = b AND SLOT_2_0;
         b = push_bit 8 b; a = a OR b; s = push_bit 4 s;
         b = ucast (m (p + 4)); b = b AND 0x7f; b = drop_bit 3 b; s = s OR b
     in (join32 s a, 9))"

text \<open>Reference decoder.\<close>

fun varint_ref :: "nat \<Rightarrow> mem \<Rightarrow> nat \<Rightarrow> u64 \<Rightarrow> u64 \<times> nat" where
  "varint_ref 0 m q acc = (push_bit 8 acc OR ucast (m q), 1)"
| "varint_ref (Suc k) m q acc =
     (let acc' = push_bit 7 acc OR ucast (m q AND 0x7f)
      in if bit (m q) 7 then apsnd Suc (varint_ref k m (Suc q) acc') else (acc', 1))"


lemma flag14 [word_bits]: "bit (push_bit 14 (x::u32) OR ucast (b::u8)) 7 = bit b 7"
  by (simp add: bit_basics)

lemma getVarint_ref: "sqlite3GetVarint m p = varint_ref 8 m p 0"
proof -
  have p: "p + 1 = Suc p" "p + 2 = Suc (Suc p)" "p + 3 = Suc (Suc (Suc p))"
    "p + 4 = Suc (Suc (Suc (Suc p)))" "p + 5 = Suc (Suc (Suc (Suc (Suc p))))"
    "p + 6 = Suc (Suc (Suc (Suc (Suc (Suc p)))))"
    "p + 7 = Suc (Suc (Suc (Suc (Suc (Suc (Suc p))))))"
    "p + 8 = Suc (Suc (Suc (Suc (Suc (Suc (Suc (Suc p)))))))"
    and eight: "8 = Suc (Suc (Suc (Suc (Suc (Suc (Suc (Suc 0)))))))" by simp_all
  obtain b0 b1 b2 b3 b4 b5 b6 b7 b8 where
    m: "m p = b0" "m (Suc p) = b1" "m (Suc (Suc p)) = b2" "m (Suc (Suc (Suc p))) = b3"
       "m (Suc (Suc (Suc (Suc p)))) = b4" "m (Suc (Suc (Suc (Suc (Suc p))))) = b5"
       "m (Suc (Suc (Suc (Suc (Suc (Suc p)))))) = b6"
       "m (Suc (Suc (Suc (Suc (Suc (Suc (Suc p))))))) = b7"
       "m (Suc (Suc (Suc (Suc (Suc (Suc (Suc (Suc p)))))))) = b8" by blast
  consider "\<not> bit b0 7" | "bit b0 7" "\<not> bit b1 7" | "bit b0 7" "bit b1 7" "\<not> bit b2 7"
    | "bit b0 7" "bit b1 7" "bit b2 7" "\<not> bit b3 7"
    | "bit b0 7" "bit b1 7" "bit b2 7" "bit b3 7" "\<not> bit b4 7"
    | "bit b0 7" "bit b1 7" "bit b2 7" "bit b3 7" "bit b4 7" "\<not> bit b5 7"
    | "bit b0 7" "bit b1 7" "bit b2 7" "bit b3 7" "bit b4 7" "bit b5 7" "\<not> bit b6 7"
    | "bit b0 7" "bit b1 7" "bit b2 7" "bit b3 7" "bit b4 7" "bit b5 7" "bit b6 7" "\<not> bit b7 7"
    | "bit b0 7" "bit b1 7" "bit b2 7" "bit b3 7" "bit b4 7" "bit b5 7" "bit b6 7" "bit b7 7"
    by blast
  then show ?thesis
    unfolding sqlite3GetVarint_def p arg_cong [OF eight, of varint_ref] varint_ref.simps m
      sint_u8_nonneg and_80_u32
    by cases (simp only: Let_def flag14 not_True_eq_False not_False_eq_True if_True if_False
        apsnd_conv, rule arg_cong2 [where f = Pair], rule u64_eqI,
        simp add: word_bits join32_def SLOT_2_0_def SLOT_4_2_0_def, simp)+
qed

section \<open>What the writer stores\<close>

fun cont_bytes :: "nat \<Rightarrow> u64 \<Rightarrow> u8 list" where
  "cont_bytes 0 v = []"
| "cont_bytes (Suc n) v = cont_bytes n (drop_bit 7 v) @ [ucast ((v AND 0x7f) OR 0x80)]"

lemma length_cont_bytes [simp]: "length (cont_bytes n v) = n"
  by (induction n arbitrary: v) auto

lemma mem_write_upd_commute:
  "p + length bs \<le> q \<Longrightarrow> mem_write (m(q := b)) p bs = (mem_write m p bs)(q := b)"
  by (induction bs arbitrary: m p) (auto simp: fun_upd_twist)

lemma putVarint64_fill_eq: "putVarint64_fill n m p v = mem_write m p (cont_bytes n v)"
  by (induction n arbitrary: m v) (auto simp: mem_write_append mem_write_upd_commute)

lemma putVarint64_buf_eq: "putVarint64_buf v = rev (cont_bytes (length (putVarint64_buf v)) v)"
proof (induction v rule: putVarint64_buf.induct)
  case (1 v)
  then show ?case
    by (subst (1 2) putVarint64_buf.simps) auto
qed

lemma and_7f_take_bit: "(v :: u64) AND 0x7f = take_bit 7 v"
  by (simp add: take_bit_eq_mask mask_numeral)

lemma take_bit_digit:
  "push_bit 7 (push_bit (7 * n) acc OR take_bit (7 * n) (drop_bit 7 v)) OR (v AND 0x7f) =
   push_bit (7 * Suc n) acc OR take_bit (7 * Suc n) (v :: u64)"
  unfolding and_7f_take_bit
  by (rule bit_word_eqI) (auto simp: bit_simps)

lemma ucast_cont_byte: "ucast (ucast ((v AND 0x7f) OR 0x80 :: u64) AND 0x7f :: u8) = v AND 0x7f"
  by (rule u64_eqI) (simp add: word_bits)

lemma bit_cont_byte: "bit (ucast ((v AND 0x7f) OR 0x80 :: u64) :: u8) 7"
  by (simp add: word_bits)

lemma varint_ref_cont:
  assumes "n \<le> k" "\<forall>i<n. m (q + i) = cont_bytes n v ! i"
  shows "varint_ref k m q acc =
    apsnd ((+) n) (varint_ref (k - n) m (q + n) (push_bit (7 * n) acc OR take_bit (7 * n) v))"
  using assms
proof (induction n arbitrary: v)
  case 0
  then show ?case by (cases "varint_ref k m q acc") simp
next
  case (Suc n)
  have "\<forall>i<n. m (q + i) = cont_bytes n (drop_bit 7 v) ! i"
    using Suc.prems(2) by (auto simp: nth_append)
  with Suc.IH [of "drop_bit 7 v"] Suc.prems(1)
  have *: "varint_ref k m q acc = apsnd ((+) n) (varint_ref (k - n) m (q + n)
      (push_bit (7 * n) acc OR take_bit (7 * n) (drop_bit 7 v)))" by simp
  have "m (q + n) = ucast ((v AND 0x7f) OR 0x80)"
    using Suc.prems(2) by (auto simp: nth_append)
  moreover obtain j where "k - n = Suc j" "k - Suc n = j"
    using Suc.prems(1) by (metis Suc_diff_Suc less_eq_Suc_le)
  ultimately have "varint_ref (k - n) m (q + n) a =
      apsnd Suc (varint_ref (k - Suc n) m (q + Suc n) (push_bit 7 a OR (v AND 0x7f)))" for a
    by (simp add: Let_def ucast_cont_byte bit_cont_byte)
  then show ?case
    unfolding * take_bit_digit [symmetric] by (simp add: apsnd_compose comp_def)
qed

definition varint_bytes :: "u64 \<Rightarrow> u8 list" where
  "varint_bytes v =
    (if v < 2 ^ 56 then cont_bytes (length (putVarint64_buf v) - 1) (drop_bit 7 v) @ [ucast (v AND 0x7f)]
     else cont_bytes 8 (drop_bit 8 v) @ [ucast v])"

lemma high_byte_clear: "(v :: u64) AND push_bit 32 0xff000000 = 0 \<longleftrightarrow> v < 2 ^ 56"
proof -
  have "v AND push_bit 32 0xff000000 = push_bit 56 (drop_bit 56 v)"
    by (rule u64_eqI) (simp add: word_bits)
  moreover have "push_bit 56 (drop_bit 56 v) = v - take_bit 56 v"
    by (metis add_diff_cancel_right' bits_ident)
  moreover have "v = take_bit 56 v \<longleftrightarrow> unat v < 2 ^ 56"
    using take_bit_eq_self_unat [of 56 v] by auto
  ultimately show ?thesis
    by (simp add: word_less_nat_alt)
qed

lemma length_buf_pos: "0 < length (putVarint64_buf v)"
  by (subst putVarint64_buf.simps) simp

lemma length_buf_bound: "unat v < 2 ^ (7 * length (putVarint64_buf v))"
proof (induction v rule: putVarint64_buf.induct)
  case (1 v)
  show ?case
  proof (cases "drop_bit 7 v = 0")
    case True
    then have "unat v div 128 = 0" by (metis unat_drop_bit_7 unat_0)
    then show ?thesis using True by (subst putVarint64_buf.simps) auto
  next
    case False
    with 1 have "unat v div 128 < 2 ^ (7 * length (putVarint64_buf (drop_bit 7 v)))"
      by (simp add: unat_drop_bit_7)
    then have "unat v < 128 * 2 ^ (7 * length (putVarint64_buf (drop_bit 7 v)))"
      by (simp add: less_mult_imp_div_less mult.commute div_less_iff_less_mult)
    then show ?thesis using False by (subst putVarint64_buf.simps) (simp add: power_add)
  qed
qed

lemma length_buf_minimal:
  "1 < length (putVarint64_buf v) \<Longrightarrow> 2 ^ (7 * (length (putVarint64_buf v) - 1)) \<le> unat v"
proof (induction v rule: putVarint64_buf.induct)
  case (1 v)
  from 1(2) have nz: "drop_bit 7 v \<noteq> 0" by (subst (asm) putVarint64_buf.simps) (auto split: if_splits)
  define n where "n = length (putVarint64_buf (drop_bit 7 v))"
  have "0 < n" unfolding n_def by (rule length_buf_pos)
  have "2 ^ (7 * (n - 1)) \<le> unat v div 128"
  proof (cases "1 < n")
    case True
    with 1(1) [OF nz] show ?thesis by (simp add: n_def unat_drop_bit_7)
  next
    case False
    with \<open>0 < n\<close> have "n = 1" by simp
    moreover have "0 < unat v div 128" using nz by (simp add: unat_gt_0 flip: unat_drop_bit_7)
    ultimately show ?thesis by (simp add: unat_drop_bit_7)
  qed
  then have "128 * 2 ^ (7 * (n - 1)) \<le> unat v"  by (simp add: less_eq_div_iff_mult_less_eq mult.commute)
  moreover have "(128::nat) * 2 ^ (7 * (n - 1)) = 2 ^ (7 * n)"
    using \<open>0 < n\<close> by (cases n) (simp_all add: power_add)
  ultimately show ?case using nz by (subst (1) putVarint64_buf.simps) (simp flip: n_def)
qed

lemma putVarint64_eq: "putVarint64 m p v = (mem_write m p (varint_bytes v), length (varint_bytes v))"
proof (cases "v < 2 ^ 56")
  case True
  obtain n where n: "length (putVarint64_buf v) = Suc n" using length_buf_pos [of v] by (cases "length (putVarint64_buf v)") auto
  have last: "ucast ((v AND 0x7f) OR 0x80) AND (0x7f :: u8) = ucast (v AND 0x7f)"
    by (rule u8_eqI) (simp add: word_bits)
  have "putVarint64_buf v = ucast ((v AND 0x7f) OR 0x80) # rev (cont_bytes n (drop_bit 7 v))"
    by (subst putVarint64_buf_eq) (simp add: n)
  then have "rev ((putVarint64_buf v)[0 := putVarint64_buf v ! 0 AND 0x7f]) = varint_bytes v"
    using True n last by (simp add: varint_bytes_def)
  moreover from this have "length (putVarint64_buf v) = length (varint_bytes v)"
    by (metis length_list_update length_rev)
  ultimately show ?thesis using True unfolding putVarint64_def high_byte_clear by (simp add: Let_def)
next
  case False
  then show ?thesis unfolding putVarint64_def high_byte_clear
    by (simp add: varint_bytes_def putVarint64_fill_eq mem_write_append mem_write_upd_commute)
qed

lemma sqlite3PutVarint_eq:
  "sqlite3PutVarint m p v = (mem_write m p (varint_bytes v), length (varint_bytes v))"
proof -
  have small: "varint_bytes v = [ucast (v AND 0x7f)]" if "v \<le> 0x7f"
  proof -
    from that have "drop_bit 7 v = 0" "v < 2 ^ 56"
      by (auto simp: word_le_nat_alt word_less_nat_alt word_unat_eq_iff unat_drop_bit_7)
    then show ?thesis by (simp add: varint_bytes_def putVarint64_buf.simps [of v])
  qed
  have two: "varint_bytes v = [ucast ((drop_bit 7 v AND 0x7f) OR 0x80), ucast (v AND 0x7f)]"
    if "\<not> v \<le> 0x7f" "v \<le> 0x3fff"
  proof -
    from that have "drop_bit 7 v \<noteq> 0" "drop_bit 7 (drop_bit 7 v) = 0" "v < 2 ^ 56"
      by (auto simp: word_le_nat_alt word_less_nat_alt word_unat_eq_iff unat_drop_bit_7 simp del: drop_bit_drop_bit)
    then show ?thesis
      by (simp add: varint_bytes_def putVarint64_buf.simps [of v]
          putVarint64_buf.simps [of "drop_bit 7 v"])
  qed
  show ?thesis
    by (auto simp: sqlite3PutVarint_def putVarint64_eq small two)
qed

lemma length_buf_small:
  assumes "v < 2 ^ 56"
  shows "length (putVarint64_buf v) \<le> 8"
proof (rule ccontr)
  assume *: "\<not> length (putVarint64_buf v) \<le> 8"
  then have "(2::nat) ^ (7 * 8) \<le> 2 ^ (7 * (length (putVarint64_buf v) - 1))"
    by (intro power_increasing) auto
  also have "\<dots> \<le> unat v" using * by (intro length_buf_minimal) simp
  finally show False using assms by (simp add: word_less_nat_alt)
qed

lemma length_varint_bytes: "1 \<le> length (varint_bytes v) \<and> length (varint_bytes v) \<le> 9"
  using length_buf_small [of v] by (auto simp: varint_bytes_def)

lemma varint_ref_last:
  assumes "n < 8" "unat v < 2 ^ (7 * Suc n)"
  shows "push_bit 7 (take_bit (7 * n) (drop_bit 7 v)) OR (v AND 0x7f) = (v :: u64)"
  using take_bit_digit [of n 0 v] take_bit_eq_self_unat [of "7 * Suc n" v] assms by simp

lemma sqlite3GetVarint_bytes:
  assumes "mem_read m p (length (varint_bytes v)) = varint_bytes v"
  shows "sqlite3GetVarint m p = (v, length (varint_bytes v))"
proof -
  have at: "m (p + i) = varint_bytes v ! i" if "i < length (varint_bytes v)" for i
    using assms that by (metis mem_read_nth)
  show ?thesis
  proof (cases "v < 2 ^ 56")
    case True
    obtain n where n: "length (putVarint64_buf v) = Suc n"
      using length_buf_pos [of v] by (cases "length (putVarint64_buf v)") auto
    with True have bs: "varint_bytes v = cont_bytes n (drop_bit 7 v) @ [ucast (v AND 0x7f)]"
      by (simp add: varint_bytes_def)
    have "n < 8" using length_buf_small [OF True] n by simp
    have cont: "\<forall>i<n. m (p + i) = cont_bytes n (drop_bit 7 v) ! i"
      using at by (simp add: bs nth_append)
    have last: "m (p + n) = ucast (v AND 0x7f)" using at [of n] by (simp add: bs nth_append)
    have v: "push_bit 7 (take_bit (7 * n) (drop_bit 7 v)) OR (v AND 0x7f) = v"
      using varint_ref_last \<open>n < 8\<close> length_buf_bound [of v] n by metis
    have low: "\<not> bit (ucast (v AND 0x7f) :: u8) 7"
      "ucast (ucast (v AND 0x7f) AND 0x7f :: u8) = v AND 0x7f"
      by (simp add: word_bits) (rule u64_eqI, simp add: word_bits)
    obtain j where "8 - n = Suc j" using \<open>n < 8\<close> by (metis Suc_diff_Suc)
    then have "varint_ref (8 - n) m (p + n) (take_bit (7 * n) (drop_bit 7 v)) = (v, 1)"
      by (simp add: last Let_def low v del: push_bit_take_bit)
    then show ?thesis
      using varint_ref_cont [OF _ cont, of 8 0] \<open>n < 8\<close> by (simp add: getVarint_ref bs)
  next
    case False
    then have bs: "varint_bytes v = cont_bytes 8 (drop_bit 8 v) @ [ucast v]"
      by (simp add: varint_bytes_def)
    have cont: "\<forall>i<8. m (p + i) = cont_bytes 8 (drop_bit 8 v) ! i"
      using at by (simp add: bs nth_append del: cont_bytes.simps)
    have last: "m (p + 8) = ucast v" using at [of 8] by (simp add: bs nth_append del: cont_bytes.simps)
    have "push_bit 8 (take_bit 56 (drop_bit 8 v)) OR ucast (ucast v :: u8) = v"
      by (rule u64_eqI) (simp add: word_bits bit_take_bit_iff)
    then have "varint_ref 0 m (p + 8) (take_bit 56 (drop_bit 8 v)) = (v, 1)"
      by (simp only: varint_ref.simps last)
    then show ?thesis
      using varint_ref_cont [OF _ cont, of 8 0] by (simp add: getVarint_ref bs)
  qed
qed

section \<open>Lengths and the 32-bit reader\<close>

lemma unat_less_drop7: "drop_bit 7 v \<noteq> 0 \<longleftrightarrow> 128 \<le> unat (v :: u64)"
proof -
  have "drop_bit 7 v = 0 \<longleftrightarrow> unat v div 128 = 0" by (simp add: word_unat_eq_iff unat_drop_bit_7)
  then show ?thesis by (auto simp: div_eq_0_iff)
qed

function varintLen_loop :: "u64 \<Rightarrow> nat \<Rightarrow> nat" where
  "varintLen_loop v i =
     (let v' = drop_bit 7 v in if v' \<noteq> 0 then varintLen_loop v' (Suc i) else i)"
  by pat_completeness auto
termination
  by (relation "measure (\<lambda>(v, i). unat v)") (auto intro: unat_drop_bit_7_less)

declare varintLen_loop.simps [simp del]

definition sqlite3VarintLen :: "u64 \<Rightarrow> nat" where
  "sqlite3VarintLen v = varintLen_loop v 1"

lemma varintLen_loop_eq: "varintLen_loop v (Suc i) = i + length (putVarint64_buf v)"
proof (induction v arbitrary: i rule: putVarint64_buf.induct)
  case (1 v)
  then show ?case
    by (subst varintLen_loop.simps, subst putVarint64_buf.simps) (auto simp: Let_def)
qed

definition sqlite3GetVarint32 :: "mem \<Rightarrow> nat \<Rightarrow> u32 \<times> nat" where
  "sqlite3GetVarint32 m p =
    (if m (p + 1) AND 0x80 = 0
     then (push_bit 7 (ucast (m p AND 0x7f)) OR ucast (m (p + 1)), 2)
     else if m (p + 2) AND 0x80 = 0
     then (push_bit 14 (ucast (m p AND 0x7f)) OR push_bit 7 (ucast (m (p + 1) AND 0x7f))
             OR ucast (m (p + 2)), 3)
     else let (v64, n) = sqlite3GetVarint m p
          in if v64 AND 0xffffffff \<noteq> v64 then (0xffffffff, n) else (ucast v64, n))"

definition getVarint32 :: "mem \<Rightarrow> nat \<Rightarrow> u32 \<times> nat" where
  "getVarint32 m p = (if m p < 0x80 then (ucast (m p), 1) else sqlite3GetVarint32 m p)"

definition putVarint32 :: "mem \<Rightarrow> nat \<Rightarrow> u32 \<Rightarrow> mem \<times> nat" where
  "putVarint32 m p v =
     (if v < 0x80 then (m(p := ucast v), 1) else sqlite3PutVarint m p (ucast v))"

lemma varint_bytes_length_buf:
  "length (varint_bytes v) = (if v < 2 ^ 63 then length (putVarint64_buf v) else 9)"
proof (cases "v < 2 ^ 56")
  case True
  then have "v < 2 ^ 63" by (simp add: word_less_nat_alt)
  with True show ?thesis using length_buf_pos [of v] by (simp add: varint_bytes_def)
next
  case False
  let ?n = "length (putVarint64_buf v)"
  have "?n = 9" if "v < 2 ^ 63"
  proof (rule antisym)
    show "?n \<le> 9"
    proof (rule ccontr)
      assume *: "\<not> ?n \<le> 9"
      then have "(2::nat) ^ (7 * 9) \<le> 2 ^ (7 * (?n - 1))" by (intro power_increasing) auto
      also have "\<dots> \<le> unat v" using * by (intro length_buf_minimal) simp
      finally show False using that by (simp add: word_less_nat_alt)
    qed
    show "9 \<le> ?n"
    proof (rule ccontr)
      assume *: "\<not> 9 \<le> ?n"
      have "unat v < 2 ^ (7 * ?n)" by (rule length_buf_bound)
      also have "\<dots> \<le> 2 ^ (7 * 8)" using * by (intro power_increasing) auto
      finally show False using False by (simp add: word_less_nat_alt)
    qed
  qed
  with False show ?thesis by (simp add: varint_bytes_def)
qed

lemma sqlite3VarintLen_eq:
  "sqlite3VarintLen v = (if v < 2 ^ 63 then length (varint_bytes v) else 10)"
proof (cases "v < 2 ^ 63")
  case True
  then show ?thesis
    using varintLen_loop_eq [of v 0] by (simp add: sqlite3VarintLen_def varint_bytes_length_buf)
next
  case False
  let ?n = "length (putVarint64_buf v)"
  have "?n \<le> 10"
  proof (rule ccontr)
    assume *: "\<not> ?n \<le> 10"
    then have "(2::nat) ^ (7 * 10) \<le> 2 ^ (7 * (?n - 1))" by (intro power_increasing) auto
    also have "\<dots> \<le> unat v" using * by (intro length_buf_minimal) simp
    finally show False using unat_u64_less [of v] by simp
  qed
  moreover have "\<not> ?n \<le> 9"
  proof
    assume *: "?n \<le> 9"
    have "unat v < 2 ^ (7 * ?n)" by (rule length_buf_bound)
    also have "\<dots> \<le> 2 ^ (7 * 9)" using * by (intro power_increasing) auto
    finally show False using False by (simp add: word_less_nat_alt)
  qed
  ultimately show ?thesis
    using False varintLen_loop_eq [of v 0] by (simp add: sqlite3VarintLen_def)
qed

lemma mask32_eq: "v AND 0xffffffff = v \<longleftrightarrow> v \<le> (0xffffffff :: u64)"
  using take_bit_eq_self_unat [of 32 v]
  by (auto simp: take_bit_eq_mask mask_numeral word_le_nat_alt)

lemma ucast_u32_le: "(ucast (w :: u32) :: u64) \<le> 0xffffffff"
  using unat_u32_less [of w] by (simp add: word_le_nat_alt)

lemma getVarint32_eq:
  "getVarint32 m p =
     (case sqlite3GetVarint m p of
        (v, n) \<Rightarrow> (if v \<le> 0xffffffff then ucast v else 0xffffffff, n))"
proof -
  consider "\<not> bit (m p) 7" | "bit (m p) 7" "\<not> bit (m (p + 1)) 7"
    | "bit (m p) 7" "bit (m (p + 1)) 7" "\<not> bit (m (p + 2)) 7"
    | "bit (m p) 7" "bit (m (p + 1)) 7" "bit (m (p + 2)) 7" by blast
  then show ?thesis
  proof cases
    case 1
    then show ?thesis using unat_u8_less [of "m p"]
      by (simp add: getVarint32_def less_80_u8 sqlite3GetVarint_def sint_u8_nonneg word_le_nat_alt)
  next
    case 2
    then show ?thesis
      by (simp add: getVarint32_def less_80_u8 sqlite3GetVarint_def sqlite3GetVarint32_def
          sint_u8_nonneg and_80_u8 ucast_u32_le)
  next
    case 3
    have "(push_bit 14 (ucast (m p)) OR ucast (m (p + 2))) AND SLOT_2_0 OR
        push_bit 7 (ucast (m (p + 1)) AND 0x7f) =
      push_bit 14 (ucast (m p AND 0x7f)) OR push_bit 7 (ucast (m (p + 1) AND 0x7f)) OR
        ucast (m (p + 2))" using 3
      by - (rule u32_eqI, simp add: word_bits SLOT_2_0_def)
    with 3 show ?thesis
      by (simp only: getVarint32_def less_80_u8 sqlite3GetVarint_def sqlite3GetVarint32_def
          sint_u8_nonneg and_80_u8 and_80_u32 Let_def flag14 prod.case if_True if_False
          not_True_eq_False not_False_eq_True ucast_u32_le ucast_u32_u64_u32)
  next
    case 4
    then show ?thesis
      by (auto simp: getVarint32_def less_80_u8 sqlite3GetVarint32_def and_80_u8 mask32_eq
          split: prod.splits)
  qed
qed

section \<open>Fixed-width big-endian integers\<close>

definition sqlite3Get4byte :: "mem \<Rightarrow> nat \<Rightarrow> u32" where
  "sqlite3Get4byte m p =
     push_bit 24 (ucast (m p)) OR push_bit 16 (ucast (m (p + 1))) OR
     push_bit 8 (ucast (m (p + 2))) OR ucast (m (p + 3))"

definition sqlite3Put4byte :: "mem \<Rightarrow> nat \<Rightarrow> u32 \<Rightarrow> mem" where
  "sqlite3Put4byte m p v =
     m(p := ucast (drop_bit 24 v), p + 1 := ucast (drop_bit 16 v),
       p + 2 := ucast (drop_bit 8 v), p + 3 := ucast v)"

definition get2byte :: "mem \<Rightarrow> nat \<Rightarrow> u32" where
  "get2byte m p = push_bit 8 (ucast (m p)) OR ucast (m (p + 1))"

definition put2byte :: "mem \<Rightarrow> nat \<Rightarrow> u32 \<Rightarrow> mem" where
  "put2byte m p v = m(p := ucast (drop_bit 8 v), p + 1 := ucast v)"

text \<open>The four bytes that \<open>sqlite3Put4byte\<close> stores.\<close>

definition bytes4 :: "u32 \<Rightarrow> u8 list" where
  "bytes4 v = [ucast (drop_bit 24 v), ucast (drop_bit 16 v), ucast (drop_bit 8 v), ucast v]"

lemma length_bytes4 [simp]: "length (bytes4 v) = 4"
  by (simp add: bytes4_def)

lemma sqlite3Put4byte_eq: "sqlite3Put4byte m p v = mem_write m p (bytes4 v)"
  by (simp add: sqlite3Put4byte_def bytes4_def numeral_eq_Suc)

lemma sqlite3Get4byte_bytes4:
  assumes "mem_read m p 4 = bytes4 v"
  shows "sqlite3Get4byte m p = v"
proof -
  have "m p = ucast (drop_bit 24 v)" "m (p + 1) = ucast (drop_bit 16 v)"
    "m (p + 2) = ucast (drop_bit 8 v)" "m (p + 3) = ucast v"
    using assms by (auto simp: mem_read_def bytes4_def upt_conv_Cons numeral_eq_Suc)
  then show ?thesis
    unfolding sqlite3Get4byte_def by - (rule u32_eqI, simp add: word_bits)
qed

lemma bytes4_Get4byte: "bytes4 (sqlite3Get4byte m p) = mem_read m p 4"
proof -
  have "bytes4 (sqlite3Get4byte m p) = [m p, m (p + 1), m (p + 2), m (p + 3)]"
    unfolding bytes4_def sqlite3Get4byte_def
    by (simp only: list.inject simp_thms, intro conjI; rule u8_eqI, simp add: word_bits)
  then show ?thesis by (simp add: mem_read_def upt_conv_Cons numeral_eq_Suc)
qed

lemma get2byte_put2byte: "get2byte (put2byte m p v) p = v AND 0xffff"
  by (rule u32_eqI) (simp add: get2byte_def put2byte_def word_bits)

interpretation varint: byte_codec varint_bytes sqlite3GetVarint
proof unfold_locales
  show "sqlite3GetVarint m p = (v, length (varint_bytes v))"
    if "mem_read m p (length (varint_bytes v)) = varint_bytes v" for m p v
    using that by (rule sqlite3GetVarint_bytes)
  show "varint_bytes v \<noteq> []" for v
    using length_varint_bytes [of v] by auto
qed

interpretation be4: byte_codec bytes4 "\<lambda>m p. (sqlite3Get4byte m p, 4)"
proof unfold_locales
  show "(sqlite3Get4byte m p, 4) = (v, length (bytes4 v))"
    if "mem_read m p (length (bytes4 v)) = bytes4 v" for m p v
    using that by (simp add: sqlite3Get4byte_bytes4)
  show "bytes4 v \<noteq> []" for v by (simp add: bytes4_def)
qed

section \<open>Properties\<close>

text \<open>
  C17. The optimised reader, which interleaves two 32-bit accumulators and precomputed masks,
  returns for every memory content the value and length that the byte-by-byte definition of
  the format gives: seven bits per byte while the flag bit is set, eight bits from a ninth byte.
\<close>

theorem sqlite3GetVarint_correct: "sqlite3GetVarint m p = varint_ref 8 m p 0"
  by (rule getVarint_ref)

text \<open>
  C31. Writing a 64-bit value and reading it back gives the value and the length that the
  writer returned; the length is between 1 and 9, and no byte outside those written changes.
\<close>

theorem varint_roundtrip:
  "case sqlite3PutVarint m p v of (m', n) \<Rightarrow>
     sqlite3GetVarint m' p = (v, n) \<and> 1 \<le> n \<and> n \<le> 9 \<and> {q. m' q \<noteq> m q} \<subseteq> {p..<p + n}"
proof -
  have "{q. mem_write m p bs q \<noteq> m q} \<subseteq> {p..<p + length bs}" for bs
    using mem_write_other [of _ p bs m] by fastforce
  then show ?thesis
    using length_varint_bytes [of v] by (simp add: sqlite3PutVarint_eq varint.dec_written)
qed

text \<open>
  A sequence of values written one after the other is read back in order by repeated
  calls of the reader, each starting where the one before stopped.
\<close>

theorem varint_sequence_roundtrip:
  "decode_seq sqlite3GetVarint (length vs) (mem_write m p (concat (map varint_bytes vs))) p =
     (vs, p + length (concat (map varint_bytes vs)))"
  by (rule varint.decode_seq_enc) (rule mem_read_write)

text \<open>
  C37. \<open>sqlite3VarintLen\<close> is the number of bytes that \<open>sqlite3PutVarint\<close> writes for every
  value below \<open>2 ^ 63\<close>; from there on it returns 10 although 9 bytes are written.
\<close>

theorem sqlite3VarintLen_correct:
  "sqlite3VarintLen v =
     (if v < 2 ^ 63 then snd (sqlite3PutVarint m p v)
      else Suc (snd (sqlite3PutVarint m p v)))"
  by (simp add: sqlite3VarintLen_eq sqlite3PutVarint_eq varint_bytes_length_buf)

text \<open>
  The 32-bit reader agrees with the 64-bit one on the length and returns its value
  saturated at \<open>0xffffffff\<close>, on every branch of its special cases for short encodings.
\<close>

theorem getVarint32_saturates:
  "getVarint32 m p =
     (case sqlite3GetVarint m p of
        (v, n) \<Rightarrow> (if v \<le> 0xffffffff then ucast v else 0xffffffff, n))"
  by (rule getVarint32_eq)

end
