(* ===== verification/Ctype.thy ===== *)
theory Ctype
  imports Prelude
begin

text \<open>
  Character classes and case folding: the two tables of \<open>global.c\<close>, the macros of
  \<open>sqliteInt.h\<close> that read them, and what the tables contain as formulas.
\<close>

section \<open>Tables\<close>

definition sqlite3UpperToLower :: "u8 list" where
  "sqlite3UpperToLower =
    [0, 1, 2, 3, 4, 5, 6, 7, 8, 9, 10, 11, 12, 13, 14, 15,
     16, 17, 18, 19, 20, 21, 22, 23, 24, 25, 26, 27, 28, 29, 30, 31,
     32, 33, 34, 35, 36, 37, 38, 39, 40, 41, 42, 43, 44, 45, 46, 47,
     48, 49, 50, 51, 52, 53, 54, 55, 56, 57, 58, 59, 60, 61, 62, 63,
     64, 97, 98, 99, 100, 101, 102, 103, 104, 105, 106, 107, 108, 109, 110, 111,
     112, 113, 114, 115, 116, 117, 118, 119, 120, 121, 122, 91, 92, 93, 94, 95,
     96, 97, 98, 99, 100, 101, 102, 103, 104, 105, 106, 107, 108, 109, 110, 111,
     112, 113, 114, 115, 116, 117, 118, 119, 120, 121, 122, 123, 124, 125, 126, 127,
     128, 129, 130, 131, 132, 133, 134, 135, 136, 137, 138, 139, 140, 141, 142, 143,
     144, 145, 146, 147, 148, 149, 150, 151, 152, 153, 154, 155, 156, 157, 158, 159,
     160, 161, 162, 163, 164, 165, 166, 167, 168, 169, 170, 171, 172, 173, 174, 175,
     176, 177, 178, 179, 180, 181, 182, 183, 184, 185, 186, 187, 188, 189, 190, 191,
     192, 193, 194, 195, 196, 197, 198, 199, 200, 201, 202, 203, 204, 205, 206, 207,
     208, 209, 210, 211, 212, 213, 214, 215, 216, 217, 218, 219, 220, 221, 222, 223,
     224, 225, 226, 227, 228, 229, 230, 231, 232, 233, 234, 235, 236, 237, 238, 239,
     240, 241, 242, 243, 244, 245, 246, 247, 248, 249, 250, 251, 252, 253, 254, 255]"

definition sqlite3CtypeMap :: "u8 list" where
  "sqlite3CtypeMap =
    [0x00, 0x00, 0x00, 0x00, 0x00, 0x00, 0x00, 0x00,
     0x00, 0x01, 0x01, 0x01, 0x01, 0x01, 0x00, 0x00,
     0x00, 0x00, 0x00, 0x00, 0x00, 0x00, 0x00, 0x00,
     0x00, 0x00, 0x00, 0x00, 0x00, 0x00, 0x00, 0x00,
     0x01, 0x00, 0x80, 0x00, 0x40, 0x00, 0x00, 0x80,
     0x00, 0x00, 0x00, 0x00, 0x00, 0x00, 0x00, 0x00,
     0x0c, 0x0c, 0x0c, 0x0c, 0x0c, 0x0c, 0x0c, 0x0c,
     0x0c, 0x0c, 0x00, 0x00, 0x00, 0x00, 0x00, 0x00,
     0x00, 0x0a, 0x0a, 0x0a, 0x0a, 0x0a, 0x0a, 0x02,
     0x02, 0x02, 0x02, 0x02, 0x02, 0x02, 0x02, 0x02,
     0x02, 0x02, 0x02, 0x02, 0x02, 0x02, 0x02, 0x02,
     0x02, 0x02, 0x02, 0x80, 0x00, 0x00, 0x00, 0x40,
     0x80, 0x2a, 0x2a, 0x2a, 0x2a, 0x2a, 0x2a, 0x22,
     0x22, 0x22, 0x22, 0x22, 0x22, 0x22, 0x22, 0x22,
     0x22, 0x22, 0x22, 0x22, 0x22, 0x22, 0x22, 0x22,
     0x22, 0x22, 0x22, 0x00, 0x00, 0x00, 0x00, 0x00,
     0x40, 0x40, 0x40, 0x40, 0x40, 0x40, 0x40, 0x40,
     0x40, 0x40, 0x40, 0x40, 0x40, 0x40, 0x40, 0x40,
     0x40, 0x40, 0x40, 0x40, 0x40, 0x40, 0x40, 0x40,
     0x40, 0x40, 0x40, 0x40, 0x40, 0x40, 0x40, 0x40,
     0x40, 0x40, 0x40, 0x40, 0x40, 0x40, 0x40, 0x40,
     0x40, 0x40, 0x40, 0x40, 0x40, 0x40, 0x40, 0x40,
     0x40, 0x40, 0x40, 0x40, 0x40, 0x40, 0x40, 0x40,
     0x40, 0x40, 0x40, 0x40, 0x40, 0x40, 0x40, 0x40,
     0x40, 0x40, 0x40, 0x40, 0x40, 0x40, 0x40, 0x40,
     0x40, 0x40, 0x40, 0x40, 0x40, 0x40, 0x40, 0x40,
     0x40, 0x40, 0x40, 0x40, 0x40, 0x40, 0x40, 0x40,
     0x40, 0x40, 0x40, 0x40, 0x40, 0x40, 0x40, 0x40,
     0x40, 0x40, 0x40, 0x40, 0x40, 0x40, 0x40, 0x40,
     0x40, 0x40, 0x40, 0x40, 0x40, 0x40, 0x40, 0x40,
     0x40, 0x40, 0x40, 0x40, 0x40, 0x40, 0x40, 0x40,
     0x40, 0x40, 0x40, 0x40, 0x40, 0x40, 0x40, 0x40]"

definition sqlite3Tolower :: "u8 \<Rightarrow> u8" where
  "sqlite3Tolower x = sqlite3UpperToLower ! unat x"

definition sqlite3Isspace :: "u8 \<Rightarrow> bool" where
  "sqlite3Isspace x \<longleftrightarrow> sqlite3CtypeMap ! unat x AND 0x01 \<noteq> 0"

definition sqlite3Isalnum :: "u8 \<Rightarrow> bool" where
  "sqlite3Isalnum x \<longleftrightarrow> sqlite3CtypeMap ! unat x AND 0x06 \<noteq> 0"

definition sqlite3Isalpha :: "u8 \<Rightarrow> bool" where
  "sqlite3Isalpha x \<longleftrightarrow> sqlite3CtypeMap ! unat x AND 0x02 \<noteq> 0"

definition sqlite3Isdigit :: "u8 \<Rightarrow> bool" where
  "sqlite3Isdigit x \<longleftrightarrow> sqlite3CtypeMap ! unat x AND 0x04 \<noteq> 0"

definition sqlite3Isxdigit :: "u8 \<Rightarrow> bool" where
  "sqlite3Isxdigit x \<longleftrightarrow> sqlite3CtypeMap ! unat x AND 0x08 \<noteq> 0"

definition sqlite3Isquote :: "u8 \<Rightarrow> bool" where
  "sqlite3Isquote x \<longleftrightarrow> sqlite3CtypeMap ! unat x AND 0x80 \<noteq> 0"

definition IdChar :: "u8 \<Rightarrow> bool" where
  "IdChar x \<longleftrightarrow> sqlite3CtypeMap ! unat x AND 0x46 \<noteq> 0"

definition sqlite3Toupper :: "u8 \<Rightarrow> u8" where
  "sqlite3Toupper x = x AND NOT (sqlite3CtypeMap ! unat x AND 0x20)"

section \<open>The tables as formulas\<close>

lemma UpperToLower_map:
  "sqlite3UpperToLower =
     map (\<lambda>n. if 65 \<le> n \<and> n \<le> 90 then word_of_nat (n + 32) else word_of_nat n) [0..<256]"
  by (simp add: sqlite3UpperToLower_def upt_conv_Cons)

definition ctype_of :: "nat \<Rightarrow> u8" where
  "ctype_of n =
    (if n = 32 \<or> 9 \<le> n \<and> n \<le> 13 then 0x01 else if 48 \<le> n \<and> n \<le> 57 then 0x0c
     else if 65 \<le> n \<and> n \<le> 70 then 0x0a else if 71 \<le> n \<and> n \<le> 90 then 0x02
     else if 97 \<le> n \<and> n \<le> 102 then 0x2a else if 103 \<le> n \<and> n \<le> 122 then 0x22
     else if n = 34 \<or> n = 39 \<or> n = 91 \<or> n = 96 then 0x80
     else if n = 36 \<or> n = 95 \<or> 128 \<le> n then 0x40 else 0)"

lemma CtypeMap_map: "sqlite3CtypeMap = map ctype_of [0..<256]"
  by (simp add: sqlite3CtypeMap_def ctype_of_def upt_conv_Cons)

lemma CtypeMap_nth: "sqlite3CtypeMap ! unat (x :: u8) = ctype_of (unat x)"
  using unat_u8_less [of x] by (simp add: CtypeMap_map)

lemma sqlite3Tolower_eq:
  "sqlite3Tolower x = (if 65 \<le> unat x \<and> unat x \<le> 90 then x + 32 else x)"
  using unat_u8_less [of x] by (simp add: sqlite3Tolower_def UpperToLower_map)

lemma sqlite3Isspace_iff: "sqlite3Isspace x \<longleftrightarrow> unat x = 32 \<or> 9 \<le> unat x \<and> unat x \<le> 13"
  by (simp add: sqlite3Isspace_def CtypeMap_nth ctype_of_def)

lemma sqlite3Isdigit_iff: "sqlite3Isdigit x \<longleftrightarrow> 48 \<le> unat x \<and> unat x \<le> 57"
  by (auto simp add: sqlite3Isdigit_def CtypeMap_nth ctype_of_def)

lemma sqlite3Isxdigit_iff:
  "sqlite3Isxdigit x \<longleftrightarrow> 48 \<le> unat x \<and> unat x \<le> 57 \<or> 65 \<le> unat x \<and> unat x \<le> 70 \<or>
     97 \<le> unat x \<and> unat x \<le> 102"
  by (auto simp add: sqlite3Isxdigit_def CtypeMap_nth ctype_of_def)

lemma sqlite3Isquote_iff:
  "sqlite3Isquote x \<longleftrightarrow> unat x = 34 \<or> unat x = 39 \<or> unat x = 91 \<or> unat x = 96"
  by (auto simp add: sqlite3Isquote_def CtypeMap_nth ctype_of_def)

lemma unat_Tolower:
  "unat (sqlite3Tolower x) = (if 65 \<le> unat x \<and> unat x \<le> 90 then unat x + 32 else unat x)"
  by (simp add: sqlite3Tolower_eq unat_word_ariths)

lemma Tolower_0_iff [simp]: "sqlite3Tolower x = 0 \<longleftrightarrow> x = 0"
  by (auto simp: word_unat_eq_iff unat_Tolower)

lemma Tolower_zero [simp]: "sqlite3Tolower 0 = 0"
  by simp

lemma Tolower_0_iff' [simp]: "0 = sqlite3Tolower x \<longleftrightarrow> x = 0"
  by (metis Tolower_0_iff)

lemma Tolower_idem [simp]: "sqlite3Tolower (sqlite3Tolower x) = sqlite3Tolower x"
  by (simp add: word_unat_eq_iff unat_Tolower)

end
