(* ===== verification/Chars.thy ===== *)
theory Chars
  imports Ctype
begin

text \<open>
  The string comparisons and hashes of \<open>util.c\<close>. A C string is the list of its bytes; the
  terminator is what reading past the end gives.
\<close>

type_synonym cstring = "u8 list"

definition char_at :: "cstring \<Rightarrow> nat \<Rightarrow> u8" where
  "char_at z i = (if i < length z then z ! i else 0)"

section \<open>Comparing and hashing strings\<close>

definition sqlite3Strlen30 :: "cstring option \<Rightarrow> u32" where
  "sqlite3Strlen30 z =
     (case z of None \<Rightarrow> 0
      | Some s \<Rightarrow> 0x3fffffff AND of_nat (length (takeWhile (\<lambda>c. c \<noteq> 0) s)))"

definition hd0 :: "cstring \<Rightarrow> u8" where
  "hd0 z = (case z of [] \<Rightarrow> 0 | c # _ \<Rightarrow> c)"

lemma hd0_simps [simp]: "hd0 [] = 0" "hd0 (c # z) = c"
  by (simp_all add: hd0_def)

function sqlite3StrICmp :: "cstring \<Rightarrow> cstring \<Rightarrow> int" where
  "sqlite3StrICmp a b =
    (let c = hd0 a; x = hd0 b
     in if c = x then (if c = 0 then 0 else sqlite3StrICmp (tl a) (tl b))
        else let d = int (unat (sqlite3Tolower c)) - int (unat (sqlite3Tolower x))
             in if d \<noteq> 0 then d else sqlite3StrICmp (tl a) (tl b))"
  by pat_completeness auto
termination
  by (relation "measure (\<lambda>(a, b). length a + length b)") (auto simp: hd0_def split: list.splits)

declare sqlite3StrICmp.simps [simp del]

definition sqlite3_stricmp :: "cstring option \<Rightarrow> cstring option \<Rightarrow> int" where
  "sqlite3_stricmp zLeft zRight =
    (case zLeft of None \<Rightarrow> (case zRight of None \<Rightarrow> 0 | Some _ \<Rightarrow> -1)
     | Some l \<Rightarrow> (case zRight of None \<Rightarrow> 1 | Some r \<Rightarrow> sqlite3StrICmp l r))"

fun strnicmp_loop :: "cstring \<Rightarrow> cstring \<Rightarrow> nat \<Rightarrow> int" where
  "strnicmp_loop a b 0 = 0"
| "strnicmp_loop a b (Suc n) =
     (if hd0 a \<noteq> 0 \<and> sqlite3Tolower (hd0 a) = sqlite3Tolower (hd0 b)
      then strnicmp_loop (tl a) (tl b) n
      else int (unat (sqlite3Tolower (hd0 a))) - int (unat (sqlite3Tolower (hd0 b))))"

definition sqlite3_strnicmp :: "cstring option \<Rightarrow> cstring option \<Rightarrow> int \<Rightarrow> int" where
  "sqlite3_strnicmp zLeft zRight N =
    (case zLeft of None \<Rightarrow> (case zRight of None \<Rightarrow> 0 | Some _ \<Rightarrow> -1)
     | Some l \<Rightarrow> (case zRight of None \<Rightarrow> 1 | Some r \<Rightarrow> strnicmp_loop l r (nat N)))"

fun strIHash_loop :: "cstring \<Rightarrow> u8 \<Rightarrow> u8" where
  "strIHash_loop [] h = h"
| "strIHash_loop (c # z) h = (if c = 0 then h else strIHash_loop z (h + sqlite3Tolower c))"

definition sqlite3StrIHash :: "cstring option \<Rightarrow> u8" where
  "sqlite3StrIHash z = (case z of None \<Rightarrow> 0 | Some s \<Rightarrow> strIHash_loop s 0)"

text \<open>What two strings have in common when they compare equal: the folded text up to the terminator.\<close>

definition fold_text :: "cstring \<Rightarrow> cstring" where
  "fold_text z = map sqlite3Tolower (takeWhile (\<lambda>c. c \<noteq> 0) z)"

lemma fold_text_Nil_iff: "fold_text z = [] \<longleftrightarrow> hd0 z = 0"
  by (cases z) (auto simp: fold_text_def)

lemma fold_text_step: "hd0 z \<noteq> 0 \<Longrightarrow> fold_text z = sqlite3Tolower (hd0 z) # fold_text (tl z)"
  by (cases z) (auto simp: fold_text_def)

lemma zero_notin_fold_text: "0 \<notin> set (fold_text z)"
  by (auto simp: fold_text_def dest: set_takeWhileD)

fun textcmp :: "cstring \<Rightarrow> cstring \<Rightarrow> int" where
  "textcmp [] [] = 0"
| "textcmp [] (x # xs) = - int (unat x)"
| "textcmp (c # cs) [] = int (unat c)"
| "textcmp (c # cs) (x # xs) = (if c = x then textcmp cs xs else int (unat c) - int (unat x))"

lemma sqlite3StrICmp_textcmp: "sqlite3StrICmp a b = textcmp (fold_text a) (fold_text b)"
proof (induction a b rule: sqlite3StrICmp.induct)
  case (1 a b)
  show ?case
  proof (cases "hd0 a = 0 \<or> hd0 b = 0")
    case True
    then show ?thesis
      by (subst sqlite3StrICmp.simps)
        (auto simp: Let_def fold_text_Nil_iff [THEN iffD2] fold_text_step
          simp flip: word_uint_eq_iff)
  next
    case False
    then show ?thesis using 1
      by (subst sqlite3StrICmp.simps)
        (auto simp: Let_def fold_text_step simp flip: word_uint_eq_iff)
  qed
qed

lemma textcmp_swap: "textcmp a b = - textcmp b a"
  by (induction a b rule: textcmp.induct) auto

lemma textcmp_0_iff: "0 \<notin> set a \<Longrightarrow> 0 \<notin> set b \<Longrightarrow> textcmp a b = 0 \<longleftrightarrow> a = b"
  by (induction a b rule: textcmp.induct) (auto simp: word_uint_eq_iff)

lemma textcmp_Nil: "textcmp [] c \<le> 0"
  by (cases c) auto

lemma textcmp_trans:
  "0 \<notin> set a \<Longrightarrow> 0 \<notin> set b \<Longrightarrow> 0 \<notin> set c \<Longrightarrow> textcmp a b \<le> 0 \<Longrightarrow> textcmp b c \<le> 0 \<Longrightarrow>
   textcmp a c \<le> 0"
proof (induction a b arbitrary: c rule: textcmp.induct)
  case (4 x xs y ys)
  then show ?case by (cases c) (auto simp: word_uint_eq_iff split: if_splits)
qed (auto simp: word_uint_eq_iff textcmp_Nil neq_Nil_conv)

interpretation stricmp: three_way sqlite3StrICmp
proof unfold_locales
  show "0 < sqlite3StrICmp a b \<longleftrightarrow> sqlite3StrICmp b a < 0" for a b
    unfolding sqlite3StrICmp_textcmp by (subst textcmp_swap) auto
  show "sqlite3StrICmp a c \<le> 0" if "sqlite3StrICmp a b \<le> 0" "sqlite3StrICmp b c \<le> 0" for a b c
    using that textcmp_trans zero_notin_fold_text unfolding sqlite3StrICmp_textcmp by blast
qed

lemma sqlite3StrICmp_0_iff: "sqlite3StrICmp a b = 0 \<longleftrightarrow> fold_text a = fold_text b"
  by (simp add: sqlite3StrICmp_textcmp textcmp_0_iff zero_notin_fold_text)

lemma strIHash_fold: "strIHash_loop z h = fold (\<lambda>c h. h + c) (fold_text z) h"
  by (induction z arbitrary: h) (auto simp: fold_text_def)

lemma strnicmp_loop_0_iff:
  "strnicmp_loop a b n = 0 \<longleftrightarrow> take n (fold_text a) = take n (fold_text b)"
proof (induction n arbitrary: a b)
  case (Suc n)
  show ?case
  proof (cases "hd0 a = 0 \<or> hd0 b = 0")
    case True
    then show ?thesis
      by (auto simp: fold_text_Nil_iff [THEN iffD2] fold_text_step fold_text_Nil_iff
          simp flip: word_uint_eq_iff)
  next
    case False
    then show ?thesis using Suc.IH [of "tl a" "tl b"]
      by (auto simp: fold_text_step simp flip: word_uint_eq_iff)
  qed
qed simp

section \<open>Properties\<close>

text \<open>
  C39. Identifier comparison is a three-way order on the case-folded text before the
  terminator: zero exactly when the folded texts are equal, antisymmetric and transitive, and
  the case-insensitive hash gives equal values to strings that compare equal.
\<close>

theorem sqlite3StrICmp_order:
  "(sqlite3StrICmp a b = 0 \<longleftrightarrow> fold_text a = fold_text b) \<and>
   (0 < sqlite3StrICmp a b \<longleftrightarrow> sqlite3StrICmp b a < 0) \<and>
   (sqlite3StrICmp a b \<le> 0 \<and> sqlite3StrICmp b c \<le> 0 \<longrightarrow> sqlite3StrICmp a c \<le> 0) \<and>
   (sqlite3StrICmp a b = 0 \<longrightarrow> sqlite3StrIHash (Some a) = sqlite3StrIHash (Some b))"
  using stricmp.cmp_antisym [of a b] stricmp.cmp_trans [of a b c]
  by (simp add: sqlite3StrICmp_0_iff sqlite3StrIHash_def strIHash_fold)

theorem sqlite3StrICmp_order_witness:
  "sqlite3StrICmp [65, 98] [97, 66] = 0 \<and>
   sqlite3StrIHash (Some [65, 98]) = sqlite3StrIHash (Some [97, 66])"
proof -
  have "fold_text [65, 98] = fold_text [97, 66]"
    by (simp add: fold_text_def sqlite3Tolower_eq)
  then show ?thesis
    using sqlite3StrICmp_order [of "[65, 98]" "[97, 66]" "[]"] by blast
qed

end
