(* ===== verification/HashTable.thy ===== *)
theory HashTable
  imports Chars "HOL-Library.Multiset"
begin

text \<open>
  The generic hash table of \<open>hash.c\<close>: one global list of elements, in which each bucket of the
  optional bucket array names the first element of a contiguous run. The doubly linked list is
  the list of its elements in order, each carrying its address; a bucket holds a count and the
  address of its first element. A \<open>void*\<close> data pointer is an option, \<open>None\<close> for \<open>NULL\<close>.
  Allocation is an input of the operations that allocate: the address of the new element, and
  the number of bucket slots that the allocator hands out for a requested number, \<open>None\<close> when
  the allocation fails. The counts are natural numbers: they would wrap only with \<open>2 ^ 32\<close> elements.
\<close>

section \<open>State\<close>

record 'd HashElem =
  addr :: nat
  data :: 'd
  pKey :: cstring

record ht_entry =
  ht_count :: nat
  chain :: "nat option"

record 'd Hash =
  htsize :: nat
  count :: nat
  first :: "'d HashElem list"
  ht :: "ht_entry list option"

section \<open>Operations\<close>

definition sqlite3HashInit :: "'d Hash" where
  "sqlite3HashInit = \<lparr>htsize = 0, count = 0, first = [], ht = None\<rparr>"

definition sqlite3HashClear :: "'d Hash \<Rightarrow> 'd Hash" where
  "sqlite3HashClear pH = pH\<lparr>first := [], ht := None, htsize := 0, count := 0\<rparr>"

fun strHash_loop :: "cstring \<Rightarrow> u32 \<Rightarrow> u32" where
  "strHash_loop [] h = h"
| "strHash_loop (c # z) h =
     (if c = 0 then h else strHash_loop z ((h + ucast (sqlite3Tolower c)) * 0x9e3779b1))"

definition strHash :: "cstring \<Rightarrow> nat" where
  "strHash z = unat (strHash_loop z 0)"

text \<open>Linking a new element before the one at a given address.\<close>

fun insert_before :: "nat \<Rightarrow> 'd HashElem \<Rightarrow> 'd HashElem list \<Rightarrow> 'd HashElem list" where
  "insert_before a new [] = [new]"
| "insert_before a new (e # es) = (if addr e = a then new # e # es else e # insert_before a new es)"

definition insertElement :: "'d Hash \<Rightarrow> nat option \<Rightarrow> 'd HashElem \<Rightarrow> 'd Hash" where
  "insertElement pH pEntry pNew =
    (let (pHead, pH) =
       (case (pEntry, ht pH) of
          (Some h, Some t) \<Rightarrow>
            (if ht_count (t ! h) \<noteq> 0 then chain (t ! h) else None,
             pH\<lparr>ht := Some (t[h := \<lparr>ht_count = ht_count (t ! h) + 1, chain = Some (addr pNew)\<rparr>])\<rparr>)
        | _ \<Rightarrow> (None, pH))
     in case pHead of
          Some a \<Rightarrow> pH\<lparr>first := insert_before a pNew (first pH)\<rparr>
        | None \<Rightarrow> pH\<lparr>first := pNew # first pH\<rparr>)"

definition SQLITE_MALLOC_SOFT_LIMIT :: nat where
  "SQLITE_MALLOC_SOFT_LIMIT = 1024"

definition sizeof_ht :: nat where
  "sizeof_ht = 16"

fun rehash_loop :: "'d Hash \<Rightarrow> nat \<Rightarrow> 'd HashElem list \<Rightarrow> 'd Hash" where
  "rehash_loop pH new_size [] = pH"
| "rehash_loop pH new_size (e # es) =
     rehash_loop (insertElement pH (Some (strHash (pKey e) mod new_size)) e) new_size es"

definition rehash :: "(nat \<Rightarrow> nat option) \<Rightarrow> 'd Hash \<Rightarrow> nat \<Rightarrow> bool \<times> 'd Hash" where
  "rehash malloc_ht pH new_size =
    (let new_size = (if new_size * sizeof_ht > SQLITE_MALLOC_SOFT_LIMIT
                     then SQLITE_MALLOC_SOFT_LIMIT div sizeof_ht else new_size)
     in if new_size = htsize pH then (False, pH)
        else case malloc_ht new_size of
          None \<Rightarrow> (False, pH)
        | Some n \<Rightarrow>
            (True, rehash_loop (pH\<lparr>ht := Some (replicate n \<lparr>ht_count = 0, chain = None\<rparr>),
                                    htsize := n, first := []\<rparr>) n (first pH)))"

fun find_loop :: "nat \<Rightarrow> 'd HashElem list \<Rightarrow> cstring \<Rightarrow> 'd HashElem option" where
  "find_loop 0 es k = None"
| "find_loop (Suc n) [] k = None"
| "find_loop (Suc n) (e # es) k =
     (if sqlite3StrICmp (pKey e) k = 0 then Some e else find_loop n es k)"

definition from_addr :: "nat option \<Rightarrow> 'd HashElem list \<Rightarrow> 'd HashElem list" where
  "from_addr a es = (case a of None \<Rightarrow> [] | Some x \<Rightarrow> dropWhile (\<lambda>e. addr e \<noteq> x) es)"

definition findElementWithHash :: "'d Hash \<Rightarrow> cstring \<Rightarrow> 'd HashElem option \<times> nat" where
  "findElementWithHash pH k =
    (case ht pH of
       Some t \<Rightarrow> (let h = strHash k mod htsize pH
                  in (find_loop (ht_count (t ! h)) (from_addr (chain (t ! h)) (first pH)) k, h))
     | None \<Rightarrow> (find_loop (count pH) (first pH) k, 0))"

definition next_of :: "nat \<Rightarrow> 'd HashElem list \<Rightarrow> nat option" where
  "next_of a es =
    (case dropWhile (\<lambda>e. addr e \<noteq> a) es of e # e' # _ \<Rightarrow> Some (addr e') | _ \<Rightarrow> None)"

definition removeElementGivenHash :: "'d Hash \<Rightarrow> 'd HashElem \<Rightarrow> nat \<Rightarrow> 'd Hash" where
  "removeElementGivenHash pH elem h =
    (let nxt = next_of (addr elem) (first pH);
         pH = pH\<lparr>first := filter (\<lambda>e. addr e \<noteq> addr elem) (first pH)\<rparr>;
         pH = (case ht pH of None \<Rightarrow> pH
               | Some t \<Rightarrow>
                   pH\<lparr>ht := Some (t[h := \<lparr>ht_count = ht_count (t ! h) - 1,
                     chain = (if chain (t ! h) = Some (addr elem) then nxt
                              else chain (t ! h))\<rparr>])\<rparr>);
         pH = pH\<lparr>count := count pH - 1\<rparr>
     in if count pH = 0 then sqlite3HashClear pH else pH)"

definition sqlite3HashFind :: "'d Hash \<Rightarrow> cstring \<Rightarrow> 'd option" where
  "sqlite3HashFind pH k = map_option data (fst (findElementWithHash pH k))"

definition sqlite3HashInsert ::
  "nat option \<Rightarrow> (nat \<Rightarrow> nat option) \<Rightarrow> 'd Hash \<Rightarrow> cstring \<Rightarrow> 'd option \<Rightarrow> 'd option \<times> 'd Hash" where
  "sqlite3HashInsert malloc_elem malloc_ht pH k d =
    (let (elem, h) = findElementWithHash pH k
     in case elem of
       Some e \<Rightarrow>
         (case d of
            None \<Rightarrow> (Some (data e), removeElementGivenHash pH e h)
          | Some v \<Rightarrow> (Some (data e),
              pH\<lparr>first := map (\<lambda>x. if addr x = addr e then x\<lparr>data := v, pKey := k\<rparr> else x) (first pH)\<rparr>))
     | None \<Rightarrow>
         (case d of None \<Rightarrow> (None, pH)
          | Some v \<Rightarrow>
            (case malloc_elem of None \<Rightarrow> (Some v, pH)
             | Some a \<Rightarrow>
                 let new_elem = \<lparr>addr = a, data = v, pKey = k\<rparr>;
                     pH = pH\<lparr>count := count pH + 1\<rparr>;
                     (pH, h) = (if count pH \<ge> 10 \<and> count pH > 2 * htsize pH
                                then case rehash malloc_ht pH (count pH * 2) of
                                       (True, pH') \<Rightarrow> (pH', strHash k mod htsize pH')
                                     | (False, pH') \<Rightarrow> (pH', h)
                                else (pH, h))
                 in (None, insertElement pH (if ht pH = None then None else Some h) new_elem))))"

section \<open>Contiguous runs\<close>

fun run_rest :: "('a \<Rightarrow> bool) \<Rightarrow> 'a list \<Rightarrow> bool" where
  "run_rest P [] \<longleftrightarrow> True"
| "run_rest P (x # xs) \<longleftrightarrow> (if P x then run_rest P xs else \<not> list_ex P xs)"

fun contig :: "('a \<Rightarrow> bool) \<Rightarrow> 'a list \<Rightarrow> bool" where
  "contig P [] \<longleftrightarrow> True"
| "contig P (x # xs) \<longleftrightarrow> (if P x then run_rest P xs else contig P xs)"

lemma none_run_rest: "\<not> list_ex P xs \<Longrightarrow> run_rest P xs"
  by (cases xs) auto

lemma none_contig: "\<not> list_ex P xs \<Longrightarrow> contig P xs"
  by (induction xs) auto

lemma run_rest_insert:
  "run_rest P (xs @ y # ys) \<Longrightarrow> \<not> P y \<Longrightarrow> \<not> P z \<Longrightarrow> run_rest P (xs @ z # y # ys)"
  by (induction xs) (auto split: if_splits)

lemma contig_insert:
  "contig P (xs @ y # ys) \<Longrightarrow> \<not> P y \<Longrightarrow> \<not> P z \<Longrightarrow> contig P (xs @ z # y # ys)"
  by (induction xs) (auto split: if_splits simp: run_rest_insert)

lemma contig_extend:
  "contig P (xs @ y # ys) \<Longrightarrow> \<not> list_ex P xs \<Longrightarrow> P y \<Longrightarrow> P z \<Longrightarrow> contig P (xs @ z # y # ys)"
  by (induction xs) auto

lemma run_rest_remove: "run_rest P (xs @ y # ys) \<Longrightarrow> run_rest P (xs @ ys)"
  by (induction xs) (auto split: if_splits simp: none_run_rest)

lemma contig_remove: "contig P (xs @ y # ys) \<Longrightarrow> contig P (xs @ ys)"
proof (induction xs)
  case Nil
  then show ?case by (cases ys) (auto split: if_splits simp: none_contig)
qed (auto split: if_splits simp: run_rest_remove)

lemma run_rest_take: "run_rest P xs \<Longrightarrow> take (length (filter P xs)) xs = filter P xs"
  by (induction xs) (auto simp: list_ex_iff filter_empty_conv)

lemma contig_take:
  "contig P xs \<Longrightarrow> take (length (filter P xs)) (dropWhile (\<lambda>x. \<not> P x) xs) = filter P xs"
  by (induction xs) (auto simp: run_rest_take)

section \<open>The table invariant\<close>

definition bucket :: "nat \<Rightarrow> 'd HashElem \<Rightarrow> nat" where
  "bucket n e = strHash (pKey e) mod n"

definition run_of :: "nat \<Rightarrow> nat \<Rightarrow> 'd HashElem list \<Rightarrow> 'd HashElem list" where
  "run_of n h es = filter (\<lambda>e. bucket n e = h) es"

definition bucket_ok :: "nat \<Rightarrow> 'd HashElem list \<Rightarrow> nat \<Rightarrow> ht_entry \<Rightarrow> bool" where
  "bucket_ok n es h b \<longleftrightarrow>
     contig (\<lambda>e. bucket n e = h) es \<and> ht_count b = length (run_of n h es) \<and>
     (run_of n h es \<noteq> [] \<longrightarrow> chain b = Some (addr (hd (run_of n h es))))"

definition table_ok :: "nat \<Rightarrow> 'd HashElem list \<Rightarrow> ht_entry list \<Rightarrow> bool" where
  "table_ok n es t \<longleftrightarrow> 0 < n \<and> length t = n \<and> (\<forall>h<n. bucket_ok n es h (t ! h))"

definition hash_inv :: "'d Hash \<Rightarrow> bool" where
  "hash_inv H \<longleftrightarrow>
     distinct (map addr (first H)) \<and> distinct (map (\<lambda>e. fold_text (pKey e)) (first H)) \<and>
     count H = length (first H) \<and>
     (case ht H of None \<Rightarrow> htsize H = 0 | Some t \<Rightarrow> table_ok (htsize H) (first H) t)"

definition hash_abs :: "'d Hash \<Rightarrow> cstring \<Rightarrow> 'd option" where
  "hash_abs H k = map_option data (find (\<lambda>e. fold_text (pKey e) = k) (first H))"

section \<open>Lookup\<close>

lemma strHash_fold:
  "strHash_loop z h = fold (\<lambda>c h. (h + ucast c) * 0x9e3779b1) (fold_text z) h"
  by (induction z arbitrary: h) (auto simp: fold_text_def)

lemma strHash_cong: "fold_text a = fold_text b \<Longrightarrow> strHash a = strHash b"
  by (simp add: strHash_def strHash_fold)

lemma find_loop_take:
  "n \<le> length es \<Longrightarrow> find_loop n es k = find (\<lambda>e. fold_text (pKey e) = fold_text k) (take n es)"
  by (induction n es k rule: find_loop.induct) (auto simp: sqlite3StrICmp_0_iff)

lemma from_addr_run:
  assumes "distinct (map addr es)" and "run_of n h es \<noteq> []"
  shows "from_addr (Some (addr (hd (run_of n h es)))) es = dropWhile (\<lambda>e. bucket n e \<noteq> h) es"
  using assms
proof (induction es)
  case (Cons e es)
  show ?case
  proof (cases "bucket n e = h")
    case False
    with Cons.prems have ne: "run_of n h es \<noteq> []" by (simp add: run_of_def)
    then have "hd (run_of n h es) \<in> set es"
      by (metis hd_in_set filter_is_subset run_of_def subsetD)
    with Cons.prems have "addr e \<noteq> addr (hd (run_of n h es))" by auto
    with False Cons ne show ?thesis by (simp add: run_of_def from_addr_def)
  qed (simp add: run_of_def from_addr_def)
qed (simp add: run_of_def)

lemma find_filter_bucket:
  "find (\<lambda>e. fold_text (pKey e) = fold_text k) (run_of n (strHash k mod n) es) =
   find (\<lambda>e. fold_text (pKey e) = fold_text k) es"
  by (induction es) (auto simp: run_of_def bucket_def dest: strHash_cong)

lemma findElement_find:
  assumes "hash_inv H"
  shows "fst (findElementWithHash H k) = find (\<lambda>e. fold_text (pKey e) = fold_text k) (first H)"
proof (cases "ht H")
  case None
  with assms show ?thesis by (simp add: findElementWithHash_def hash_inv_def find_loop_take)
next
  case (Some t)
  let ?n = "htsize H" and ?es = "first H"
  let ?h = "strHash k mod ?n"
  let ?run = "run_of ?n ?h ?es"
  have t: "bucket_ok ?n ?es ?h (t ! ?h)" "distinct (map addr ?es)"
    using assms Some by (auto simp: hash_inv_def table_ok_def)
  have "find_loop (length ?run) (from_addr (chain (t ! ?h)) ?es) k =
      find (\<lambda>e. fold_text (pKey e) = fold_text k) ?run"
  proof (cases "?run = []")
    case True
    then show ?thesis by simp
  next
    case False
    then have start: "from_addr (chain (t ! ?h)) ?es = dropWhile (\<lambda>e. bucket ?n e \<noteq> ?h) ?es"
      using t from_addr_run by (metis bucket_ok_def)
    moreover have "take (length ?run) (dropWhile (\<lambda>e. bucket ?n e \<noteq> ?h) ?es) = ?run"
      using t(1) by (simp add: bucket_ok_def run_of_def contig_take)
    moreover have "length ?run \<le> length (dropWhile (\<lambda>e. bucket ?n e \<noteq> ?h) ?es)"
      using calculation(2) by (metis length_take min.cobounded1 min.commute)
    ultimately show ?thesis by (simp add: find_loop_take)
  qed
  then show ?thesis
    using t(1) Some by (simp add: findElementWithHash_def Let_def bucket_ok_def find_filter_bucket)
qed

section \<open>Insertion\<close>

lemma insert_before_split:
  "a \<notin> addr ` set xs \<Longrightarrow> addr y = a \<Longrightarrow> insert_before a new (xs @ y # ys) = xs @ new # y # ys"
  by (induction xs) auto

lemma run_of_split:
  assumes "run_of n h es \<noteq> []"
  obtains pre y post where "es = pre @ y # post" "\<not> list_ex (\<lambda>e. bucket n e = h) pre"
    "bucket n y = h" "run_of n h es = y # run_of n h post"
proof -
  from assms have "\<exists>x\<in>set es. bucket n x = h" by (auto simp: run_of_def filter_empty_conv)
  from split_list_first_prop [OF this] obtain pre y post
    where es: "es = pre @ y # post" "bucket n y = h" "\<forall>x\<in>set pre. bucket n x \<noteq> h"
    by blast
  then have "run_of n h es = y # run_of n h post" by (simp add: run_of_def filter_empty_conv)
  with es that show ?thesis by (auto simp: list_ex_iff)
qed

lemma run_of_append [simp]: "run_of n h (xs @ ys) = run_of n h xs @ run_of n h ys"
  by (simp add: run_of_def)

lemma run_of_Cons [simp]:
  "run_of n h (e # es) = (if bucket n e = h then e # run_of n h es else run_of n h es)"
  by (simp add: run_of_def)

lemma run_of_Nil_iff: "run_of n h es = [] \<longleftrightarrow> \<not> list_ex (\<lambda>e. bucket n e = h) es"
  by (auto simp: run_of_def filter_empty_conv list_ex_iff)

lemma bucket_less: "0 < n \<Longrightarrow> bucket n e < n"
  by (simp add: bucket_def)

text \<open>The list and the bucket after linking a new element, as \<open>insertElement\<close> computes them.\<close>

definition linked :: "ht_entry \<Rightarrow> 'd HashElem \<Rightarrow> 'd HashElem list \<Rightarrow> 'd HashElem list" where
  "linked b new es =
     (if ht_count b \<noteq> 0 then insert_before (the (chain b)) new es else new # es)"

lemma linked_empty: "bucket_ok n es h b \<Longrightarrow> run_of n h es = [] \<Longrightarrow> linked b new es = new # es"
  by (simp add: linked_def bucket_ok_def)

lemma linked_run:
  assumes "bucket_ok n (pre @ y # post) h b" and "distinct (map addr (pre @ y # post))"
    and "\<not> list_ex (\<lambda>e. bucket n e = h) pre" and "bucket n y = h"
  shows "linked b new (pre @ y # post) = pre @ new # y # post"
proof -
  have "run_of n h (pre @ y # post) = y # run_of n h post"
    using assms(3,4) by (simp add: run_of_Nil_iff [THEN iffD2])
  then have "chain b = Some (addr y)" "ht_count b \<noteq> 0" using assms(1) by (auto simp: bucket_ok_def)
  moreover have "addr y \<notin> addr ` set pre" using assms(2) by auto
  ultimately show ?thesis by (simp add: linked_def insert_before_split)
qed

lemma bucket_ok_linked_same:
  assumes "bucket_ok n es h b" and "distinct (map addr es)" and "bucket n new = h"
  shows "bucket_ok n (linked b new es) h \<lparr>ht_count = ht_count b + 1, chain = Some (addr new)\<rparr>"
proof (cases "run_of n h es = []")
  case True
  with assms(1) have "linked b new es = new # es" by (rule linked_empty)
  then show ?thesis
    using True assms by (simp add: bucket_ok_def run_of_Nil_iff none_run_rest)
next
  case False
  then obtain pre y post where es: "es = pre @ y # post" "\<not> list_ex (\<lambda>e. bucket n e = h) pre"
    "bucket n y = h" by (rule run_of_split)
  then have "linked b new es = pre @ new # y # post" using assms linked_run by metis
  moreover have "contig (\<lambda>e. bucket n e = h) (pre @ new # y # post)"
    using assms es by (intro contig_extend) (auto simp: bucket_ok_def)
  moreover have "run_of n h pre = []" using es by (simp add: run_of_Nil_iff)
  ultimately show ?thesis using assms es by (simp add: bucket_ok_def)
qed

lemma bucket_ok_linked_other:
  assumes "bucket_ok n es h b" and "distinct (map addr es)" and "bucket n new = h"
    and "bucket_ok n es k c" and "k \<noteq> h"
  shows "bucket_ok n (linked b new es) k c"
proof (cases "run_of n h es = []")
  case True
  then show ?thesis using assms by (simp add: linked_empty) (auto simp: bucket_ok_def)
next
  case False
  then obtain pre y post where es: "es = pre @ y # post" "\<not> list_ex (\<lambda>e. bucket n e = h) pre"
    "bucket n y = h" by (rule run_of_split)
  then have "linked b new es = pre @ new # y # post" using assms linked_run by metis
  moreover have "contig (\<lambda>e. bucket n e = k) (pre @ new # y # post)"
    using assms es by (intro contig_insert) (auto simp: bucket_ok_def)
  ultimately show ?thesis using assms es by (simp add: bucket_ok_def)
qed

lemma mset_insert_before [simp]: "mset (insert_before a new es) = add_mset new (mset es)"
  by (induction es) auto

lemma mset_linked [simp]: "mset (linked b new es) = add_mset new (mset es)"
  by (simp add: linked_def)

lemma table_ok_linked:
  assumes "table_ok n es t" and "distinct (map addr es)" and "bucket n new = h"
  shows "table_ok n (linked (t ! h) new es)
    (t[h := \<lparr>ht_count = ht_count (t ! h) + 1, chain = Some (addr new)\<rparr>])"
proof -
  have "h < n" "length t = n" using assms bucket_less by (auto simp: table_ok_def)
  moreover have "bucket_ok n (linked (t ! h) new es) k
      (t[h := \<lparr>ht_count = ht_count (t ! h) + 1, chain = Some (addr new)\<rparr>] ! k)" if "k < n" for k
  proof (cases "k = h")
    case True
    then show ?thesis using assms that \<open>length t = n\<close> bucket_ok_linked_same [of n es h "t ! h" new]
      by (simp add: table_ok_def)
  next
    case False
    then show ?thesis
      using assms that \<open>h < n\<close> bucket_ok_linked_other [of n es h "t ! h" new k "t ! k"]
      by (simp add: table_ok_def)
  qed
  ultimately show ?thesis by (simp add: table_ok_def)
qed

lemma insertElement_bucket:
  assumes "ht pH = Some t" and "table_ok (htsize pH) (first pH) t" and "h < htsize pH"
  shows "insertElement pH (Some h) new =
    pH\<lparr>ht := Some (t[h := \<lparr>ht_count = ht_count (t ! h) + 1, chain = Some (addr new)\<rparr>]),
       first := linked (t ! h) new (first pH)\<rparr>"
proof -
  have "ht_count (t ! h) \<noteq> 0 \<Longrightarrow> \<exists>a. chain (t ! h) = Some a"
    using assms by (auto simp: table_ok_def bucket_ok_def)
  then show ?thesis using assms(1)
    by (auto simp: insertElement_def linked_def Let_def)
qed

lemma insertElement_list: "ht pH = None \<Longrightarrow> insertElement pH None new = pH\<lparr>first := new # first pH\<rparr>"
  by (simp add: insertElement_def)

lemma table_ok_empty: "0 < n \<Longrightarrow> table_ok n [] (replicate n \<lparr>ht_count = 0, chain = None\<rparr>)"
  by (simp add: table_ok_def bucket_ok_def run_of_def)

lemma rehash_loop_ok:
  assumes "ht pH = Some t" and "table_ok (htsize pH) (first pH) t"
    and "distinct (map addr (first pH @ es))"
  shows "\<exists>t'. ht (rehash_loop pH (htsize pH) es) = Some t' \<and>
      htsize (rehash_loop pH (htsize pH) es) = htsize pH \<and>
      count (rehash_loop pH (htsize pH) es) = count pH \<and>
      table_ok (htsize pH) (first (rehash_loop pH (htsize pH) es)) t' \<and>
      mset (first (rehash_loop pH (htsize pH) es)) = mset (first pH) + mset es"
  using assms
proof (induction es arbitrary: pH t)
  case (Cons e es)
  let ?n = "htsize pH"
  let ?h = "bucket ?n e"
  have "?h < ?n" using Cons.prems by (simp add: table_ok_def bucket_less)
  define pH' where "pH' = pH\<lparr>ht := Some (t[?h := \<lparr>ht_count = ht_count (t ! ?h) + 1,
      chain = Some (addr e)\<rparr>]), first := linked (t ! ?h) e (first pH)\<rparr>"
  have step: "insertElement pH (Some ?h) e = pH'"
    using Cons.prems \<open>?h < ?n\<close> by (simp add: pH'_def insertElement_bucket)
  have "table_ok ?n (first pH') (the (ht pH'))"
    using Cons.prems table_ok_linked [of ?n "first pH" t e ?h] by (simp add: pH'_def)
  moreover have "mset (map addr (first pH' @ es)) = mset (map addr (first pH @ e # es))"
    by (simp add: pH'_def)
  then have "distinct (map addr (first pH' @ es))"
    using Cons.prems(3) by (metis mset_eq_imp_distinct_iff)
  ultimately show ?case
    using Cons.IH [of pH' "the (ht pH')"] step by (simp add: pH'_def bucket_def)
qed auto

definition malloc_ok :: "(nat \<Rightarrow> nat option) \<Rightarrow> bool" where
  "malloc_ok malloc_ht \<longleftrightarrow> (\<forall>n m. malloc_ht n = Some m \<longrightarrow> n \<le> m)"

lemma rehash_inv:
  assumes "malloc_ok malloc_ht" and "0 < new_size" and "distinct (map addr (first pH))"
    and "rehash malloc_ht pH new_size = (True, pH')"
  shows "\<exists>t. ht pH' = Some t \<and> table_ok (htsize pH') (first pH') t \<and>
    mset (first pH') = mset (first pH) \<and> count pH' = count pH"
proof -
  define sz where "sz = (if new_size * sizeof_ht > SQLITE_MALLOC_SOFT_LIMIT
                     then SQLITE_MALLOC_SOFT_LIMIT div sizeof_ht else new_size)"
  have "0 < sz" using assms(2) by (simp add: sz_def sizeof_ht_def SQLITE_MALLOC_SOFT_LIMIT_def)
  from assms(4) obtain n where n: "malloc_ht sz = Some n" and
    pH': "pH' = rehash_loop (pH\<lparr>ht := Some (replicate n \<lparr>ht_count = 0, chain = None\<rparr>),
                                    htsize := n, first := []\<rparr>) n (first pH)"
    by (auto simp: rehash_def Let_def simp flip: sz_def split: if_splits option.splits)
  have "0 < n" using \<open>0 < sz\<close> n assms(1) by (metis malloc_ok_def less_le_trans)
  define p where "p = pH\<lparr>ht := Some (replicate n \<lparr>ht_count = 0, chain = None\<rparr>),
      htsize := n, first := []\<rparr>"
  then have p: "ht p = Some (replicate n \<lparr>ht_count = 0, chain = None\<rparr>)" "htsize p = n"
    "first p = []" "Hash.count p = Hash.count pH" "pH' = rehash_loop p n (first pH)"
    by (simp_all add: pH')
  show ?thesis
    using rehash_loop_ok [of p "replicate n \<lparr>ht_count = 0, chain = None\<rparr>" "first pH"]
      \<open>0 < n\<close> assms(3) by (simp add: p table_ok_empty) metis
qed

lemma rehash_False: "rehash malloc_ht pH new_size = (False, pH') \<Longrightarrow> pH' = pH"
  by (auto simp: rehash_def Let_def split: if_splits option.splits)

section \<open>Abstraction\<close>

definition entries :: "'d HashElem list \<Rightarrow> (cstring \<times> 'd) list" where
  "entries es = map (\<lambda>e. (fold_text (pKey e), data e)) es"

lemma hash_abs_map_of: "hash_abs H = map_of (entries (first H))"
proof
  fix k
  have "map_option data (find (\<lambda>e. fold_text (pKey e) = k) es) = map_of (entries es) k"
    for es :: "'a HashElem list" by (induction es) (auto simp: entries_def)
  then show "hash_abs H k = map_of (entries (first H)) k" by (simp add: hash_abs_def)
qed

lemma fst_entries: "map fst (entries es) = map (\<lambda>e. fold_text (pKey e)) es"
  by (simp add: entries_def)

lemma map_of_entries_mset:
  assumes "mset es = mset fs" and "distinct (map (\<lambda>e. fold_text (pKey e)) es)"
  shows "map_of (entries es) = map_of (entries fs)"
proof -
  have "distinct (map (\<lambda>e. fold_text (pKey e)) fs)"
    using assms by (metis mset_eq_imp_distinct_iff mset_map)
  moreover have "set (entries es) = set (entries fs)"
    using assms(1) by (metis entries_def image_set mset_eq_setD)
  ultimately show ?thesis
    using assms(2) by (simp add: map_of_inject_set fst_entries)
qed

lemma hash_inv_find:
  assumes "hash_inv H"
  shows "sqlite3HashFind H k = hash_abs H (fold_text k)"
  using assms by (simp add: sqlite3HashFind_def findElement_find hash_abs_def)

section \<open>Insertion and removal preserve the invariant\<close>

lemma hash_inv_init: "hash_inv sqlite3HashInit"
  by (simp add: hash_inv_def sqlite3HashInit_def)

lemma hash_abs_init: "hash_abs sqlite3HashInit = (\<lambda>_. None)"
  by (simp add: fun_eq_iff hash_abs_def sqlite3HashInit_def)

lemma hash_inv_clear: "hash_inv (sqlite3HashClear H)"
  by (simp add: hash_inv_def sqlite3HashClear_def)

text \<open>Replacing data and key of one element keeps every bucket, since the folded key stays.\<close>

lemma bucket_ok_map:
  assumes "\<And>e. addr (f e) = addr e" and "\<And>e. e \<in> set es \<Longrightarrow> fold_text (pKey (f e)) = fold_text (pKey e)"
  shows "bucket_ok n (map f es) h b \<longleftrightarrow> bucket_ok n es h b"
proof -
  have bk: "e \<in> set es \<Longrightarrow> bucket n (f e) = bucket n e" for e
    by (simp add: bucket_def strHash_cong [OF assms(2)])
  have "run_of n h (map f es) = map f (run_of n h es)"
    using bk by (auto simp: run_of_def filter_map comp_def cong: filter_cong)
  moreover have "run_rest (\<lambda>e. bucket n e = h) (map f xs) = run_rest (\<lambda>e. bucket n e = h) xs"
    if "set xs \<subseteq> set es" for xs using that bk
    by (induction xs) (auto simp: list_ex_iff subset_iff)
  then have "contig (\<lambda>e. bucket n e = h) (map f xs) = contig (\<lambda>e. bucket n e = h) xs"
    if "set xs \<subseteq> set es" for xs using that bk by (induction xs) auto
  ultimately show ?thesis by (auto simp: bucket_ok_def assms(1) hd_map)
qed

lemma distinct_addr_split:
  assumes "distinct (map addr (pre @ e # post))" "x \<in> set pre \<union> set post"
  shows "addr x \<noteq> addr e"
proof -
  have "addr x \<in> addr ` (set pre \<union> set post)" using assms(2) by (rule imageI)
  moreover have "addr e \<notin> addr ` (set pre \<union> set post)" using assms(1) by (simp add: image_Un)
  ultimately show ?thesis by metis
qed

lemma filter_addr_split:
  assumes "distinct (map addr (pre @ e # post))"
  shows "filter (\<lambda>x. addr x \<noteq> addr e) (pre @ e # post) = pre @ post"
  using distinct_addr_split [OF assms] by (simp add: filter_id_conv)

lemma next_of_split:
  assumes "distinct (map addr (pre @ e # post))"
  shows "next_of (addr e) (pre @ e # post) = (case post of [] \<Rightarrow> None | y # _ \<Rightarrow> Some (addr y))"
proof -
  have "dropWhile (\<lambda>x. addr x \<noteq> addr e) (pre @ e # post) = e # post"
    using distinct_addr_split [OF assms] by (subst dropWhile_append2) auto
  then show ?thesis by (auto simp: next_of_def split: list.splits)
qed

lemma bucket_ok_remove_same:
  assumes "bucket_ok n (pre @ e # post) h b" and "distinct (map addr (pre @ e # post))"
    and "bucket n e = h"
  shows "bucket_ok n (pre @ post) h \<lparr>ht_count = ht_count b - 1,
    chain = (if chain b = Some (addr e) then next_of (addr e) (pre @ e # post) else chain b)\<rparr>"
proof -
  have b: "contig (\<lambda>x. bucket n x = h) (pre @ e # post)"
    "ht_count b = length (run_of n h pre) + Suc (length (run_of n h post))"
    "chain b = Some (addr (hd (run_of n h pre @ e # run_of n h post)))"
    using assms by (auto simp: bucket_ok_def)
  have c: "contig (\<lambda>x. bucket n x = h) (pre @ post)" using b(1) by (rule contig_remove)
  show ?thesis
  proof (cases "run_of n h pre = []")
    case True
    then have none: "\<not> list_ex (\<lambda>x. bucket n x = h) pre" by (simp add: run_of_Nil_iff)
    have "contig (\<lambda>x. bucket n x = h) (e # post)"
      using b(1) none by (induction pre) (auto split: if_splits)
    then have "run_rest (\<lambda>x. bucket n x = h) post" using assms(3) by simp
    then have "run_of n h post \<noteq> [] \<Longrightarrow> next_of (addr e) (pre @ e # post) = Some (addr (hd (run_of n h post)))"
      using assms(2) by (cases post) (auto simp: next_of_split run_of_Nil_iff split: if_splits)
    with True b c show ?thesis by (simp add: bucket_ok_def)
  next
    case False
    then have "hd (run_of n h pre) \<in> set pre"
      by (metis hd_in_set filter_is_subset run_of_def subsetD)
    with distinct_addr_split [OF assms(2)] have "addr (hd (run_of n h pre)) \<noteq> addr e" by blast
    with False b c show ?thesis by (simp add: bucket_ok_def)
  qed
qed

lemma bucket_ok_remove_other:
  assumes "bucket_ok n (pre @ e # post) k b" and "bucket n e \<noteq> k"
  shows "bucket_ok n (pre @ post) k b"
  using assms contig_remove [of _ pre e post] by (auto simp: bucket_ok_def)

lemma find_Some_split:
  assumes "find P es = Some e"
  obtains pre post where "es = pre @ e # post" and "P e"
proof -
  obtain i where i: "i < length es" "P (es ! i)" "e = es ! i"
    using assms by (auto simp: find_Some_iff)
  then have "es = take i es @ e # drop (Suc i) es" by (simp add: id_take_nth_drop)
  then show thesis using that i by metis
qed

lemma table_ok_remove:
  assumes "table_ok n (pre @ e # post) t" and "distinct (map addr (pre @ e # post))"
    and "bucket n e = h"
  shows "table_ok n (pre @ post) (t[h := \<lparr>ht_count = ht_count (t ! h) - 1,
    chain = (if chain (t ! h) = Some (addr e) then next_of (addr e) (pre @ e # post)
             else chain (t ! h))\<rparr>])"
  using assms bucket_less [of n e]
    bucket_ok_remove_same [of n pre e post h "t ! h"] bucket_ok_remove_other [of n pre e post]
  by (auto simp: table_ok_def nth_list_update next_of_split)

lemma find_entry:
  assumes "hash_inv H" and "fst (findElementWithHash H k) = Some e"
  obtains pre post where "first H = pre @ e # post" and "fold_text (pKey e) = fold_text k"
proof -
  have "find (\<lambda>e. fold_text (pKey e) = fold_text k) (first H) = Some e"
    using assms by (simp add: findElement_find)
  then show thesis using that by (rule find_Some_split)
qed

lemma find_bucket: "ht H = Some t \<Longrightarrow> snd (findElementWithHash H k) = strHash k mod htsize H"
  by (simp add: findElementWithHash_def Let_def)

lemma map_of_remove:
  "k \<notin> fst ` set (xs @ ys) \<Longrightarrow> map_of (xs @ ys) = (map_of (xs @ (k, v) # ys))(k := None)"
  by (induction xs) (auto simp: fun_eq_iff map_of_eq_None_iff)

lemma removeElement_ok:
  assumes inv: "hash_inv H" and e: "findElementWithHash H k = (Some e, h)"
  shows "hash_inv (removeElementGivenHash H e h) \<and>
    hash_abs (removeElementGivenHash H e h) = (hash_abs H)(fold_text k := None)"
proof -
  obtain pre post where es: "first H = pre @ e # post" and k: "fold_text (pKey e) = fold_text k"
    using find_entry [OF inv, of k e] e by auto
  have d: "distinct (map addr (pre @ e # post))"
    "distinct (map (\<lambda>e. fold_text (pKey e)) (pre @ e # post))" "Hash.count H = length (pre @ e # post)"
    using inv by (auto simp: hash_inv_def es)
  have "fold_text k \<notin> fst ` set (entries (pre @ post))"
    using d(2) by (simp add: entries_def image_image image_Un flip: k)
  then have abs: "map_of (entries (pre @ post)) = (map_of (entries (pre @ e # post)))(fold_text k := None)"
    using map_of_remove [of "fold_text k" "entries pre" "entries post" "data e"] k
    by (simp add: entries_def)
  have fil: "filter (\<lambda>x. addr x \<noteq> addr e) (first H) = pre @ post"
    using filter_addr_split [OF d(1)] by (simp add: es)
  show ?thesis
  proof (cases "pre @ post = []")
    case True
    then have "removeElementGivenHash H e h = sqlite3HashClear H"
      using d(3) by (auto simp: removeElementGivenHash_def Let_def sqlite3HashClear_def split: option.splits)
    then show ?thesis using abs True
      by (simp add: hash_inv_clear hash_abs_map_of es) (simp add: sqlite3HashClear_def entries_def)
  next
    case False
    have bk: "ht H = Some t \<Longrightarrow> bucket (htsize H) e = h" for t
      using find_bucket [of H t k] e strHash_cong [OF k] by (simp add: bucket_def)
    have cnt: "Hash.count H - 1 \<noteq> 0" using d(3) False by simp
    have "first (removeElementGivenHash H e h) = pre @ post"
      using cnt by (simp add: removeElementGivenHash_def Let_def fil split: option.split)
    moreover have "hash_inv (removeElementGivenHash H e h)"
    proof (cases "ht H")
      case None
      then show ?thesis using inv d cnt
        by (simp add: removeElementGivenHash_def Let_def fil hash_inv_def) (simp add: es)
    next
      case (Some t)
      then have "table_ok (htsize H) (pre @ e # post) t" using inv by (simp add: hash_inv_def es)
      note tab = table_ok_remove [OF this d(1) bk [OF Some]]
      have "removeElementGivenHash H e h = H\<lparr>first := pre @ post, ht := Some (t[h :=
          \<lparr>ht_count = ht_count (t ! h) - 1, chain = (if chain (t ! h) = Some (addr e)
            then next_of (addr e) (pre @ e # post) else chain (t ! h))\<rparr>]), count := Hash.count H - 1\<rparr>"
        using cnt Some by (simp add: removeElementGivenHash_def Let_def fil) (simp add: es)
      then show ?thesis using tab d by (simp add: hash_inv_def)
    qed
    ultimately show ?thesis using abs by (simp add: hash_abs_map_of es)
  qed
qed

lemma map_of_replace:
  "k \<notin> fst ` set xs \<Longrightarrow> map_of (xs @ (k, v) # ys) = (map_of (xs @ (k, w) # ys))(k \<mapsto> v)"
  by (induction xs) (auto simp: fun_eq_iff)

lemma hash_inv_update:
  fixes v :: 'd and H :: "'d Hash"
  assumes inv: "hash_inv H" and e: "findElementWithHash H k = (Some e, h)"
  defines "f \<equiv> \<lambda>x. if addr x = addr e then x\<lparr>data := v, pKey := k\<rparr> else x"
  shows "hash_inv (H\<lparr>first := map f (first H)\<rparr>) \<and>
    hash_abs (H\<lparr>first := map f (first H)\<rparr>) = (hash_abs H)(fold_text k \<mapsto> v)"
proof -
  obtain pre post where es: "first H = pre @ e # post" and k: "fold_text (pKey e) = fold_text k"
    using find_entry [OF inv, of k e] e by auto
  have d: "distinct (map addr (pre @ e # post))"
    "distinct (map (\<lambda>e. fold_text (pKey e)) (pre @ e # post))"
    using inv by (auto simp: hash_inv_def es)
  have same: "map f xs = xs" if "set xs \<subseteq> set pre \<union> set post" for xs
    using that distinct_addr_split [OF d(1)] by (auto simp: f_def subset_iff intro!: map_idI)
  then have upd: "map f (first H) = pre @ e\<lparr>data := v, pKey := k\<rparr> # post"
    by (simp add: es) (simp add: f_def)
  have keep: "fold_text (pKey (f x)) = fold_text (pKey x)" if "x \<in> set (first H)" for x
    using that distinct_addr_split [OF d(1), of x] k by (auto simp: f_def es)
  have fa: "addr (f x) = addr x" for x by (simp add: f_def)
  define es' where "es' = map f (first H)"
  have "table_ok n es' t = table_ok n (first H) t" for n t
    using bucket_ok_map [of f "first H", OF fa keep] by (simp add: table_ok_def es'_def)
  moreover have "map (\<lambda>e. fold_text (pKey e)) es' = map (\<lambda>e. fold_text (pKey e)) (first H)"
    using keep by (simp add: es'_def)
  moreover have "map addr es' = map addr (first H)" "length es' = length (first H)"
    using fa by (simp_all add: es'_def)
  ultimately have "hash_inv (H\<lparr>first := map f (first H)\<rparr>)"
    using inv by (cases "ht H") (simp_all add: hash_inv_def flip: es'_def)
  moreover have "fold_text k \<notin> fst ` set (entries pre)"
    using d(2) by (simp add: entries_def image_image flip: k)
  then have "map_of (entries (pre @ e\<lparr>data := v, pKey := k\<rparr> # post)) =
      (map_of (entries (pre @ e # post)))(fold_text k \<mapsto> v)"
    using map_of_replace [of "fold_text k" "entries pre" v "entries post" "data e"] k
    by (simp add: entries_def)
  ultimately show ?thesis by (simp add: hash_abs_map_of upd) (simp add: es)
qed

lemma insertElement_ok:
  assumes "distinct (map addr (first H))" and "distinct (map (\<lambda>e. fold_text (pKey e)) (first H))"
    and "Hash.count H = Suc (length (first H))"
    and "case ht H of None \<Rightarrow> htsize H = 0 | Some t \<Rightarrow> table_ok (htsize H) (first H) t"
    and "addr new \<notin> addr ` set (first H)" and "hash_abs H (fold_text (pKey new)) = None"
    and "ht H \<noteq> None \<Longrightarrow> h = bucket (htsize H) new"
  shows "hash_inv (insertElement H (if ht H = None then None else Some h) new) \<and>
    hash_abs (insertElement H (if ht H = None then None else Some h) new) =
      (hash_abs H)(fold_text (pKey new) \<mapsto> data new)"
proof -
  let ?H = "insertElement H (if ht H = None then None else Some h) new"
  have key: "fold_text (pKey new) \<notin> (\<lambda>e. fold_text (pKey e)) ` set (first H)"
    using assms(6) by (simp add: hash_abs_map_of map_of_eq_None_iff entries_def image_image)
  have insert_facts: "mset (first ?H) = add_mset new (mset (first H)) \<and> Hash.count ?H = Hash.count H \<and>
    (case ht ?H of None \<Rightarrow> htsize ?H = 0 | Some t \<Rightarrow> table_ok (htsize ?H) (first ?H) t)"
  proof (cases "ht H")
    case None
    then show ?thesis using assms(4) by (simp add: insertElement_list)
  next
    case (Some t)
    then have t: "table_ok (htsize H) (first H) t" "h = bucket (htsize H) new" "h < htsize H"
      using assms(4,7) bucket_less by (auto simp: table_ok_def)
    then show ?thesis using Some table_ok_linked [OF t(1) assms(1) t(2) [symmetric]]
      by (simp add: insertElement_bucket)
  qed
  have m: "mset (first ?H) = add_mset new (mset (first H))" and c: "Hash.count ?H = Hash.count H"
    and tab: "case ht ?H of None \<Rightarrow> htsize ?H = 0 | Some t \<Rightarrow> table_ok (htsize ?H) (first ?H) t"
    using insert_facts by auto
  have mm: "mset (first ?H) = mset (new # first H)" using m by simp
  have d: "distinct (map addr (first ?H))" "distinct (map (\<lambda>e. fold_text (pKey e)) (first ?H))"
    using mset_eq_imp_distinct_iff [of "map addr (first ?H)" "map addr (new # first H)"]
      mset_eq_imp_distinct_iff [of "map (\<lambda>e. fold_text (pKey e)) (first ?H)"
        "map (\<lambda>e. fold_text (pKey e)) (new # first H)"] mm assms(1,2,5) key by simp_all
  have "length (first ?H) = Hash.count ?H"
    using arg_cong [OF mm, of size] c assms(3) by simp
  then have "hash_inv ?H" using d tab by (simp add: hash_inv_def)
  moreover have "map_of (entries (first ?H)) = map_of (entries (new # first H))"
    using mm d(2) by (rule map_of_entries_mset)
  ultimately show ?thesis by (simp add: hash_abs_map_of) (simp add: entries_def)
qed

definition malloc_elem_ok :: "nat option \<Rightarrow> 'd Hash \<Rightarrow> bool" where
  "malloc_elem_ok m H \<longleftrightarrow> (\<forall>a. m = Some a \<longrightarrow> a \<notin> addr ` set (first H))"

lemma hash_insert_new:
  assumes inv: "hash_inv H" and "malloc_ok malloc_ht" and "a \<notin> addr ` set (first H)"
    and none: "findElementWithHash H k = (None, h)"
    and ins: "sqlite3HashInsert (Some a) malloc_ht H k (Some v) = (r, H')"
  shows "hash_inv H' \<and> r = None \<and> hash_abs H' = (hash_abs H)(fold_text k \<mapsto> v)"
proof -
  define new where "new = \<lparr>addr = a, data = v, pKey = k\<rparr>"
  define H1 where "H1 = H\<lparr>count := Hash.count H + 1\<rparr>"
  have H1: "first H1 = first H" "ht H1 = ht H" "htsize H1 = htsize H"
    "Hash.count H1 = Suc (Hash.count H)" by (simp_all add: H1_def)
  obtain H2 h2 where H2: "(if Hash.count H1 \<ge> 10 \<and> Hash.count H1 > 2 * htsize H1
      then case rehash malloc_ht H1 (Hash.count H1 * 2) of
             (True, pH') \<Rightarrow> (pH', strHash k mod htsize pH') | (False, pH') \<Rightarrow> (pH', h)
      else (H1, h)) = (H2, h2)" by fastforce
  have H': "H' = insertElement H2 (if ht H2 = None then None else Some h2) new" "r = None"
    using ins unfolding sqlite3HashInsert_def none Let_def prod.case option.case
      H1_def [symmetric] H2 new_def [symmetric] by simp_all
  have inv1: "distinct (map addr (first H))" "distinct (map (\<lambda>e. fold_text (pKey e)) (first H))"
    "Hash.count H = length (first H)"
    "case ht H of None \<Rightarrow> htsize H = 0 | Some t \<Rightarrow> table_ok (htsize H) (first H) t"
    using inv by (auto simp: hash_inv_def)
  have keep: "mset (first H2) = mset (first H) \<and> Hash.count H2 = Suc (Hash.count H) \<and>
     (case ht H2 of None \<Rightarrow> htsize H2 = 0 | Some t \<Rightarrow> table_ok (htsize H2) (first H2) t) \<and>
     (ht H2 \<noteq> None \<longrightarrow> h2 = bucket (htsize H2) new)"
  proof (cases "H2 = H1 \<and> h2 = h")
    case True
    have "ht H \<noteq> None \<Longrightarrow> h = bucket (htsize H) new"
      using find_bucket [of H _ k] none by (auto simp: bucket_def new_def)
    then show ?thesis using True H1 inv1 by (cases "ht H") simp_all
  next
    case False
    obtain b X where X: "rehash malloc_ht H1 (Hash.count H1 * 2) = (b, X)" by fastforce
    have "H2 = X \<and> h2 = (if b then strHash k mod htsize X else h)"
      using False H2 unfolding X prod.case by (cases b) (auto split: if_split_asm)
    then have b: "rehash malloc_ht H1 (Hash.count H1 * 2) = (b, H2)"
      "b \<Longrightarrow> h2 = strHash k mod htsize H2" "\<not> b \<Longrightarrow> h2 = h" using X by simp_all
    have "b" using False b(3) rehash_False [of malloc_ht H1 "Hash.count H1 * 2" H2] b(1) by (cases b) auto
    have "0 < Hash.count H1 * 2" "distinct (map addr (first H1))" using H1 inv1(1) by simp_all
    from rehash_inv [OF assms(2) this, of H2] b(1) \<open>b\<close> obtain t where "ht H2 = Some t"
      "table_ok (htsize H2) (first H2) t" "mset (first H2) = mset (first H1)" "Hash.count H2 = Hash.count H1"
      by auto
    then show ?thesis using H1 b(2) \<open>b\<close> by (simp add: bucket_def new_def)
  qed
  have d: "distinct (map addr (first H2))" "distinct (map (\<lambda>e. fold_text (pKey e)) (first H2))"
    using inv1 keep by (metis mset_eq_imp_distinct_iff mset_map)+
  have len: "length (first H2) = length (first H)" and st: "set (first H2) = set (first H)"
    using mset_eq_length mset_eq_setD keep by blast+
  have abs: "hash_abs H2 = hash_abs H"
    using keep d(2) by (simp add: hash_abs_map_of map_of_entries_mset)
  have "hash_abs H (fold_text k) = None"
    using findElement_find [OF inv, of k] none by (simp add: hash_abs_def)
  then show ?thesis
    using insertElement_ok [of H2 new h2] d keep len st abs assms(3) inv1(3) H'
    by (simp add: new_def)
qed

lemma hash_insert_cases:
  "findElementWithHash H k = (Some e, h) \<Longrightarrow> sqlite3HashInsert m malloc_ht H k None =
     (Some (data e), removeElementGivenHash H e h)"
  "findElementWithHash H k = (Some e, h) \<Longrightarrow> sqlite3HashInsert m malloc_ht H k (Some v) =
     (Some (data e), H\<lparr>first := map (\<lambda>x. if addr x = addr e then x\<lparr>data := v, pKey := k\<rparr> else x) (first H)\<rparr>)"
  "findElementWithHash H k = (None, h) \<Longrightarrow> sqlite3HashInsert m malloc_ht H k None = (None, H)"
  "findElementWithHash H k = (None, h) \<Longrightarrow> sqlite3HashInsert None malloc_ht H k (Some v) = (Some v, H)"
  by (simp_all only: sqlite3HashInsert_def Let_def prod.case option.case)

lemma hash_insert_find:
  assumes inv: "hash_inv H" and "malloc_ok malloc_ht" and "malloc_elem_ok m H"
    and ins: "sqlite3HashInsert m malloc_ht H k d = (r, H')"
  shows "hash_inv H' \<and>
    (if m = None \<and> d \<noteq> None \<and> hash_abs H (fold_text k) = None then H' = H \<and> r = d
     else r = hash_abs H (fold_text k) \<and> hash_abs H' = (hash_abs H)(fold_text k := d))"
proof -
  obtain elem h where f: "findElementWithHash H k = (elem, h)" by fastforce
  then have look: "hash_abs H (fold_text k) = map_option data elem"
    using findElement_find [OF inv, of k] by (simp add: hash_abs_def)
  consider (del) e where "elem = Some e" "d = None" | (upd) e v where "elem = Some e" "d = Some v"
    | (noop) "elem = None" "d = None" | (oom) v where "elem = None" "d = Some v" "m = None"
    | (new) v a where "elem = None" "d = Some v" "m = Some a"
    by (cases elem; cases d; cases m) auto
  then show ?thesis
  proof cases
    case del
    then show ?thesis using ins look removeElement_ok [OF inv, of k e h] f by (simp add: hash_insert_cases)
  next
    case upd
    then show ?thesis using ins look hash_inv_update [OF inv, of k e h v] f
      by (auto simp: hash_insert_cases)
  next
    case noop
    then have "(hash_abs H)(fold_text k := d) = hash_abs H" using look by (simp add: fun_upd_idem)
    then show ?thesis using noop ins look inv f by (simp add: hash_insert_cases)
  next
    case oom
    then show ?thesis using ins look inv f by (auto simp: hash_insert_cases)
  next
    case new
    then show ?thesis using hash_insert_new [OF inv assms(2), of a k h v r H'] f ins assms(3) look
      by (simp add: malloc_elem_ok_def)
  qed
qed

section \<open>The table as a map\<close>

text \<open>A store step with an allocator that succeeds: the address of the new element and the size
  class of the bucket array are inputs.\<close>

definition hash_put ::
  "nat \<times> (nat \<Rightarrow> nat option) \<Rightarrow> 'd Hash \<Rightarrow> cstring \<Rightarrow> 'd option \<Rightarrow> 'd Hash" where
  "hash_put m H k d = snd (sqlite3HashInsert (Some (fst m)) (snd m) H k d)"

definition hash_fits :: "nat \<times> (nat \<Rightarrow> nat option) \<Rightarrow> 'd Hash \<Rightarrow> cstring \<Rightarrow> bool" where
  "hash_fits m H k \<longleftrightarrow> malloc_elem_ok (Some (fst m)) H \<and> malloc_ok (snd m)"

interpretation hash_store: map_store hash_inv hash_abs sqlite3HashFind fold_text hash_put hash_fits
proof
  fix H :: "'a Hash" and k
  show "hash_inv H \<Longrightarrow> sqlite3HashFind H k = hash_abs H (fold_text k)" by (rule hash_inv_find)
next
  fix H :: "'a Hash" and m k d
  assume "hash_inv H" and "hash_fits m H k"
  then show "hash_inv (hash_put m H k d) \<and> hash_abs (hash_put m H k d) = (hash_abs H)(fold_text k := d)"
    using hash_insert_find [of H "snd m" "Some (fst m)" k d] unfolding hash_put_def hash_fits_def
    by (cases "sqlite3HashInsert (Some (fst m)) (snd m) H k d") simp
qed

text \<open>
  C18. Every insertion, replacement and deletion by \<open>sqlite3HashInsert\<close> keeps the table invariant
  (the list without duplicate keys, the element count, and every bucket naming a contiguous run
  of its elements, also across a resize), returns the previous data of the key, and changes the
  table, read as a map from case-folded keys, at this key only. When the element cannot be
  allocated, the table is unchanged and the new data is returned.
\<close>

theorem sqlite3HashInsert_correct:
  assumes "hash_inv H" and "malloc_ok malloc_ht" and "malloc_elem_ok malloc_elem H"
    and "sqlite3HashInsert malloc_elem malloc_ht H k d = (r, H')"
  shows "hash_inv H' \<and>
    (if malloc_elem = None \<and> d \<noteq> None \<and> sqlite3HashFind H k = None then H' = H \<and> r = d
     else r = sqlite3HashFind H k \<and> hash_abs H' = (hash_abs H)(fold_text k := d))"
  using hash_insert_find [OF assms] assms(1) by (simp add: hash_inv_find)

theorem sqlite3HashInsert_correct_witness:
  "hash_abs (snd (sqlite3HashInsert (Some 7) Some sqlite3HashInit [0x61] (Some True))) [0x61] = Some True"
proof -
  have "malloc_ok Some" "malloc_elem_ok (Some 7) (sqlite3HashInit :: bool Hash)"
    by (simp_all add: malloc_ok_def malloc_elem_ok_def sqlite3HashInit_def)
  from sqlite3HashInsert_correct [OF hash_inv_init this surjective_pairing [of "sqlite3HashInsert (Some 7) Some
      (sqlite3HashInit :: bool Hash) [0x61] (Some True)"]]
  show ?thesis by (simp add: fold_text_def sqlite3Tolower_eq)
qed

text \<open>
  C6. Any sequence of insertions and deletions on an empty table, with fresh element addresses
  and whatever bucket-array sizes the allocator hands out, behaves as the same sequence of
  updates of a map from case-folded keys, and \<open>sqlite3HashFind\<close> reads that map.
\<close>

theorem hash_sequence_refines_map:
  assumes "puts_fit hash_put hash_fits ops sqlite3HashInit"
  shows "sqlite3HashFind (puts hash_put ops sqlite3HashInit) k =
    fold (\<lambda>(m, q, v) f. f(fold_text q := v)) ops (\<lambda>_. None) (fold_text k)"
  using hash_store.get_puts [OF hash_inv_init assms, of k] by (simp only: hash_abs_init)

theorem hash_sequence_refines_map_witness:
  "sqlite3HashFind (puts hash_put [((1, Some), [0x61], Some True), ((2, Some), [0x41], None)]
     sqlite3HashInit) [0x61] = None"
proof -
  have "puts_fit hash_put hash_fits [((1, Some), [0x61], Some True), ((2, Some), [0x41], None)]
      (sqlite3HashInit :: bool Hash)"
    by (simp add: hash_fits_def malloc_ok_def malloc_elem_ok_def hash_put_def sqlite3HashInit_def
      sqlite3HashInsert_def findElementWithHash_def insertElement_def sqlite3StrICmp_0_iff
      del: sqlite3StrICmp.simps)
  from hash_sequence_refines_map [OF this, of "[0x61]"] show ?thesis
    by (simp add: fold_text_def sqlite3Tolower_eq)
qed

end
