(* ===== verification/Bitvec.thy ===== *)
theory Bitvec
  imports Prelude
begin

text \<open>
  The sparse bit vector of \<open>bitvec.c\<close>, used for sets of page numbers. A vector is a plain bitmap
  when it is small, a hash table with linear probing while it holds few bits, and otherwise an
  array of sub-vectors. Indices are natural numbers; the one place where the unsigned 32-bit
  arithmetic wraps, the decrement of an index 0, is written out. Reading the union of
  \<open>struct Bitvec\<close> at a representation it does not hold, or an array out of bounds, is \<open>None\<close>, and
  so is a probe loop that does not end. The allocator is a predicate on the number of the
  allocation that says whether it succeeds; operations thread that number.
\<close>

section \<open>Representation\<close>

definition BITVEC_NELEM :: nat where "BITVEC_NELEM = 496"
definition BITVEC_NBIT :: nat where "BITVEC_NBIT = 3968"
definition BITVEC_NINT :: nat where "BITVEC_NINT = 124"
definition BITVEC_MXHASH :: nat where "BITVEC_MXHASH = 62"
definition BITVEC_NPTR :: nat where "BITVEC_NPTR = 62"

definition BITVEC_HASH :: "nat \<Rightarrow> nat" where
  "BITVEC_HASH x = (x * 1) mod BITVEC_NINT"

datatype Bitvec = Bitvec (iSize: nat) (nSet: nat) (iDivisor: nat) (u: bitvec_u)
and bitvec_u = aBitmap "u8 list" | aHash "nat list" | apSub "Bitvec option list"


text \<open>A fresh vector: the zeroed union is an empty bitmap or an empty hash table by its size.\<close>

definition sqlite3BitvecCreate :: "nat \<Rightarrow> Bitvec" where
  "sqlite3BitvecCreate n = Bitvec n 0 0
     (if n \<le> BITVEC_NBIT then aBitmap (replicate BITVEC_NELEM 0) else aHash (replicate BITVEC_NINT 0))"

section \<open>Membership\<close>

definition bitmap_test :: "u8 list \<Rightarrow> nat \<Rightarrow> bool option" where
  "bitmap_test b i =
     (if i div 8 < length b then Some (b ! (i div 8) AND push_bit (i AND 7) 1 \<noteq> 0) else None)"

fun hash_lookup :: "nat \<Rightarrow> nat list \<Rightarrow> nat \<Rightarrow> nat \<Rightarrow> bool option" where
  "hash_lookup 0 a h v = None"
| "hash_lookup (Suc n) a h v =
     (if a ! h = 0 then Some False
      else if a ! h = v then Some True
      else hash_lookup n a ((h + 1) mod BITVEC_NINT) v)"

lemma sub_size [termination_simp]:
  assumes "subs ! k = Some q" and "k < length subs"
  shows "size q < Suc (size_list (size_option size) subs)"
proof -
  have "Some q \<in> set subs" using assms by (metis nth_mem)
  then have "size_option size (Some q) \<le> size_list (size_option size) subs"
    by (intro size_list_estimation') auto
  then show ?thesis by simp
qed

function BitvecTest0 :: "Bitvec \<Rightarrow> nat \<Rightarrow> bool option" where
  "BitvecTest0 (Bitvec sz ns d us) i =
     (if d \<noteq> 0 then
        (case us of
           apSub subs \<Rightarrow>
             (if i div d < length subs
              then (case subs ! (i div d) of None \<Rightarrow> Some False | Some q \<Rightarrow> BitvecTest0 q (i mod d))
              else None)
         | _ \<Rightarrow> None)
      else if sz \<le> BITVEC_NBIT then
        (case us of aBitmap b \<Rightarrow> bitmap_test b i | _ \<Rightarrow> None)
      else
        (case us of aHash a \<Rightarrow> hash_lookup BITVEC_NINT a (BITVEC_HASH i) (i + 1) | _ \<Rightarrow> None))"
  by pat_completeness auto
termination
  by (relation "measure (\<lambda>(p, i). size p)") (auto dest: sub_size)

definition sqlite3BitvecTestNotNull :: "Bitvec \<Rightarrow> nat \<Rightarrow> bool option" where
  "sqlite3BitvecTestNotNull p i =
     (let i = (if i = 0 then 2 ^ 32 - 1 else i - 1)
      in if i \<ge> iSize p then Some False else BitvecTest0 p i)"

definition sqlite3BitvecTest :: "Bitvec option \<Rightarrow> nat \<Rightarrow> bool option" where
  "sqlite3BitvecTest p i = (case p of None \<Rightarrow> Some False | Some p \<Rightarrow> sqlite3BitvecTestNotNull p i)"

section \<open>Insertion\<close>

text \<open>The \<open>do\<close> loop that looks for a value: \<open>Some None\<close> when it is found, \<open>Some (Some h)\<close> when the
  free slot \<open>h\<close> ends the search.\<close>

fun hash_slot :: "nat \<Rightarrow> nat list \<Rightarrow> nat \<Rightarrow> nat \<Rightarrow> nat option option" where
  "hash_slot 0 a h v = None"
| "hash_slot (Suc n) a h v =
     (if a ! h = v then Some None
      else let h = (if h + 1 \<ge> BITVEC_NINT then 0 else h + 1)
           in if a ! h = 0 then Some (Some h) else hash_slot n a h v)"

text \<open>Storing the values of the old hash table after the switch to sub-vectors; the return codes
  are combined by bitwise or.\<close>

fun BitvecSet_all ::
  "(nat \<Rightarrow> Bitvec \<Rightarrow> nat \<Rightarrow> (nat \<times> Bitvec \<times> nat) option) \<Rightarrow> nat \<Rightarrow> nat \<Rightarrow> Bitvec \<Rightarrow> nat list \<Rightarrow>
   (nat \<times> Bitvec \<times> nat) option" where
  "BitvecSet_all set0 rc k p [] = Some (rc, p, k)"
| "BitvecSet_all set0 rc k p (v # vs) =
     (if v = 0 then BitvecSet_all set0 rc k p vs
      else case set0 k p (v - 1) of
             None \<Rightarrow> None
           | Some (rc', p', k') \<Rightarrow> BitvecSet_all set0 (rc OR rc') k' p' vs)"

definition BitvecSet_rehash ::
  "(nat \<Rightarrow> Bitvec \<Rightarrow> nat \<Rightarrow> (nat \<times> Bitvec \<times> nat) option) \<Rightarrow> (nat \<Rightarrow> bool) \<Rightarrow> nat \<Rightarrow> Bitvec \<Rightarrow>
   nat list \<Rightarrow> nat \<Rightarrow> nat \<Rightarrow> (nat \<times> Bitvec \<times> nat) option" where
  "BitvecSet_rehash set0 alloc k p a h i =
     (if nSet p \<ge> BITVEC_MXHASH then
        (if alloc k then
           let aiValues = a;
               p' = Bitvec (iSize p) (nSet p) ((iSize p + BITVEC_NPTR - 1) div BITVEC_NPTR)
                 (apSub (replicate BITVEC_NPTR None))
           in case set0 (k + 1) p' i of
                None \<Rightarrow> None
              | Some (rc, p'', k') \<Rightarrow> BitvecSet_all set0 rc k' p'' aiValues
         else Some (SQLITE_NOMEM, p, k + 1))
      else Some (SQLITE_OK, Bitvec (iSize p) (nSet p + 1) (iDivisor p) (aHash (a[h := i + 1])), k))"

definition BitvecSet_leaf ::
  "(nat \<Rightarrow> Bitvec \<Rightarrow> nat \<Rightarrow> (nat \<times> Bitvec \<times> nat) option) \<Rightarrow> (nat \<Rightarrow> bool) \<Rightarrow> nat \<Rightarrow> Bitvec \<Rightarrow>
   nat \<Rightarrow> (nat \<times> Bitvec \<times> nat) option" where
  "BitvecSet_leaf set0 alloc k p i =
     (if iSize p \<le> BITVEC_NBIT then
        (case u p of
           aBitmap b \<Rightarrow>
             (if i div 8 < length b
              then Some (SQLITE_OK, Bitvec (iSize p) (nSet p) (iDivisor p)
                     (aBitmap (b[i div 8 := b ! (i div 8) OR push_bit (i AND 7) 1])), k)
              else None)
         | _ \<Rightarrow> None)
      else
        (case u p of
           aHash a \<Rightarrow>
             let h = BITVEC_HASH i
             in if a ! h = 0 then
                  (if nSet p < BITVEC_NINT - 1
                   then Some (SQLITE_OK, Bitvec (iSize p) (nSet p + 1) (iDivisor p)
                          (aHash (a[h := i + 1])), k)
                   else BitvecSet_rehash set0 alloc k p a h i)
                else (case hash_slot BITVEC_NINT a h (i + 1) of
                        None \<Rightarrow> None
                      | Some None \<Rightarrow> Some (SQLITE_OK, p, k)
                      | Some (Some h) \<Rightarrow> BitvecSet_rehash set0 alloc k p a h i)
         | _ \<Rightarrow> None))"

definition BitvecSet_body ::
  "(nat \<Rightarrow> Bitvec \<Rightarrow> nat \<Rightarrow> (nat \<times> Bitvec \<times> nat) option) \<Rightarrow> (nat \<Rightarrow> bool) \<Rightarrow> nat \<Rightarrow> Bitvec \<Rightarrow>
   nat \<Rightarrow> (nat \<times> Bitvec \<times> nat) option" where
  "BitvecSet_body set0 alloc k p i =
     (if iSize p > BITVEC_NBIT \<and> iDivisor p \<noteq> 0 then
        (case u p of
           apSub subs \<Rightarrow>
             let bin = i div iDivisor p; i = i mod iDivisor p;
                 descend = (\<lambda>k q. case set0 k q i of
                     None \<Rightarrow> None
                   | Some (rc, q', k') \<Rightarrow>
                       Some (rc, Bitvec (iSize p) (nSet p) (iDivisor p) (apSub (subs[bin := Some q'])), k'))
             in if bin < length subs
                then (case subs ! bin of
                        None \<Rightarrow> if alloc k then descend (k + 1) (sqlite3BitvecCreate (iDivisor p))
                                else Some (SQLITE_NOMEM, p, k + 1)
                      | Some q \<Rightarrow> descend k q)
                else None
         | _ \<Rightarrow> None)
      else BitvecSet_leaf set0 alloc k p i)"

primrec BitvecSet0 ::
  "nat \<Rightarrow> (nat \<Rightarrow> bool) \<Rightarrow> nat \<Rightarrow> Bitvec \<Rightarrow> nat \<Rightarrow> (nat \<times> Bitvec \<times> nat) option" where
  "BitvecSet0 0 alloc = (\<lambda>k p i. None)"
| "BitvecSet0 (Suc n) alloc = (\<lambda>k p i. BitvecSet_body (BitvecSet0 n alloc) alloc k p i)"

text \<open>The recursion depth a vector of a given size needs: at each level a rehash and a descent.\<close>

function bitvec_fuel :: "nat \<Rightarrow> nat" where
  "bitvec_fuel sz =
     (if sz \<le> BITVEC_NBIT then 1
      else 2 + bitvec_fuel ((sz + BITVEC_NPTR - 1) div BITVEC_NPTR))"
  by pat_completeness auto
termination
  by (relation "measure id") (auto simp: BITVEC_NBIT_def BITVEC_NPTR_def)

definition sqlite3BitvecSet ::
  "(nat \<Rightarrow> bool) \<Rightarrow> nat \<Rightarrow> Bitvec option \<Rightarrow> nat \<Rightarrow> (nat \<times> Bitvec option \<times> nat) option" where
  "sqlite3BitvecSet alloc k p i =
     (case p of
        None \<Rightarrow> Some (SQLITE_OK, None, k)
      | Some p \<Rightarrow> map_option (\<lambda>(rc, p', k'). (rc, Some p', k'))
                    (BitvecSet0 (bitvec_fuel (iSize p)) alloc k p (i - 1)))"

section \<open>Deletion\<close>

fun hash_free :: "nat \<Rightarrow> nat list \<Rightarrow> nat \<Rightarrow> nat option" where
  "hash_free 0 a h = None"
| "hash_free (Suc n) a h =
     (if a ! h = 0 then Some h else hash_free n a (if h + 1 \<ge> BITVEC_NINT then 0 else h + 1))"

fun hash_rebuild :: "nat \<Rightarrow> nat list \<Rightarrow> nat \<Rightarrow> nat list \<Rightarrow> (nat \<times> nat list) option" where
  "hash_rebuild i a ns [] = Some (ns, a)"
| "hash_rebuild i a ns (v # vs) =
     (if v \<noteq> 0 \<and> v \<noteq> i + 1 then
        (case hash_free BITVEC_NINT a (BITVEC_HASH (v - 1)) of
           None \<Rightarrow> None
         | Some h \<Rightarrow> hash_rebuild i (a[h := v]) (ns + 1) vs)
      else hash_rebuild i a ns vs)"

function BitvecClear0 :: "Bitvec \<Rightarrow> nat \<Rightarrow> Bitvec option" where
  "BitvecClear0 (Bitvec sz ns d us) i =
     (if d \<noteq> 0 then
        (case us of
           apSub subs \<Rightarrow>
             (if i div d < length subs
              then (case subs ! (i div d) of
                      None \<Rightarrow> Some (Bitvec sz ns d us)
                    | Some q \<Rightarrow> map_option (\<lambda>q'. Bitvec sz ns d (apSub (subs[i div d := Some q'])))
                                  (BitvecClear0 q (i mod d)))
              else None)
         | _ \<Rightarrow> None)
      else if sz \<le> BITVEC_NBIT then
        (case us of
           aBitmap b \<Rightarrow>
             (if i div 8 < length b
              then Some (Bitvec sz ns d (aBitmap (b[i div 8 := b ! (i div 8) AND NOT (push_bit (i AND 7) 1)])))
              else None)
         | _ \<Rightarrow> None)
      else
        (case us of
           aHash a \<Rightarrow> map_option (\<lambda>(ns', a'). Bitvec sz ns' d (aHash a'))
                        (hash_rebuild i (replicate BITVEC_NINT 0) 0 a)
         | _ \<Rightarrow> None))"
  by pat_completeness auto
termination
  by (relation "measure (\<lambda>(p, i). size p)") (auto dest: sub_size)

definition sqlite3BitvecClear :: "Bitvec option \<Rightarrow> nat \<Rightarrow> Bitvec option option" where
  "sqlite3BitvecClear p i =
     (case p of None \<Rightarrow> Some None | Some p \<Rightarrow> map_option Some (BitvecClear0 p (i - 1)))"

definition sqlite3BitvecSize :: "Bitvec \<Rightarrow> nat" where
  "sqlite3BitvecSize p = iSize p"

section \<open>Linear probing\<close>

definition probe :: "nat \<Rightarrow> nat \<Rightarrow> nat" where
  "probe h j = (h + j) mod BITVEC_NINT"

definition first_free :: "nat list \<Rightarrow> nat \<Rightarrow> nat \<Rightarrow> bool" where
  "first_free a h m \<longleftrightarrow> a ! probe h m = 0 \<and> (\<forall>j<m. a ! probe h j \<noteq> 0)"

lemma probe_less [simp]: "probe h j < BITVEC_NINT"
  by (simp add: probe_def BITVEC_NINT_def)

lemma probe_0 [simp]: "h < BITVEC_NINT \<Longrightarrow> probe h 0 = h"
  by (simp add: probe_def)

lemma probe_onto: "h < BITVEC_NINT \<Longrightarrow> s < BITVEC_NINT \<Longrightarrow> \<exists>k<BITVEC_NINT. s = probe h k"
  unfolding probe_def by (rule exI [of _ "if h \<le> s then s - h else BITVEC_NINT + s - h"]) auto

definition next_slot :: "nat \<Rightarrow> nat" where
  "next_slot h = (h + 1) mod BITVEC_NINT"

lemma next_slot_less [simp]: "next_slot h < BITVEC_NINT"
  by (simp add: next_slot_def BITVEC_NINT_def)

lemma next_slot_wrap:
  "h < BITVEC_NINT \<Longrightarrow> (if h + 1 \<ge> BITVEC_NINT then 0 else h + 1) = next_slot h"
  by (cases "h + 1 = BITVEC_NINT") (auto simp: next_slot_def)

lemma probe_Suc: "probe h (Suc j) = probe (next_slot h) j"
  by (simp add: probe_def next_slot_def mod_simps)

lemma first_free_ex:
  assumes "s < BITVEC_NINT" and "a ! s = 0" and "h < BITVEC_NINT"
  shows "\<exists>m<BITVEC_NINT. first_free a h m"
proof -
  obtain k where k: "k < BITVEC_NINT" "s = probe h k" using probe_onto assms by blast
  define m where "m = (LEAST k. a ! probe h k = 0)"
  have "a ! probe h m = 0" "m \<le> k" using k assms(2) unfolding m_def by (auto intro: LeastI Least_le)
  moreover have "\<forall>j<m. a ! probe h j \<noteq> 0" unfolding m_def by (blast dest: not_less_Least)
  ultimately show ?thesis using k(1) unfolding first_free_def by (intro exI [of _ m]) simp
qed

lemma first_free_Suc:
  "h < BITVEC_NINT \<Longrightarrow> first_free a h (Suc m) \<longleftrightarrow> a ! h \<noteq> 0 \<and> first_free a (next_slot h) m"
  by (auto simp: first_free_def All_less_Suc2 probe_Suc)

lemma ex_probe_Suc:
  "h < BITVEC_NINT \<Longrightarrow>
     (\<exists>j<Suc m. a ! probe h j = v) \<longleftrightarrow> a ! h = v \<or> (\<exists>j<m. a ! probe (next_slot h) j = v)"
  by (auto simp: Ex_less_Suc2 probe_Suc)

lemma hash_loop_steps:
  "hash_lookup (Suc n) a h v =
     (if a ! h = 0 then Some False else if a ! h = v then Some True
      else hash_lookup n a (next_slot h) v)"
  "h < BITVEC_NINT \<Longrightarrow> hash_slot (Suc n) a h v =
     (if a ! h = v then Some None
      else if a ! next_slot h = 0 then Some (Some (next_slot h)) else hash_slot n a (next_slot h) v)"
  "h < BITVEC_NINT \<Longrightarrow> hash_free (Suc n) a h =
     (if a ! h = 0 then Some h else hash_free n a (next_slot h))"
  by (simp_all only: hash_lookup.simps hash_slot.simps hash_free.simps Let_def next_slot_wrap)
    (simp add: next_slot_def)

declare hash_lookup.simps(2) [simp del] hash_slot.simps(2) [simp del] hash_free.simps(2) [simp del]

lemma hash_lookup_probe:
  "first_free a h m \<Longrightarrow> m < n \<Longrightarrow> h < BITVEC_NINT \<Longrightarrow> v \<noteq> 0 \<Longrightarrow>
     hash_lookup n a h v = Some (\<exists>j<m. a ! probe h j = v)"
proof (induction m arbitrary: n h)
  case 0
  then show ?case by (cases n) (auto simp: first_free_def hash_loop_steps)
next
  case (Suc m)
  then show ?case by (cases n) (auto simp: first_free_Suc ex_probe_Suc hash_loop_steps)
qed

lemma hash_slot_probe:
  "first_free a h (Suc m) \<Longrightarrow> m < n \<Longrightarrow> h < BITVEC_NINT \<Longrightarrow> v \<noteq> 0 \<Longrightarrow>
     hash_slot n a h v =
       Some (if \<exists>j<Suc m. a ! probe h j = v then None else Some (probe h (Suc m)))"
proof (induction m arbitrary: n h)
  case 0
  then show ?case by (cases n) (auto simp: hash_loop_steps probe_Suc first_free_def)
next
  case (Suc m)
  then have "a ! h \<noteq> 0" "first_free a (next_slot h) (Suc m)" "a ! next_slot h \<noteq> 0"
    by (simp_all add: first_free_Suc)
  with Suc.IH [of "next_slot h"] Suc.prems(2-4) show ?case
    by (cases n) (auto simp: hash_loop_steps ex_probe_Suc [of _ "Suc m"] probe_Suc [of _ "Suc m"])
qed

lemma hash_free_probe:
  "first_free a h m \<Longrightarrow> m < n \<Longrightarrow> h < BITVEC_NINT \<Longrightarrow> hash_free n a h = Some (probe h m)"
proof (induction m arbitrary: n h)
  case 0
  then show ?case by (cases n) (auto simp: first_free_def hash_loop_steps)
next
  case (Suc m)
  then show ?case by (cases n) (simp_all add: first_free_Suc hash_loop_steps probe_Suc)
qed

section \<open>The hash table invariant\<close>

definition stored :: "nat list \<Rightarrow> nat set" where
  "stored a = set a - {0}"

definition used :: "nat list \<Rightarrow> nat" where
  "used a = length (filter (\<lambda>v. v \<noteq> 0) a)"

definition hash_ok :: "nat \<Rightarrow> nat list \<Rightarrow> bool" where
  "hash_ok sz a \<longleftrightarrow> length a = BITVEC_NINT \<and> (\<forall>v\<in>set a. v \<le> sz) \<and>
     (\<forall>s<BITVEC_NINT. a ! s \<noteq> 0 \<longrightarrow>
        (\<exists>k. s = probe (BITVEC_HASH (a ! s - 1)) k \<and>
             (\<forall>j<k. a ! probe (BITVEC_HASH (a ! s - 1)) j \<noteq> 0)))"

lemma BITVEC_HASH_less [simp]: "BITVEC_HASH x < BITVEC_NINT"
  by (simp add: BITVEC_HASH_def BITVEC_NINT_def)

lemma used_free:
  assumes "length a = BITVEC_NINT" and "used a < BITVEC_NINT"
  shows "\<exists>s<BITVEC_NINT. a ! s = 0"
proof (rule ccontr)
  assume "\<not> (\<exists>s<BITVEC_NINT. a ! s = 0)"
  then have "\<forall>v\<in>set a. v \<noteq> 0" using assms(1) by (auto simp: in_set_conv_nth)
  then have "filter (\<lambda>v. v \<noteq> 0) a = a" by (intro filter_True)
  then have "used a = length a" by (simp add: used_def)
  then show False using assms by simp
qed

lemma hash_ok_length: "hash_ok sz a \<Longrightarrow> length a = BITVEC_NINT"
  by (simp add: hash_ok_def)

lemma hash_first_free:
  assumes "hash_ok sz a" and "used a < BITVEC_NINT" and "h < BITVEC_NINT"
  shows "\<exists>m<BITVEC_NINT. first_free a h m"
  using used_free [OF hash_ok_length [OF assms(1)] assms(2)] first_free_ex [OF _ _ assms(3)] by auto

lemma stored_probe:
  assumes "hash_ok sz a" and "first_free a (BITVEC_HASH i) m"
  shows "(\<exists>j<m. a ! probe (BITVEC_HASH i) j = i + 1) \<longleftrightarrow> i + 1 \<in> stored a"
proof
  assume "i + 1 \<in> stored a"
  then obtain s where s: "s < BITVEC_NINT" "a ! s = i + 1"
    using assms(1) by (auto simp: stored_def hash_ok_def in_set_conv_nth)
  then obtain k where k: "s = probe (BITVEC_HASH i) k" "\<forall>j<k. a ! probe (BITVEC_HASH i) j \<noteq> 0"
    using assms(1) by (auto simp: hash_ok_def)
  have "k \<noteq> m" "\<not> m < k" using assms(2) k s(2) unfolding first_free_def by auto
  then have "k < m" by simp
  then show "\<exists>j<m. a ! probe (BITVEC_HASH i) j = i + 1" using k s by auto
next
  assume "\<exists>j<m. a ! probe (BITVEC_HASH i) j = i + 1"
  then obtain j where j: "a ! probe (BITVEC_HASH i) j = i + 1" by blast
  have "a ! probe (BITVEC_HASH i) j \<in> set a" using assms(1) by (simp add: hash_ok_def)
  then show "i + 1 \<in> stored a" unfolding j by (simp add: stored_def)
qed

lemma hash_put:
  assumes "hash_ok sz a" and "first_free a (BITVEC_HASH (v - 1)) m" and "0 < v" and "v \<le> sz"
  defines "h \<equiv> probe (BITVEC_HASH (v - 1)) m"
  shows "hash_ok sz (a[h := v]) \<and> stored (a[h := v]) = insert v (stored a) \<and>
    used (a[h := v]) = used a + 1"
proof -
  have h: "h < length a" "a ! h = 0" using assms by (auto simp: hash_ok_def first_free_def)
  have len: "length a = BITVEC_NINT" using assms(1) by (simp add: hash_ok_def)
  have keep: "a ! s \<noteq> 0 \<Longrightarrow> a[h := v] ! s = a ! s" for s using h by (cases "s = h") auto
  have nz: "a ! s \<noteq> 0 \<Longrightarrow> a[h := v] ! s \<noteq> 0" for s using keep by metis
  have "\<exists>k. s = probe (BITVEC_HASH (a[h := v] ! s - 1)) k \<and>
         (\<forall>j<k. a[h := v] ! probe (BITVEC_HASH (a[h := v] ! s - 1)) j \<noteq> 0)"
    if used: "s < BITVEC_NINT" "a[h := v] ! s \<noteq> 0" for s
  proof (cases "s = h")
    case True
    then show ?thesis using h assms(2) nz by (auto simp: h_def first_free_def intro!: exI [of _ m])
  next
    case False
    then have s: "a[h := v] ! s = a ! s" by simp
    then obtain k where "s = probe (BITVEC_HASH (a ! s - 1)) k"
        "\<forall>j<k. a ! probe (BITVEC_HASH (a ! s - 1)) j \<noteq> 0"
      using used assms(1) unfolding hash_ok_def s by blast
    then show ?thesis using nz unfolding s by blast
  qed
  moreover have "\<forall>w\<in>set (a[h := v]). w \<le> sz"
    using assms(1,4) set_update_subset_insert [of a h v] by (auto simp: hash_ok_def)
  ultimately have ok: "hash_ok sz (a[h := v])" using len by (simp add: hash_ok_def)
  have a: "a = take h a @ 0 # drop (Suc h) a" using h by (metis id_take_nth_drop)
  have a': "a[h := v] = take h a @ v # drop (Suc h) a" using h by (simp add: upd_conv_take_nth_drop)
  have "stored a = stored (take h a @ 0 # drop (Suc h) a)" "used a = used (take h a @ 0 # drop (Suc h) a)"
    using a by simp_all
  then have "stored (a[h := v]) = insert v (stored a)" "used (a[h := v]) = used a + 1"
    unfolding a' using \<open>0 < v\<close> by (auto simp: stored_def used_def)
  then show ?thesis using ok by blast
qed

lemma hash_lookup_stored:
  assumes "hash_ok sz a" and "used a < BITVEC_NINT"
  shows "hash_lookup BITVEC_NINT a (BITVEC_HASH i) (i + 1) = Some (i + 1 \<in> stored a)"
proof -
  obtain m where m: "m < BITVEC_NINT" "first_free a (BITVEC_HASH i) m"
    using hash_first_free [OF assms, of "BITVEC_HASH i"] by auto
  then show ?thesis using stored_probe [OF assms(1) m(2)] hash_lookup_probe [OF m(2,1)] by simp
qed

lemma hash_rebuild_ok:
  assumes "hash_ok sz a" and "used a = ns" and "\<forall>v\<in>set vs. v \<le> sz"
    and "used a + used vs < BITVEC_NINT"
  shows "\<exists>ns' a'. hash_rebuild i a ns vs = Some (ns', a') \<and> hash_ok sz a' \<and> used a' = ns' \<and>
    ns' \<le> used a + used vs \<and> stored a' = stored a \<union> (stored vs - {i + 1})"
  using assms
proof (induction vs arbitrary: a ns)
  case Nil
  then show ?case by (simp add: stored_def)
next
  case (Cons v vs)
  show ?case
  proof (cases "v \<noteq> 0 \<and> v \<noteq> i + 1")
    case True
    obtain m where m: "m < BITVEC_NINT" "first_free a (BITVEC_HASH (v - 1)) m"
      using hash_first_free [OF Cons.prems(1), of "BITVEC_HASH (v - 1)"] Cons.prems(4) by auto
    define a' where "a' = a[probe (BITVEC_HASH (v - 1)) m := v]"
    have a': "hash_ok sz a'" "stored a' = insert v (stored a)" "used a' = used a + 1"
      using hash_put [OF Cons.prems(1) m(2)] True Cons.prems(3) by (simp_all add: a'_def)
    have "used (v # vs) = used vs + 1" using True by (simp add: used_def)
    then obtain ns' b where b: "hash_rebuild i a' (ns + 1) vs = Some (ns', b)" "hash_ok sz b"
      "used b = ns'" "ns' \<le> used a' + used vs" "stored b = stored a' \<union> (stored vs - {i + 1})"
      using Cons.IH [OF a'(1), of "ns + 1"] Cons.prems a'(3) by auto
    have "hash_rebuild i a ns (v # vs) = Some (ns', b)"
      using b(1) True hash_free_probe [OF m(2,1)] by (simp add: a'_def)
    moreover have "stored b = stored a \<union> (stored (v # vs) - {i + 1})"
      using b(5) a'(2) True by (auto simp: stored_def)
    moreover have "ns' \<le> used a + used (v # vs)" using b(4) a'(3) \<open>used (v # vs) = used vs + 1\<close> by simp
    ultimately show ?thesis using b(2,3) by blast
  next
    case False
    then have "used vs \<le> used (v # vs)" "stored (v # vs) - {i + 1} = stored vs - {i + 1}"
      by (auto simp: used_def stored_def)
    moreover have "hash_rebuild i a ns (v # vs) = hash_rebuild i a ns vs" using False by auto
    moreover have "\<forall>v\<in>set vs. v \<le> sz" using Cons.prems(3) by simp
    moreover from this have "\<exists>ns' a'. hash_rebuild i a ns vs = Some (ns', a') \<and> hash_ok sz a' \<and>
        used a' = ns' \<and> ns' \<le> used a + used vs \<and> stored a' = stored a \<union> (stored vs - {i + 1})"
      using Cons.IH [OF Cons.prems(1,2)] Cons.prems(4) \<open>used vs \<le> used (v # vs)\<close> by simp
    ultimately show ?thesis by fastforce
  qed
qed

section \<open>The vector invariant\<close>

inductive bitvec_ok :: "Bitvec \<Rightarrow> bool" where
  bitmap: "sz \<le> BITVEC_NBIT \<Longrightarrow> length b = BITVEC_NELEM \<Longrightarrow> bitvec_ok (Bitvec sz ns 0 (aBitmap b))"
| hash: "BITVEC_NBIT < sz \<Longrightarrow> hash_ok sz a \<Longrightarrow> used a \<le> ns \<Longrightarrow> ns < BITVEC_NINT \<Longrightarrow>
    bitvec_ok (Bitvec sz ns 0 (aHash a))"
| node: "BITVEC_NBIT < sz \<Longrightarrow> d = (sz + BITVEC_NPTR - 1) div BITVEC_NPTR \<Longrightarrow>
    length subs = BITVEC_NPTR \<Longrightarrow>
    \<forall>q. Some q \<in> set subs \<longrightarrow> iSize q = d \<and> bitvec_ok q \<Longrightarrow>
    bitvec_ok (Bitvec sz ns d (apSub subs))"

inductive_cases bitvec_ok_cases: "bitvec_ok p"

definition bv_bits :: "Bitvec \<Rightarrow> nat set" where
  "bv_bits p = {i. i < iSize p \<and> BitvecTest0 p i = Some True}"

lemma bitmap_test_bit:
  assumes "i < 8 * length b"
  shows "bitmap_test b i = Some (bit (b ! (i div 8)) (i mod 8))"
proof -
  have "i AND 7 = i mod 8" using take_bit_eq_mask [of 3 i] by (simp add: take_bit_eq_mod mask_eq_exp_minus_1)
  moreover have "x AND push_bit k 1 \<noteq> 0 \<longleftrightarrow> bit x k" if "k < 8" for x :: u8 and k
    by (simp add: push_bit_of_1 and_exp_eq_0_iff_not_bit)
  ultimately show ?thesis using assms by (simp add: bitmap_test_def less_mult_imp_div_less mult.commute)
qed

lemma node_divisor:
  assumes "BITVEC_NBIT < sz" and "d = (sz + BITVEC_NPTR - 1) div BITVEC_NPTR"
  shows "0 < d" and "i < sz \<Longrightarrow> i div d < BITVEC_NPTR" and "i < sz \<Longrightarrow> i mod d < d"
proof -
  show "0 < d" using assms by (simp add: BITVEC_NBIT_def BITVEC_NPTR_def)
  moreover have "sz \<le> d * BITVEC_NPTR" using assms(2) by (simp add: BITVEC_NPTR_def)
  ultimately show "i < sz \<Longrightarrow> i div d < BITVEC_NPTR" "i < sz \<Longrightarrow> i mod d < d"
    by (simp_all add: less_mult_imp_div_less mult.commute)
qed

lemma BitvecTest0_total: "bitvec_ok p \<Longrightarrow> i < iSize p \<Longrightarrow> BitvecTest0 p i \<noteq> None"
proof (induction p arbitrary: i rule: bitvec_ok.induct)
  case (bitmap sz b ns)
  then show ?case by (simp add: bitmap_test_bit BITVEC_NBIT_def BITVEC_NELEM_def)
next
  case (hash sz a ns)
  then show ?case using hash_lookup_stored [of sz a i] by simp
next
  case (node sz d subs ns)
  then have d: "0 < d" "i div d < length subs" "i mod d < d" using node_divisor by auto
  show ?case
  proof (cases "subs ! (i div d)")
    case (Some q)
    then have "Some q \<in> set subs" using d(2) by (metis nth_mem)
    then show ?thesis using node.IH d Some by simp
  qed (use d in simp)
qed

section \<open>Insertion is correct\<close>

text \<open>What storing bit \<open>i\<close> guarantees of the result, whether or not the allocations succeed.\<close>

definition set_post :: "(nat \<Rightarrow> bool) \<Rightarrow> Bitvec \<Rightarrow> nat \<Rightarrow> nat \<Rightarrow> Bitvec \<Rightarrow> bool" where
  "set_post alloc p i rc p' \<longleftrightarrow> bitvec_ok p' \<and> iSize p' = iSize p \<and>
     bv_bits p' \<subseteq> insert i (bv_bits p) \<and> (rc = SQLITE_OK \<longrightarrow> bv_bits p' = insert i (bv_bits p)) \<and>
     (rc = SQLITE_OK \<or> rc = SQLITE_NOMEM) \<and> ((\<forall>k. alloc k) \<longrightarrow> rc = SQLITE_OK) \<and>
     (iDivisor p \<noteq> 0 \<longrightarrow> iDivisor p' \<noteq> 0)"

definition sets ::
  "(nat \<Rightarrow> bool) \<Rightarrow> (nat \<Rightarrow> Bitvec \<Rightarrow> nat \<Rightarrow> (nat \<times> Bitvec \<times> nat) option) \<Rightarrow> Bitvec \<Rightarrow> bool" where
  "sets alloc set0 p \<longleftrightarrow>
     (\<forall>k. \<forall>i<iSize p. \<exists>rc p' k'. set0 k p i = Some (rc, p', k') \<and> set_post alloc p i rc p')"


lemma setsD:
  "sets alloc set0 p \<Longrightarrow> i < iSize p \<Longrightarrow>
     \<exists>rc p' k'. set0 k p i = Some (rc, p', k') \<and> set_post alloc p i rc p'"
  by (simp add: sets_def)

lemma bv_bits_bitmap:
  "sz \<le> BITVEC_NBIT \<Longrightarrow> length b = BITVEC_NELEM \<Longrightarrow>
     bv_bits (Bitvec sz ns 0 (aBitmap b)) = {i. i < sz \<and> bit (b ! (i div 8)) (i mod 8)}"
  by (auto simp: bv_bits_def bitmap_test_bit BITVEC_NBIT_def BITVEC_NELEM_def)

lemma bv_bits_hash:
  assumes "BITVEC_NBIT < sz" and "hash_ok sz a" and "used a < BITVEC_NINT"
  shows "bv_bits (Bitvec sz ns 0 (aHash a)) = {i. i + 1 \<in> stored a}"
proof -
  have "i < sz" if "i + 1 \<in> stored a" for i
    using that assms(2) by (auto simp: stored_def hash_ok_def)
  then show ?thesis using assms(1) hash_lookup_stored [OF assms(2,3)] by (auto simp: bv_bits_def)
qed

definition sub_bits :: "Bitvec option \<Rightarrow> nat set" where
  "sub_bits s = (case s of None \<Rightarrow> {} | Some q \<Rightarrow> bv_bits q)"

lemma bv_bits_node:
  assumes "BITVEC_NBIT < sz" and "d = (sz + BITVEC_NPTR - 1) div BITVEC_NPTR" and "length subs = BITVEC_NPTR"
    and "\<And>q. Some q \<in> set subs \<Longrightarrow> iSize q = d"
  shows "bv_bits (Bitvec sz ns d (apSub subs)) =
    {i. i < sz \<and> i mod d \<in> sub_bits (subs ! (i div d))}"
proof -
  have d: "0 < d" "\<And>i. i < sz \<Longrightarrow> i div d < length subs \<and> i mod d < d"
    using node_divisor [OF assms(1,2)] assms(3) by auto
  have test: "BitvecTest0 (Bitvec sz ns d (apSub subs)) i =
      (case subs ! (i div d) of None \<Rightarrow> Some False | Some q \<Rightarrow> BitvecTest0 q (i mod d))"
    if "i < sz" for i using d that by simp
  have "iSize q = d" if "i < sz" "subs ! (i div d) = Some q" for i q
    using that d assms(4) by (metis nth_mem)
  then show ?thesis using d
    by (auto simp: sub_bits_def bv_bits_def test simp del: BitvecTest0.simps split: option.splits)
qed

lemma bits_create: "bitvec_ok (sqlite3BitvecCreate n)" "bv_bits (sqlite3BitvecCreate n) = {}"
  "iSize (sqlite3BitvecCreate n) = n"
proof -
  have "hash_ok n (replicate BITVEC_NINT 0)" "used (replicate BITVEC_NINT 0) = 0"
    "stored (replicate BITVEC_NINT 0) = {}"
    by (auto simp: hash_ok_def used_def stored_def)
  then show "bitvec_ok (sqlite3BitvecCreate n)" "bv_bits (sqlite3BitvecCreate n) = {}"
    by (auto simp: sqlite3BitvecCreate_def bv_bits_hash bv_bits_bitmap BITVEC_NINT_def BITVEC_NBIT_def
      BITVEC_NELEM_def intro!: bitvec_ok.intros)
qed (simp add: sqlite3BitvecCreate_def)

lemma sets_bitmap:
  assumes "sz \<le> BITVEC_NBIT" and "length b = BITVEC_NELEM"
  shows "sets alloc (BitvecSet_body set0 alloc) (Bitvec sz ns 0 (aBitmap b))"
proof -
  have "bit (b[i div 8 := b ! (i div 8) OR push_bit (i AND 7) 1] ! (j div 8)) (j mod 8) \<longleftrightarrow>
      j = i \<or> bit (b ! (j div 8)) (j mod 8)" if "i < sz" "j < sz" for i j
  proof -
    have and7: "i AND 7 = i mod 8"
      using take_bit_eq_mask [of 3 i] by (simp add: take_bit_eq_mod mask_eq_exp_minus_1)
    have "j = i \<longleftrightarrow> j div 8 = i div 8 \<and> j mod 8 = i mod 8" by (metis div_mod_decomp)
    moreover have "i div 8 < length b" "j mod 8 < 8" using that assms
      by (auto simp: BITVEC_NBIT_def BITVEC_NELEM_def)
    ultimately show ?thesis
      by (cases "j div 8 = i div 8") (auto simp: and7 bit_simps push_bit_of_1 bit_or_iff)
  qed
  then show ?thesis using assms
    by (auto simp: sets_def set_post_def BitvecSet_body_def BitvecSet_leaf_def bv_bits_bitmap
      BITVEC_NBIT_def BITVEC_NELEM_def intro!: bitvec_ok.intros)
qed

lemma sub_update_post:
  assumes p: "BITVEC_NBIT < sz" "d = (sz + BITVEC_NPTR - 1) div BITVEC_NPTR"
    "length subs = BITVEC_NPTR" "\<forall>q. Some q \<in> set subs \<longrightarrow> iSize q = d \<and> bitvec_ok q"
    and i: "i < sz" and q: "bv_bits q = sub_bits (subs ! (i div d))" "iSize q = d"
    and post: "set_post alloc q (i mod d) rc q'"
  shows "set_post alloc (Bitvec sz ns d (apSub subs)) i rc
    (Bitvec sz ns d (apSub (subs[i div d := Some q'])))"
proof -
  have q': "bitvec_ok q'" "iSize q' = d" using post q(2) by (auto simp: set_post_def)
  have new: "\<forall>r. Some r \<in> set (subs[i div d := Some q']) \<longrightarrow> iSize r = d \<and> bitvec_ok r"
    using p(4) q' set_update_subset_insert [of subs "i div d" "Some q'"] by auto
  have d: "0 < d" "\<And>j. j < sz \<Longrightarrow> j div d < length subs \<and> j mod d < d"
    using node_divisor [OF p(1,2)] p(3) by auto
  have bits: "bv_bits (Bitvec sz ns d (apSub subs)) = {j. j < sz \<and> j mod d \<in> sub_bits (subs ! (j div d))}"
    "bv_bits (Bitvec sz ns d (apSub (subs[i div d := Some q']))) =
      {j. j < sz \<and> j mod d \<in> sub_bits (subs[i div d := Some q'] ! (j div d))}"
    using bv_bits_node [OF p(1-3)] bv_bits_node [OF p(1,2), of "subs[i div d := Some q']"] p(3,4) new by auto
  have split: "j = i \<longleftrightarrow> j div d = i div d \<and> j mod d = i mod d" for j by (metis div_mod_decomp)
  have upd: "sub_bits (subs[i div d := Some q'] ! (j div d)) =
      (if j div d = i div d then bv_bits q' else sub_bits (subs ! (j div d)))" if "j < sz" for j
    using d(2) [OF that] by (simp add: sub_bits_def)
  have "bitvec_ok (Bitvec sz ns d (apSub (subs[i div d := Some q'])))"
    using p(1-3) new by (intro bitvec_ok.node) auto
  moreover have "bv_bits (Bitvec sz ns d (apSub (subs[i div d := Some q']))) \<subseteq>
      insert i (bv_bits (Bitvec sz ns d (apSub subs)))"
    using post q(1) unfolding bits set_post_def by (auto simp: upd split split: if_splits)
  moreover have "bv_bits (Bitvec sz ns d (apSub (subs[i div d := Some q']))) =
      insert i (bv_bits (Bitvec sz ns d (apSub subs)))" if "rc = SQLITE_OK"
    using post q(1) that i unfolding bits set_post_def by (auto simp: upd split split: if_splits)
  ultimately show ?thesis using post by (simp add: set_post_def)
qed

lemma sets_node:
  assumes p: "BITVEC_NBIT < sz" "d = (sz + BITVEC_NPTR - 1) div BITVEC_NPTR"
    "length subs = BITVEC_NPTR" "\<forall>q. Some q \<in> set subs \<longrightarrow> iSize q = d \<and> bitvec_ok q"
    and sub: "\<And>q. iSize q = d \<Longrightarrow> bitvec_ok q \<Longrightarrow> sets alloc set0 q"
  shows "sets alloc (BitvecSet_body set0 alloc) (Bitvec sz ns d (apSub subs))"
  unfolding sets_def
proof (intro allI impI)
  fix k i assume "i < iSize (Bitvec sz ns d (apSub subs))"
  then have i: "i < sz" by simp
  have d: "0 < d" "i div d < length subs" "i mod d < d" using node_divisor [OF p(1,2)] p(3) i by auto
  show "\<exists>rc p' k'. BitvecSet_body set0 alloc k (Bitvec sz ns d (apSub subs)) i = Some (rc, p', k') \<and>
      set_post alloc (Bitvec sz ns d (apSub subs)) i rc p'"
  proof (cases "subs ! (i div d)")
    case None
    show ?thesis
    proof (cases "alloc k")
      case True
      obtain rc q' k' where "set0 (k + 1) (sqlite3BitvecCreate d) (i mod d) = Some (rc, q', k')"
        "set_post alloc (sqlite3BitvecCreate d) (i mod d) rc q'"
        using setsD [OF sub [OF bits_create(3,1)], of "i mod d" "k + 1"] d(3) by (auto simp: bits_create)
      then show ?thesis using True None p(1) d i sub_update_post [OF p i, of "sqlite3BitvecCreate d"]
        by (auto simp: BitvecSet_body_def Let_def bits_create sub_bits_def)
    next
      case False
      then show ?thesis using None p d
        by (auto simp: BitvecSet_body_def Let_def set_post_def intro!: bitvec_ok.node)
    qed
  next
    case (Some q)
    then have "Some q \<in> set subs" using d(2) by (metis nth_mem)
    then have q: "iSize q = d" "bitvec_ok q" using p(4) by auto
    obtain rc q' k' where "set0 k q (i mod d) = Some (rc, q', k')" "set_post alloc q (i mod d) rc q'"
      using setsD [OF sub [OF q], of "i mod d" k] d(3) q(1) by auto
    then show ?thesis using Some p(1) d i q sub_update_post [OF p i, of q]
      by (auto simp: BitvecSet_body_def Let_def sub_bits_def)
  qed
qed

lemma set_all:
  assumes sub: "\<And>q. bitvec_ok q \<Longrightarrow> iSize q = sz \<Longrightarrow> iDivisor q \<noteq> 0 \<Longrightarrow> sets alloc set0 q"
    and "bitvec_ok p" "iSize p = sz" "iDivisor p \<noteq> 0" "\<forall>v\<in>set vs. v \<le> sz"
    and "rc = SQLITE_OK \<or> rc = SQLITE_NOMEM"
  shows "\<exists>rc' p' k'. BitvecSet_all set0 rc k p vs = Some (rc', p', k') \<and>
    bitvec_ok p' \<and> iSize p' = sz \<and> iDivisor p' \<noteq> 0 \<and>
    bv_bits p' \<subseteq> bv_bits p \<union> {j. j + 1 \<in> set vs} \<and>
    (rc' = SQLITE_OK \<longrightarrow> rc = SQLITE_OK \<and> bv_bits p' = bv_bits p \<union> {j. j + 1 \<in> set vs}) \<and>
    (rc' = SQLITE_OK \<or> rc' = SQLITE_NOMEM) \<and> ((\<forall>k. alloc k) \<and> rc = SQLITE_OK \<longrightarrow> rc' = SQLITE_OK)"
  using assms(2-)
proof (induction vs arbitrary: rc k p)
  case Nil
  then show ?case by simp
next
  case (Cons v vs)
  show ?case
  proof (cases "v = 0")
    case True
    then show ?thesis using Cons.IH [OF Cons.prems(1-3), of rc k] Cons.prems(4,5) by simp
  next
    case False
    then have "v - 1 < iSize p" using Cons.prems(2,4) by auto
    then obtain rc1 p1 k1 where 1: "set0 k p (v - 1) = Some (rc1, p1, k1)" "set_post alloc p (v - 1) rc1 p1"
      using setsD [OF sub [OF Cons.prems(1-3)], of "v - 1" k] by blast
    then have p1: "bitvec_ok p1" "iSize p1 = sz" "iDivisor p1 \<noteq> 0"
      "rc OR rc1 = SQLITE_OK \<or> rc OR rc1 = SQLITE_NOMEM"
      using Cons.prems(2,3,5) by (auto simp: set_post_def SQLITE_OK_def SQLITE_NOMEM_def)
    obtain rc2 p2 k2 where 2: "BitvecSet_all set0 (rc OR rc1) k1 p1 vs = Some (rc2, p2, k2)"
      "bitvec_ok p2" "iSize p2 = sz" "iDivisor p2 \<noteq> 0" "bv_bits p2 \<subseteq> bv_bits p1 \<union> {j. j + 1 \<in> set vs}"
      "rc2 = SQLITE_OK \<longrightarrow> rc OR rc1 = SQLITE_OK \<and> bv_bits p2 = bv_bits p1 \<union> {j. j + 1 \<in> set vs}"
      "rc2 = SQLITE_OK \<or> rc2 = SQLITE_NOMEM"
      "(\<forall>k. alloc k) \<and> rc OR rc1 = SQLITE_OK \<longrightarrow> rc2 = SQLITE_OK"
      using Cons.IH [OF p1(1-3) _ p1(4), of k1] Cons.prems(4) by auto
    have v: "{j. j + 1 \<in> set (v # vs)} = insert (v - 1) {j. j + 1 \<in> set vs}" using False by auto
    have or: "rc OR rc1 = SQLITE_OK \<longleftrightarrow> rc = SQLITE_OK \<and> rc1 = SQLITE_OK"
      by (simp add: SQLITE_OK_def or_eq_0_iff)
    have "BitvecSet_all set0 rc k p (v # vs) = Some (rc2, p2, k2)" using False 1(1) 2(1) by simp
    moreover have "bv_bits p2 \<subseteq> bv_bits p \<union> {j. j + 1 \<in> set (v # vs)}"
      using 1(2) 2(5) unfolding v set_post_def by blast
    moreover have "rc2 = SQLITE_OK \<longrightarrow> rc = SQLITE_OK \<and> bv_bits p2 = bv_bits p \<union> {j. j + 1 \<in> set (v # vs)}"
      using 1(2) 2(6) unfolding v set_post_def or by auto
    moreover have "(\<forall>k. alloc k) \<and> rc = SQLITE_OK \<longrightarrow> rc2 = SQLITE_OK"
      using 1(2) 2(8) unfolding set_post_def or by blast
    ultimately show ?thesis using 2(2-4,7) by blast
  qed
qed

lemma hash_put_post:
  assumes p: "BITVEC_NBIT < sz" "hash_ok sz a" "used a \<le> ns" "ns + 1 < BITVEC_NINT" and "i < sz"
    and "first_free a (BITVEC_HASH i) m"
  shows "set_post alloc (Bitvec sz ns 0 (aHash a)) i SQLITE_OK
    (Bitvec sz (ns + 1) 0 (aHash (a[probe (BITVEC_HASH i) m := i + 1])))"
proof -
  let ?a = "a[probe (BITVEC_HASH i) m := i + 1]"
  have a: "hash_ok sz ?a" "stored ?a = insert (i + 1) (stored a)" "used ?a = used a + 1"
    using hash_put [OF p(2), of "i + 1" m] assms(5,6) by simp_all
  then have "bitvec_ok (Bitvec sz (ns + 1) 0 (aHash ?a))" using p by (intro bitvec_ok.hash) auto
  moreover have "bv_bits (Bitvec sz (ns + 1) 0 (aHash ?a)) = insert i (bv_bits (Bitvec sz ns 0 (aHash a)))"
    using p a by (subst (1 2) bv_bits_hash) auto
  ultimately show ?thesis by (simp add: set_post_def)
qed

lemma empty_node:
  assumes "BITVEC_NBIT < sz" "d = (sz + BITVEC_NPTR - 1) div BITVEC_NPTR"
  shows "bitvec_ok (Bitvec sz ns d (apSub (replicate BITVEC_NPTR None)))"
    and "bv_bits (Bitvec sz ns d (apSub (replicate BITVEC_NPTR None))) = {}"
proof -
  show "bitvec_ok (Bitvec sz ns d (apSub (replicate BITVEC_NPTR None)))"
    using assms by (intro bitvec_ok.node) auto
  show "bv_bits (Bitvec sz ns d (apSub (replicate BITVEC_NPTR None))) = {}"
    using assms node_divisor [OF assms] by (subst bv_bits_node) (auto simp: sub_bits_def)
qed

lemma rehash_ok:
  assumes sub: "\<And>q. bitvec_ok q \<Longrightarrow> iSize q = sz \<Longrightarrow> iDivisor q \<noteq> 0 \<Longrightarrow> sets alloc set0 q"
    and p: "BITVEC_NBIT < sz" "hash_ok sz a" "used a \<le> ns" "ns < BITVEC_NINT" and i: "i < sz"
    and h: "ns < BITVEC_MXHASH \<Longrightarrow> \<exists>m. first_free a (BITVEC_HASH i) m \<and> h = probe (BITVEC_HASH i) m"
  shows "\<exists>rc p' k'. BitvecSet_rehash set0 alloc k (Bitvec sz ns 0 (aHash a)) a h i = Some (rc, p', k') \<and>
    set_post alloc (Bitvec sz ns 0 (aHash a)) i rc p'"
proof (cases "ns < BITVEC_MXHASH")
  case True
  then have "ns + 1 < BITVEC_NINT" by (simp add: BITVEC_MXHASH_def BITVEC_NINT_def)
  then show ?thesis using True h hash_put_post [OF p(1-3) _ i]
    by (auto simp: BitvecSet_rehash_def)
next
  case full: False
  show ?thesis
  proof (cases "alloc k")
    case False
    then show ?thesis using full p
      by (auto simp: BitvecSet_rehash_def set_post_def intro!: bitvec_ok.hash)
  next
    case True
    define d where "d = (sz + BITVEC_NPTR - 1) div BITVEC_NPTR"
    define q where "q = Bitvec sz ns d (apSub (replicate BITVEC_NPTR None))"
    have "d \<noteq> 0" using node_divisor(1) [OF p(1) d_def] by simp
    then have q: "bitvec_ok q" "bv_bits q = {}" "iSize q = sz" "iDivisor q \<noteq> 0"
      using empty_node [OF p(1) d_def] by (simp_all add: q_def)
    obtain rc1 q1 k1 where 1: "set0 (k + 1) q i = Some (rc1, q1, k1)" "set_post alloc q i rc1 q1"
      using setsD [OF sub [OF q(1,3,4)], of i "k + 1"] i q(3) by auto
    then have q1: "bitvec_ok q1" "iSize q1 = sz" "iDivisor q1 \<noteq> 0" "rc1 = SQLITE_OK \<or> rc1 = SQLITE_NOMEM"
      "bv_bits q1 \<subseteq> {i}" "rc1 = SQLITE_OK \<longrightarrow> bv_bits q1 = {i}" "(\<forall>k. alloc k) \<longrightarrow> rc1 = SQLITE_OK"
      using q by (auto simp: set_post_def)
    have "\<forall>v\<in>set a. v \<le> sz" using p(2) by (simp add: hash_ok_def)
    from set_all [OF sub q1(1-3) this q1(4), of k1] obtain rc2 q2 k2 where
      2: "BitvecSet_all set0 rc1 k1 q1 a = Some (rc2, q2, k2)"
      "bitvec_ok q2" "iSize q2 = sz" "iDivisor q2 \<noteq> 0" "bv_bits q2 \<subseteq> bv_bits q1 \<union> {j. j + 1 \<in> set a}"
      "rc2 = SQLITE_OK \<longrightarrow> rc1 = SQLITE_OK \<and> bv_bits q2 = bv_bits q1 \<union> {j. j + 1 \<in> set a}"
      "rc2 = SQLITE_OK \<or> rc2 = SQLITE_NOMEM" "(\<forall>k. alloc k) \<and> rc1 = SQLITE_OK \<longrightarrow> rc2 = SQLITE_OK"
      by blast
    have bits: "bv_bits (Bitvec sz ns 0 (aHash a)) = {j. j + 1 \<in> set a}"
      using bv_bits_hash [OF p(1,2)] p(3,4) by (simp add: stored_def)
    have "BitvecSet_rehash set0 alloc k (Bitvec sz ns 0 (aHash a)) a h i = Some (rc2, q2, k2)"
      using full True 1(1) 2(1) by (simp add: BitvecSet_rehash_def d_def q_def)
    moreover have "set_post alloc (Bitvec sz ns 0 (aHash a)) i rc2 q2"
      unfolding set_post_def bits using 2(2-) q1(5-) by auto
    ultimately show ?thesis by blast
  qed
qed

lemma sets_hash:
  assumes sub: "\<And>q. bitvec_ok q \<Longrightarrow> iSize q = sz \<Longrightarrow> iDivisor q \<noteq> 0 \<Longrightarrow> sets alloc set0 q"
    and p: "BITVEC_NBIT < sz" "hash_ok sz a" "used a \<le> ns" "ns < BITVEC_NINT"
  shows "sets alloc (BitvecSet_body set0 alloc) (Bitvec sz ns 0 (aHash a))"
  unfolding sets_def
proof (intro allI impI)
  fix k i assume "i < iSize (Bitvec sz ns 0 (aHash a))"
  then have i: "i < sz" by simp
  let ?h = "BITVEC_HASH i"
  obtain m where m: "m < BITVEC_NINT" "first_free a ?h m"
    using hash_first_free [OF p(2), of ?h] p(3,4) by auto
  show "\<exists>rc p' k'. BitvecSet_body set0 alloc k (Bitvec sz ns 0 (aHash a)) i = Some (rc, p', k') \<and>
      set_post alloc (Bitvec sz ns 0 (aHash a)) i rc p'"
  proof (cases m)
    case 0
    then have free: "a ! ?h = 0" "first_free a ?h 0" using m by (simp_all add: first_free_def)
    show ?thesis
    proof (cases "ns < BITVEC_NINT - 1")
      case True
      then show ?thesis using p(1) free hash_put_post [OF p(1-3) _ i free(2)]
        by (simp add: BitvecSet_body_def BitvecSet_leaf_def)
    next
      case False
      then have "\<not> ns < BITVEC_MXHASH" by (simp add: BITVEC_MXHASH_def BITVEC_NINT_def)
      then show ?thesis using False p(1) free rehash_ok [OF sub p i, of ?h k]
        by (simp add: BitvecSet_body_def BitvecSet_leaf_def)
    qed
  next
    case (Suc n)
    then have used: "a ! ?h \<noteq> 0" "n < BITVEC_NINT" using m by (auto simp: first_free_Suc)
    have slot: "hash_slot BITVEC_NINT a ?h (i + 1) =
        Some (if i + 1 \<in> stored a then None else Some (probe ?h m))"
      using hash_slot_probe [of a ?h n BITVEC_NINT "i + 1"] stored_probe [OF p(2) m(2)] m Suc used by simp
    show ?thesis
    proof (cases "i + 1 \<in> stored a")
      case True
      then have "i \<in> bv_bits (Bitvec sz ns 0 (aHash a))" using bv_bits_hash [OF p(1,2)] p(3,4) by simp
      then have "set_post alloc (Bitvec sz ns 0 (aHash a)) i SQLITE_OK (Bitvec sz ns 0 (aHash a))"
        using p by (auto simp: set_post_def intro: bitvec_ok.hash)
      then show ?thesis using p(1) used slot True
        by (simp add: BitvecSet_body_def BitvecSet_leaf_def)
    next
      case False
      then show ?thesis using p(1) used slot m rehash_ok [OF sub p i, of "probe ?h m" k]
        by (auto simp: BitvecSet_body_def BitvecSet_leaf_def)
    qed
  qed
qed

declare bitvec_fuel.simps [simp del]

lemma BitvecSet0_sets:
  "bitvec_ok p \<Longrightarrow> bitvec_fuel (iSize p) \<le> (if iDivisor p \<noteq> 0 then n + 1 else n) \<Longrightarrow>
     sets alloc (BitvecSet0 n alloc) p"
proof (induction n arbitrary: p)
  case 0
  have "1 \<le> bitvec_fuel (iSize p)" "BITVEC_NBIT < iSize p \<Longrightarrow> 2 \<le> bitvec_fuel (iSize p)"
    by (simp_all add: bitvec_fuel.simps [of "iSize p"])
  moreover have "iDivisor p \<noteq> 0 \<Longrightarrow> BITVEC_NBIT < iSize p" using 0(1) by cases auto
  ultimately show ?case using 0(2) by (auto split: if_splits)
next
  case (Suc n)
  from Suc.prems(1) have "sets alloc (BitvecSet_body (BitvecSet0 n alloc) alloc) p"
  proof cases
    case (bitmap sz b ns)
    then show ?thesis by (simp add: sets_bitmap)
  next
    case (hash sz a ns)
    then have "bitvec_fuel sz \<le> n + 1" using Suc.prems(2) by simp
    then show ?thesis using hash Suc.IH by (simp add: sets_hash)
  next
    case (node sz d subs ns)
    then have "0 < d" using node_divisor(1) by blast
    then have "bitvec_fuel d \<le> n"
      using node Suc.prems(2) by (simp add: bitvec_fuel.simps [of sz])
    then show ?thesis unfolding node(1) using node(2-) Suc.IH by (intro sets_node) auto
  qed
  then show ?case by simp
qed

section \<open>Deletion is correct\<close>

lemma BitvecClear0_ok:
  "bitvec_ok p \<Longrightarrow> i < iSize p \<Longrightarrow>
     \<exists>p'. BitvecClear0 p i = Some p' \<and> bitvec_ok p' \<and> iSize p' = iSize p \<and> bv_bits p' = bv_bits p - {i}"
proof (induction p arbitrary: i rule: bitvec_ok.induct)
  case (bitmap sz b ns)
  have "bit (b[i div 8 := b ! (i div 8) AND NOT (push_bit (i AND 7) 1)] ! (j div 8)) (j mod 8) \<longleftrightarrow>
      j \<noteq> i \<and> bit (b ! (j div 8)) (j mod 8)" if "j < sz" for j
  proof -
    have and7: "i AND 7 = i mod 8"
      using take_bit_eq_mask [of 3 i] by (simp add: take_bit_eq_mod mask_eq_exp_minus_1)
    have "j = i \<longleftrightarrow> j div 8 = i div 8 \<and> j mod 8 = i mod 8" by (metis div_mod_decomp)
    moreover have "i div 8 < length b" "j mod 8 < 8" using bitmap
      by (auto simp: BITVEC_NBIT_def BITVEC_NELEM_def)
    ultimately show ?thesis
      by (cases "j div 8 = i div 8") (auto simp: and7 bit_simps push_bit_of_1)
  qed
  then show ?case using bitmap
    by (auto simp: bv_bits_bitmap BITVEC_NBIT_def BITVEC_NELEM_def intro!: bitvec_ok.bitmap)
next
  case (hash sz a ns)
  have zero: "hash_ok sz (replicate BITVEC_NINT 0)" "used (replicate BITVEC_NINT 0) = 0"
    "stored (replicate BITVEC_NINT 0) = {}" "\<forall>v\<in>set a. v \<le> sz"
    using hash(2) by (auto simp: hash_ok_def used_def stored_def)
  obtain ns' a' where a': "hash_rebuild i (replicate BITVEC_NINT 0) 0 a = Some (ns', a')" "hash_ok sz a'"
    "used a' = ns'" "ns' \<le> used a" "stored a' = stored a - {i + 1}"
    using hash_rebuild_ok [OF zero(1,2,4), of i] zero(2,3) hash(3,4) by auto
  have "bitvec_ok (Bitvec sz ns' 0 (aHash a'))" using hash(1,3,4) a' by (intro bitvec_ok.hash) auto
  moreover have "bv_bits (Bitvec sz ns' 0 (aHash a')) = bv_bits (Bitvec sz ns 0 (aHash a)) - {i}"
    using hash a' by (subst (1 2) bv_bits_hash) auto
  ultimately show ?case using hash(1) a'(1) by simp
next
  case (node sz d subs ns)
  then have d: "0 < d" "\<And>j. j < sz \<Longrightarrow> j div d < length subs \<and> j mod d < d" and i: "i < sz"
    using node_divisor [OF node(1,2)] by auto
  have ok: "\<forall>q. Some q \<in> set subs \<longrightarrow> iSize q = d \<and> bitvec_ok q" using node.IH by blast
  note bits = bv_bits_node [OF node(1-2)]
  have split: "j = i \<longleftrightarrow> j div d = i div d \<and> j mod d = i mod d" for j by (metis div_mod_decomp)
  show ?case
  proof (cases "subs ! (i div d)")
    case None
    then have "i \<notin> bv_bits (Bitvec sz ns d (apSub subs))"
      using bits [of subs] node(3) ok by (simp add: sub_bits_def)
    then show ?thesis using None d i node(1-3) ok by (auto intro: bitvec_ok.node)
  next
    case (Some q)
    then have "Some q \<in> set subs" using d(2) [OF i] by (metis nth_mem)
    then obtain q' where q': "BitvecClear0 q (i mod d) = Some q'" "bitvec_ok q'" "iSize q' = d"
      "bv_bits q' = bv_bits q - {i mod d}" using node.IH [rule_format, of q] d(2) [OF i] by blast
    let ?subs = "subs[i div d := Some q']"
    have new: "\<forall>r. Some r \<in> set ?subs \<longrightarrow> iSize r = d \<and> bitvec_ok r"
      using ok q' set_update_subset_insert [of subs "i div d" "Some q'"] by auto
    have "bitvec_ok (Bitvec sz ns d (apSub ?subs))" using node(1-3) new by (intro bitvec_ok.node) auto
    moreover have "bv_bits (Bitvec sz ns d (apSub ?subs)) = bv_bits (Bitvec sz ns d (apSub subs)) - {i}"
    proof -
      have "sub_bits (?subs ! (j div d)) = (if j div d = i div d then bv_bits q - {i mod d}
          else sub_bits (subs ! (j div d)))" if "j < sz" for j
        using d(2) [OF that] q'(4) by (simp add: sub_bits_def)
      then show ?thesis using bits [of subs] bits [of ?subs] node(3) ok new Some
        by (auto simp: split sub_bits_def split: if_splits)
    qed
    ultimately show ?thesis using Some d(1) d(2) [OF i] q'(1) by simp
  qed
qed

section \<open>The vector as a set\<close>

definition bitvec_inv :: "Bitvec \<Rightarrow> bool" where
  "bitvec_inv p \<longleftrightarrow> bitvec_ok p \<and> iSize p < 2 ^ 32"

definition bitvec_abs :: "Bitvec \<Rightarrow> nat \<Rightarrow> bool" where
  "bitvec_abs p i \<longleftrightarrow> 0 < i \<and> i - 1 \<in> bv_bits p"

lemma bitvec_test:
  assumes "bitvec_inv p"
  shows "sqlite3BitvecTest (Some p) i = Some (bitvec_abs p i)"
proof -
  have "i - 1 < iSize p \<Longrightarrow> BitvecTest0 p (i - 1) = Some (i - 1 \<in> bv_bits p)"
    using assms BitvecTest0_total [of p "i - 1"] by (auto simp: bitvec_inv_def bv_bits_def)
  then show ?thesis using assms
    by (auto simp: sqlite3BitvecTest_def sqlite3BitvecTestNotNull_def Let_def bitvec_abs_def
      bitvec_inv_def bv_bits_def)
qed

lemma bitvec_abs_upd:
  assumes "0 < i"
  shows "bv_bits p' \<subseteq> insert (i - 1) (bv_bits p) \<Longrightarrow> bitvec_abs p' j \<Longrightarrow> j = i \<or> bitvec_abs p j"
    and "bv_bits p' = insert (i - 1) (bv_bits p) \<Longrightarrow> bitvec_abs p' = (bitvec_abs p)(i := True)"
    and "bv_bits p' = bv_bits p - {i - 1} \<Longrightarrow> bitvec_abs p' = (bitvec_abs p)(i := False)"
proof -
  have eq: "0 < j \<Longrightarrow> j - 1 = i - 1 \<longleftrightarrow> j = i" for j using assms by auto
  show "bv_bits p' \<subseteq> insert (i - 1) (bv_bits p) \<Longrightarrow> bitvec_abs p' j \<Longrightarrow> j = i \<or> bitvec_abs p j"
    using eq [of j] by (auto simp: bitvec_abs_def)
  show "bv_bits p' = insert (i - 1) (bv_bits p) \<Longrightarrow> bitvec_abs p' = (bitvec_abs p)(i := True)"
    by (rule ext) (use assms eq in \<open>auto simp: bitvec_abs_def\<close>)
  show "bv_bits p' = bv_bits p - {i - 1} \<Longrightarrow> bitvec_abs p' = (bitvec_abs p)(i := False)"
    by (rule ext) (use assms eq in \<open>auto simp: bitvec_abs_def\<close>)
qed

lemma bitvec_set:
  assumes "bitvec_inv p" and "0 < i" and "i \<le> iSize p"
  obtains rc p' k' where "sqlite3BitvecSet alloc k (Some p) i = Some (rc, Some p', k')"
    "bitvec_inv p'" "iSize p' = iSize p" "rc = SQLITE_OK \<or> rc = SQLITE_NOMEM"
    "(\<forall>k. alloc k) \<longrightarrow> rc = SQLITE_OK" "\<And>j. bitvec_abs p' j \<Longrightarrow> j = i \<or> bitvec_abs p j"
    "rc = SQLITE_OK \<longrightarrow> bitvec_abs p' = (bitvec_abs p)(i := True)"
proof -
  have "sets alloc (BitvecSet0 (bitvec_fuel (iSize p)) alloc) p"
    using assms(1) by (intro BitvecSet0_sets) (auto simp: bitvec_inv_def)
  then obtain rc p' k' where set: "BitvecSet0 (bitvec_fuel (iSize p)) alloc k p (i - 1) = Some (rc, p', k')"
    and post: "set_post alloc p (i - 1) rc p'" using setsD [of alloc _ p "i - 1" k] assms(2,3) by fastforce
  show thesis
  proof (rule that)
    show "sqlite3BitvecSet alloc k (Some p) i = Some (rc, Some p', k')"
      using set by (simp add: sqlite3BitvecSet_def)
    show "j = i \<or> bitvec_abs p j" if "bitvec_abs p' j" for j
      using bitvec_abs_upd(1) [OF assms(2) _ that] post by (simp add: set_post_def)
    show "rc = SQLITE_OK \<longrightarrow> bitvec_abs p' = (bitvec_abs p)(i := True)"
      using bitvec_abs_upd(2) [OF assms(2)] post by (simp add: set_post_def)
  qed (use post assms(1) in \<open>auto simp: set_post_def bitvec_inv_def\<close>)
qed

lemma bitvec_clear:
  assumes "bitvec_inv p" and "0 < i" and "i \<le> iSize p"
  obtains p' where "sqlite3BitvecClear (Some p) i = Some (Some p')" "bitvec_inv p'" "iSize p' = iSize p"
    "bitvec_abs p' = (bitvec_abs p)(i := False)"
proof -
  have "bitvec_ok p" "i - 1 < iSize p" using assms by (auto simp: bitvec_inv_def)
  from BitvecClear0_ok [OF this] obtain p' where p': "BitvecClear0 p (i - 1) = Some p'" "bitvec_ok p'"
    "iSize p' = iSize p" "bv_bits p' = bv_bits p - {i - 1}" by blast
  show thesis
  proof (rule that)
    show "sqlite3BitvecClear (Some p) i = Some (Some p')" using p'(1) by (simp add: sqlite3BitvecClear_def)
    show "bitvec_abs p' = (bitvec_abs p)(i := False)"
      using bitvec_abs_upd(3) [OF assms(2) p'(4)] .
  qed (use p' assms(1) in \<open>auto simp: bitvec_inv_def\<close>)
qed

text \<open>An update of the set: a bit is stored with an allocator that succeeds, or cleared.\<close>

definition bitvec_put :: "(nat \<Rightarrow> bool) \<times> nat \<Rightarrow> Bitvec \<Rightarrow> nat \<Rightarrow> bool \<Rightarrow> Bitvec" where
  "bitvec_put m p i b =
     (if b then (case sqlite3BitvecSet (fst m) (snd m) (Some p) i of Some (rc, Some p', k') \<Rightarrow> p' | _ \<Rightarrow> p)
      else (case sqlite3BitvecClear (Some p) i of Some (Some p') \<Rightarrow> p' | _ \<Rightarrow> p))"

definition bitvec_fits :: "(nat \<Rightarrow> bool) \<times> nat \<Rightarrow> Bitvec \<Rightarrow> nat \<Rightarrow> bool" where
  "bitvec_fits m p i \<longleftrightarrow> (\<forall>k. fst m k) \<and> 0 < i \<and> i \<le> iSize p"

interpretation bitvec_store: map_store bitvec_inv bitvec_abs
  "\<lambda>p i. sqlite3BitvecTest (Some p) i = Some True" "\<lambda>i. i" bitvec_put bitvec_fits
proof
  show "(sqlite3BitvecTest (Some p) i = Some True) = bitvec_abs p i" if "bitvec_inv p" for p i
    using bitvec_test [OF that] by simp
  show "bitvec_inv (bitvec_put m p i b) \<and> bitvec_abs (bitvec_put m p i b) = (bitvec_abs p)(i := b)"
    if p: "bitvec_inv p" and fits: "bitvec_fits m p i" for m p i b
  proof (cases b)
    case True
    obtain rc p' k' where "sqlite3BitvecSet (fst m) (snd m) (Some p) i = Some (rc, Some p', k')"
      "bitvec_inv p'" "rc = SQLITE_OK" "rc = SQLITE_OK \<longrightarrow> bitvec_abs p' = (bitvec_abs p)(i := True)"
      using bitvec_set [OF p, of i "fst m" "snd m"] fits unfolding bitvec_fits_def by metis
    then show ?thesis using True by (simp add: bitvec_put_def)
  next
    case False
    obtain p' where "sqlite3BitvecClear (Some p) i = Some (Some p')" "bitvec_inv p'"
      "bitvec_abs p' = (bitvec_abs p)(i := False)"
      using bitvec_clear [OF p, of i] fits unfolding bitvec_fits_def by metis
    then show ?thesis using False by (simp add: bitvec_put_def)
  qed
qed

text \<open>
  C23. \<open>sqlite3BitvecSet\<close> on a well-formed vector returns, whatever the allocator does, either
  \<open>SQLITE_OK\<close> or \<open>SQLITE_NOMEM\<close>, and leaves a well-formed vector of the same size. On success
  exactly the bit asked for is added; on failure no other bit appears; and it succeeds when the
  allocator does. All of this holds through the switch from hash table to sub-vectors.
\<close>

theorem sqlite3BitvecSet_correct:
  assumes "bitvec_inv p" and "0 < i" and "i \<le> iSize p"
  shows "\<exists>rc p' k'. sqlite3BitvecSet alloc k (Some p) i = Some (rc, Some p', k') \<and>
    bitvec_inv p' \<and> sqlite3BitvecSize p' = sqlite3BitvecSize p \<and>
    (rc = SQLITE_OK \<or> rc = SQLITE_NOMEM) \<and> ((\<forall>k. alloc k) \<longrightarrow> rc = SQLITE_OK) \<and>
    (rc = SQLITE_OK \<longrightarrow>
       (\<forall>j. sqlite3BitvecTest (Some p') j = Some (j = i \<or> sqlite3BitvecTest (Some p) j = Some True))) \<and>
    (\<forall>j. sqlite3BitvecTest (Some p') j = Some True \<longrightarrow>
       j = i \<or> sqlite3BitvecTest (Some p) j = Some True)"
proof -
  obtain rc p' k' where r: "sqlite3BitvecSet alloc k (Some p) i = Some (rc, Some p', k')"
    "bitvec_inv p'" "iSize p' = iSize p" "rc = SQLITE_OK \<or> rc = SQLITE_NOMEM"
    "(\<forall>k. alloc k) \<longrightarrow> rc = SQLITE_OK" "\<And>j. bitvec_abs p' j \<Longrightarrow> j = i \<or> bitvec_abs p j"
    "rc = SQLITE_OK \<longrightarrow> bitvec_abs p' = (bitvec_abs p)(i := True)"
    using bitvec_set [OF assms, of alloc k] by metis
  then show ?thesis
    by (intro exI [of _ rc] exI [of _ p'] exI [of _ k'])
      (auto simp: bitvec_test [OF assms(1)] bitvec_test [OF r(2)] sqlite3BitvecSize_def)
qed

theorem sqlite3BitvecSet_correct_witness:
  "\<exists>rc p' k'. sqlite3BitvecSet (\<lambda>_. False) 0 (Some (sqlite3BitvecCreate 5000)) 4000 =
     Some (rc, Some p', k') \<and> bitvec_inv p'"
proof -
  have "bitvec_inv (sqlite3BitvecCreate 5000)" "4000 \<le> iSize (sqlite3BitvecCreate 5000)"
    by (simp_all add: bitvec_inv_def bits_create)
  from sqlite3BitvecSet_correct [OF this(1) _ this(2)] show ?thesis by (metis zero_less_numeral)
qed

text \<open>
  C9. Any sequence of insertions and deletions of indices between 1 and the size of a fresh
  vector, with an allocator that succeeds, makes the vector the set that the same sequence of
  updates gives: \<open>sqlite3BitvecTest\<close> terminates and decides membership in it for every index.
\<close>

theorem bitvec_sequence_refines_set:
  assumes "n < 2 ^ 32" and "puts_fit bitvec_put bitvec_fits ops (sqlite3BitvecCreate n)"
  shows "sqlite3BitvecTest (Some (puts bitvec_put ops (sqlite3BitvecCreate n))) i =
    Some (fold (\<lambda>(m, q, b) f. f(q := b)) ops (\<lambda>_. False) i)"
proof -
  have new: "bitvec_inv (sqlite3BitvecCreate n)" "bitvec_abs (sqlite3BitvecCreate n) = (\<lambda>_. False)"
    using assms(1) by (simp_all add: bitvec_inv_def bitvec_abs_def bits_create fun_eq_iff)
  show ?thesis using bitvec_store.puts_abs [OF new(1) assms(2)] by (simp add: bitvec_test new(2))
qed

theorem bitvec_sequence_refines_set_witness:
  "sqlite3BitvecTest (Some (puts bitvec_put [((\<lambda>_. True, 0), 7, True)] (sqlite3BitvecCreate 20))) 7 = Some True"
proof -
  have "puts_fit bitvec_put bitvec_fits [((\<lambda>_. True, 0), 7, True)] (sqlite3BitvecCreate 20)"
    by (simp add: bitvec_fits_def bits_create)
  from bitvec_sequence_refines_set [OF _ this, of 7] show ?thesis by simp
qed

end
