(* ===== verification/IntMath.thy ===== *)
theory IntMath
  imports Prelude
begin

text \<open>
  Overflow-checked 64-bit arithmetic and the logarithmic cost estimates of \<open>util.c\<close>. Signed C
  integers are mathematical integers, and every signed operation of the source is checked: a
  result outside the range of its type, which is undefined behaviour in C, is \<open>None\<close>. Of the
  checked operations the portable branches are modelled.
\<close>

section \<open>Checked arithmetic\<close>

definition LARGEST_INT64 :: int where "LARGEST_INT64 = 2 ^ 63 - 1"
definition SMALLEST_INT64 :: int where "SMALLEST_INT64 = - (2 ^ 63)"

definition in_i64 :: "int \<Rightarrow> bool" where
  "in_i64 x \<longleftrightarrow> SMALLEST_INT64 \<le> x \<and> x \<le> LARGEST_INT64"

definition chk64 :: "int \<Rightarrow> int option" where
  "chk64 x = (if in_i64 x then Some x else None)"

definition store64 :: "int \<Rightarrow> (int \<times> int) option" where
  "store64 x = map_option (\<lambda>r. (0, r)) (chk64 x)"

text \<open>The results are the return code and the new value of \<open>*pA\<close>.\<close>

definition sqlite3AddInt64 :: "int \<Rightarrow> int \<Rightarrow> (int \<times> int) option" where
  "sqlite3AddInt64 iA iB =
     (if iB \<ge> 0 then
        (if iA > 0 then
           Option.bind (chk64 (LARGEST_INT64 - iA)) (\<lambda>room.
             if room < iB then Some (1, iA) else store64 (iA + iB))
         else store64 (iA + iB))
      else
        (if iA < 0 then
           Option.bind (chk64 (iA + LARGEST_INT64)) (\<lambda>s.
           Option.bind (chk64 (- s)) (\<lambda>m.
           Option.bind (chk64 (iB + 1)) (\<lambda>t.
             if m > t then Some (1, iA) else store64 (iA + iB))))
         else store64 (iA + iB)))"

definition sqlite3SubInt64 :: "int \<Rightarrow> int \<Rightarrow> (int \<times> int) option" where
  "sqlite3SubInt64 iA iB =
     (if iB = SMALLEST_INT64 then
        (if iA \<ge> 0 then Some (1, iA) else store64 (iA - iB))
      else Option.bind (chk64 (- iB)) (\<lambda>n. sqlite3AddInt64 iA n))"

definition sqlite3MulInt64 :: "int \<Rightarrow> int \<Rightarrow> (int \<times> int) option" where
  "sqlite3MulInt64 iA iB =
     (if iB > 0 then
        Option.bind (chk64 (LARGEST_INT64 sdiv iB)) (\<lambda>hi.
        if iA > hi then Some (1, iA)
        else Option.bind (chk64 (SMALLEST_INT64 sdiv iB)) (\<lambda>lo.
          if iA < lo then Some (1, iA) else store64 (iA * iB)))
      else if iB < 0 then
        (if iA > 0 then
           Option.bind (chk64 (SMALLEST_INT64 sdiv iA)) (\<lambda>lo.
             if iB < lo then Some (1, iA) else store64 (iA * iB))
         else if iA < 0 then
           (if iB = SMALLEST_INT64 then Some (1, iA)
            else if iA = SMALLEST_INT64 then Some (1, iA)
            else Option.bind (chk64 (- iA)) (\<lambda>a.
                 Option.bind (chk64 (- iB)) (\<lambda>b.
                 Option.bind (chk64 (LARGEST_INT64 sdiv b)) (\<lambda>hi.
                   if a > hi then Some (1, iA) else store64 (iA * iB)))))
         else store64 (iA * iB))
      else store64 (iA * iB))"

definition sqlite3AbsInt32 :: "int \<Rightarrow> int" where
  "sqlite3AbsInt32 x =
     (if x \<ge> 0 then x else if x = - (2 ^ 31) then 0x7fffffff else - x)"

section \<open>Logarithmic estimates\<close>

text \<open>A \<open>LogEst\<close> is a signed 16-bit integer; results are converted to it on return.\<close>

definition to_i16 :: "int \<Rightarrow> int" where
  "to_i16 x = signed_take_bit 15 x"

definition LogEstAdd_x :: "int list" where
  "LogEstAdd_x = [10, 10, 9, 9, 8, 8, 7, 7, 7, 6, 6, 6, 5, 5, 5, 4, 4, 4, 4,
     3, 3, 3, 3, 3, 3, 2, 2, 2, 2, 2, 2, 2]"

definition sqlite3LogEstAdd :: "int \<Rightarrow> int \<Rightarrow> int" where
  "sqlite3LogEstAdd a b =
     (if a \<ge> b then
        (if a > b + 49 then a
         else if a > b + 31 then to_i16 (a + 1)
         else to_i16 (a + LogEstAdd_x ! nat (a - b)))
      else
        (if b > a + 49 then b
         else if b > a + 31 then to_i16 (b + 1)
         else to_i16 (b + LogEstAdd_x ! nat (b - a))))"

definition LogEst_a :: "int list" where
  "LogEst_a = [0, 2, 3, 5, 6, 7, 8, 9]"

function LogEst_up :: "nat \<Rightarrow> int \<Rightarrow> nat \<times> int" where
  "LogEst_up x y = (if 0 < x \<and> x < 8 then LogEst_up (x * 2) (y - 10) else (x, y))"
  by pat_completeness auto
termination
  by (relation "measure (\<lambda>(x, y). 8 - x)") auto

fun LogEst_down4 :: "nat \<Rightarrow> int \<Rightarrow> nat \<times> int" where
  "LogEst_down4 x y = (if x > 255 then LogEst_down4 (x div 16) (y + 40) else (x, y))"

fun LogEst_down1 :: "nat \<Rightarrow> int \<Rightarrow> nat \<times> int" where
  "LogEst_down1 x y = (if x > 15 then LogEst_down1 (x div 2) (y + 10) else (x, y))"

declare LogEst_up.simps [simp del] LogEst_down4.simps [simp del] LogEst_down1.simps [simp del]

definition sqlite3LogEst :: "nat \<Rightarrow> int" where
  "sqlite3LogEst x =
     (if x < 2 then 0
      else let (x, y) = (if x < 8 then LogEst_up x 40
                         else let (x, y) = LogEst_down4 x 40 in LogEst_down1 x y)
           in LogEst_a ! (x AND 7) + y - 10)"

definition sqlite3LogEstToInt :: "int \<Rightarrow> u64" where
  "sqlite3LogEstToInt x =
     (let n = word_of_int (x smod 10) :: u64;
          x = x sdiv 10;
          n = (if n \<ge> 5 then n - 2 else if n \<ge> 1 then n - 1 else n)
      in if x > 60 then word_of_int LARGEST_INT64
         else if x \<ge> 3 then push_bit (nat (x - 3)) (n + 8)
         else drop_bit (nat (3 - x)) (n + 8))"

section \<open>Checked arithmetic is exact\<close>

lemmas i64_bounds = in_i64_def LARGEST_INT64_def SMALLEST_INT64_def

lemma AddInt64_exact:
  assumes "in_i64 a" and "in_i64 b"
  shows "sqlite3AddInt64 a b = Some (if in_i64 (a + b) then (0, a + b) else (1, a))"
  using assms by (auto simp: sqlite3AddInt64_def chk64_def store64_def i64_bounds)

lemma SubInt64_exact:
  assumes "in_i64 a" and "in_i64 b"
  shows "sqlite3SubInt64 a b = Some (if in_i64 (a - b) then (0, a - b) else (1, a))"
proof (cases "b = SMALLEST_INT64")
  case True
  then show ?thesis using assms by (auto simp: sqlite3SubInt64_def chk64_def store64_def i64_bounds)
next
  case False
  then have "in_i64 (- b)" using assms(2) by (auto simp: i64_bounds)
  then show ?thesis using False AddInt64_exact [OF assms(1), of "- b"]
    by (simp add: sqlite3SubInt64_def chk64_def)
qed

lemma sdiv_pos: "0 < (b::int) \<Longrightarrow> 0 \<le> a \<Longrightarrow> a sdiv b = a div b"
  by (simp add: signed_divide_int_def sgn_if)

lemma sdiv_neg_pos: "0 < (b::int) \<Longrightarrow> 0 < a \<Longrightarrow> (- a) sdiv b = - (a div b)"
  by (simp add: signed_divide_int_def sgn_if)

lemma less_div_iff:
  assumes "0 < (b::int)"
  shows "m div b < a \<longleftrightarrow> m < a * b"
proof -
  have "a \<le> m div b \<longleftrightarrow> a * b \<le> m"
  proof
    assume "a \<le> m div b"
    then have "a * b \<le> m div b * b" using assms by (intro mult_right_mono) auto
    also have "\<dots> \<le> m" using assms pos_mod_sign [of b m] div_mult_mod_eq [of m b] by linarith
    finally show "a * b \<le> m" .
  next
    assume "a * b \<le> m"
    then have "a * b div b \<le> m div b" using assms by (intro zdiv_mono1) auto
    then show "a \<le> m div b" using assms by simp
  qed
  then show ?thesis by linarith
qed

lemma quotient_in_i64:
  assumes "0 < b"
  shows "chk64 (LARGEST_INT64 sdiv b) = Some (LARGEST_INT64 div b)"
    and "chk64 (SMALLEST_INT64 sdiv b) = Some (- (2 ^ 63 div b))"
proof -
  have "0 \<le> LARGEST_INT64 div b" "LARGEST_INT64 div b \<le> LARGEST_INT64"
    "0 \<le> (2 ^ 63 :: int) div b" "(2 ^ 63 :: int) div b \<le> 2 ^ 63"
    using assms zdiv_mono2 [of LARGEST_INT64 1 b] zdiv_mono2 [of "2 ^ 63" 1 b]
    by (auto simp: LARGEST_INT64_def pos_imp_zdiv_nonneg_iff)
  then show "chk64 (LARGEST_INT64 sdiv b) = Some (LARGEST_INT64 div b)"
    "chk64 (SMALLEST_INT64 sdiv b) = Some (- (2 ^ 63 div b))"
    using assms sdiv_pos [of b LARGEST_INT64] sdiv_neg_pos [of b "2 ^ 63"]
    by (auto simp: chk64_def in_i64_def SMALLEST_INT64_def LARGEST_INT64_def)
qed

lemma quotient_tests:
  assumes "0 < b"
  shows "LARGEST_INT64 div b < a \<longleftrightarrow> LARGEST_INT64 < a * b"
    and "a < - (2 ^ 63 div b) \<longleftrightarrow> a * b < SMALLEST_INT64"
  using less_div_iff [OF assms, of LARGEST_INT64 a] less_div_iff [OF assms, of "2 ^ 63" "- a"]
  by (simp_all add: SMALLEST_INT64_def) linarith

lemma MulInt64_exact:
  assumes "in_i64 a" and "in_i64 b"
  shows "sqlite3MulInt64 a b = Some (if in_i64 (a * b) then (0, a * b) else (1, a))"
proof -
  consider "b > 0" | "b = 0" | "b < 0" "a = 0" | "b < 0" "a > 0" | "b < 0" "a < 0" by linarith
  then show ?thesis
  proof cases
    case 1
    then have "sqlite3MulInt64 a b = (if LARGEST_INT64 < a * b then Some (1, a)
        else if a * b < SMALLEST_INT64 then Some (1, a) else store64 (a * b))"
      by (simp only: sqlite3MulInt64_def quotient_in_i64 quotient_tests if_True Option.bind_lunit)
    then show ?thesis by (simp add: store64_def chk64_def in_i64_def)
  next
    case 4
    have "a * b \<le> 0" using 4 by (simp add: mult_nonneg_nonpos)
    moreover have "\<not> b > 0" using 4 by simp
    then have "sqlite3MulInt64 a b = (if b * a < SMALLEST_INT64 then Some (1, a) else store64 (a * b))"
      using 4 by (simp only: sqlite3MulInt64_def quotient_in_i64 quotient_tests if_True if_False
        Option.bind_lunit)
    ultimately show ?thesis
      by (simp add: store64_def chk64_def in_i64_def LARGEST_INT64_def mult.commute)
  next
    case 5
    have pos: "0 < a * b" using 5 by (simp add: mult_neg_neg)
    show ?thesis
    proof (cases "a = SMALLEST_INT64 \<or> b = SMALLEST_INT64")
      case True
      have "2 ^ 63 * 1 \<le> (- a) * (- b)"
      proof (cases "a = SMALLEST_INT64")
        case True
        then show ?thesis using 5 by (intro mult_mono) (auto simp: SMALLEST_INT64_def)
      next
        case False
        with \<open>a = SMALLEST_INT64 \<or> b = SMALLEST_INT64\<close> have "1 * 2 ^ 63 \<le> (- a) * (- b)"
          using 5 by (intro mult_mono) (auto simp: SMALLEST_INT64_def)
        then show ?thesis by simp
      qed
      then show ?thesis using True 5 by (auto simp: sqlite3MulInt64_def in_i64_def LARGEST_INT64_def)
    next
      case False
      then have "in_i64 (- a)" "in_i64 (- b)" using assms by (auto simp: i64_bounds)
      then have "chk64 (- a) = Some (- a)" "chk64 (- b) = Some (- b)" by (simp_all add: chk64_def)
      moreover have "\<not> b > 0" "\<not> a > 0" "- b > 0" using 5 by simp_all
      ultimately have "sqlite3MulInt64 a b =
          (if LARGEST_INT64 < - a * - b then Some (1, a) else store64 (a * b))"
        using 5 False by (simp only: sqlite3MulInt64_def quotient_in_i64 quotient_tests if_True if_False
          Option.bind_lunit de_Morgan_disj)
      then show ?thesis using pos by (simp add: store64_def chk64_def in_i64_def SMALLEST_INT64_def)
    qed
  qed (auto simp: sqlite3MulInt64_def store64_def chk64_def i64_bounds)
qed

section \<open>Estimates are logarithms\<close>

fun ilog2 :: "nat \<Rightarrow> nat" where
  "ilog2 x = (if x < 2 then 0 else ilog2 (x div 2) + 1)"

declare ilog2.simps [simp del]

lemma ilog2_bounds: "2 ^ ilog2 x \<le> max 1 x \<and> x < 2 ^ (ilog2 x + 1)"
proof (induction x rule: ilog2.induct)
  case (1 x)
  then show ?case by (cases "x < 2") (auto simp: ilog2.simps [of x])
qed

lemma ilog2_half: "2 \<le> x \<Longrightarrow> ilog2 x = ilog2 (x div 2) + 1"
  by (subst ilog2.simps) simp

definition log_step :: "nat \<Rightarrow> int \<Rightarrow> nat \<Rightarrow> int \<Rightarrow> bool" where
  "log_step x y x' y' \<longleftrightarrow> y' + 10 * int (ilog2 x') = y + 10 * int (ilog2 x)"

lemma ilog2_div16: "16 \<le> x \<Longrightarrow> ilog2 x = ilog2 (x div 16) + 4"
  using ilog2_half [of x] ilog2_half [of "x div 2"] ilog2_half [of "x div 2 div 2"]
    ilog2_half [of "x div 2 div 2 div 2"] by (simp add: div_mult2_eq [symmetric])

lemma ilog2_8: "8 \<le> x \<Longrightarrow> x \<le> 15 \<Longrightarrow> ilog2 x = 3"
  using ilog2_half [of x] ilog2_half [of "x div 2"] ilog2_half [of "x div 2 div 2"]
    ilog2.simps [of "x div 2 div 2 div 2"] div_less_iff_less_mult [of 8 x 2]
  by (simp add: div_mult2_eq [symmetric])

lemma LogEst_down4_step:
  "8 \<le> x \<Longrightarrow> LogEst_down4 x y = (x', y') \<Longrightarrow> 8 \<le> x' \<and> log_step x y x' y'"
proof (induction x y rule: LogEst_down4.induct)
  case (1 x y)
  show ?case
  proof (cases "x > 255")
    case True
    then have "8 \<le> x div 16" "LogEst_down4 (x div 16) (y + 40) = (x', y')"
      using 1(3) by (auto simp: LogEst_down4.simps [of x])
    then show ?thesis using 1(1) [OF True] ilog2_div16 [of x] True by (simp add: log_step_def)
  next
    case False
    then show ?thesis using 1(2,3) by (simp add: LogEst_down4.simps [of x] log_step_def)
  qed
qed

lemma LogEst_down1_step:
  "8 \<le> x \<Longrightarrow> LogEst_down1 x y = (x', y') \<Longrightarrow> 8 \<le> x' \<and> x' \<le> 15 \<and> log_step x y x' y'"
proof (induction x y rule: LogEst_down1.induct)
  case (1 x y)
  show ?case
  proof (cases "x > 15")
    case True
    then have "8 \<le> x div 2" "LogEst_down1 (x div 2) (y + 10) = (x', y')"
      using 1(3) by (auto simp: LogEst_down1.simps [of x])
    then show ?thesis using 1(1) [OF True] ilog2_half [of x] True by (simp add: log_step_def)
  next
    case False
    then show ?thesis using 1(2,3) by (simp add: LogEst_down1.simps [of x] log_step_def)
  qed
qed

lemma LogEst_up_step:
  "0 < x \<Longrightarrow> x \<le> 15 \<Longrightarrow> LogEst_up x y = (x', y') \<Longrightarrow> 8 \<le> x' \<and> x' \<le> 15 \<and> log_step x y x' y'"
proof (induction x y rule: LogEst_up.induct)
  case (1 x y)
  show ?case
  proof (cases "x < 8")
    case True
    then have "LogEst_up (x * 2) (y - 10) = (x', y')" using 1(2,4) by (simp add: LogEst_up.simps [of x])
    then show ?thesis using 1 True ilog2_half [of "x * 2"] by (simp add: log_step_def mult.commute)
  next
    case False
    then show ?thesis using 1(2-) by (simp add: LogEst_up.simps [of x] log_step_def)
  qed
qed

lemma LogEst_a_range: "i < 8 \<Longrightarrow> 0 \<le> LogEst_a ! i \<and> LogEst_a ! i \<le> 9"
  by (auto simp: LogEst_a_def less_Suc_eq numeral_eq_Suc)

text \<open>
  C30. The checked 64-bit operations never overflow in an intermediate result, and are exact: the
  sum, difference or product is stored with return code 0 if it is representable, and otherwise
  the operand is left unchanged with return code 1.
\<close>

theorem checked_arithmetic_exact:
  assumes "in_i64 a" and "in_i64 b"
  shows "sqlite3AddInt64 a b = Some (if in_i64 (a + b) then (0, a + b) else (1, a)) \<and>
    sqlite3SubInt64 a b = Some (if in_i64 (a - b) then (0, a - b) else (1, a)) \<and>
    sqlite3MulInt64 a b = Some (if in_i64 (a * b) then (0, a * b) else (1, a))"
  using AddInt64_exact [OF assms] SubInt64_exact [OF assms] MulInt64_exact [OF assms] by blast

theorem checked_arithmetic_exact_witness:
  "in_i64 SMALLEST_INT64 \<and> in_i64 (- 1) \<and>
   sqlite3MulInt64 SMALLEST_INT64 (- 1) = Some (1, SMALLEST_INT64)"
  using checked_arithmetic_exact [of SMALLEST_INT64 "- 1"] by (simp add: i64_bounds)

text \<open>The loops of \<open>sqlite3LogEst\<close> scale the argument to four bits.\<close>

definition scaled :: "nat \<Rightarrow> nat \<Rightarrow> bool" where
  "scaled x x' \<longleftrightarrow> (if 3 \<le> ilog2 x then x' = x div 2 ^ (ilog2 x - 3) else x' = x * 2 ^ (3 - ilog2 x))"

lemma scaled_down:
  assumes "x' = x div 2 ^ j" "8 \<le> x'" "x' \<le> 15"
  shows "scaled x x'"
proof -
  have "ilog2 x = 3 + j" using assms
  proof (induction j arbitrary: x)
    case 0
    then show ?case using ilog2_8 by simp
  next
    case (Suc j)
    have d: "x' = x div 2 div 2 ^ j" using Suc.prems(1) by (simp add: div_mult2_eq)
    have "8 \<le> x div 2" using d Suc.prems(2) div_le_dividend order_trans by blast
    then show ?case using Suc.IH [OF d Suc.prems(2,3)] ilog2_half [of x] by simp
  qed
  then show ?thesis using assms(1) by (simp add: scaled_def)
qed

lemma scaled_up:
  assumes "x' = x * 2 ^ j" "8 \<le> x'" "x' \<le> 15"
  shows "scaled x x'"
proof -
  have "ilog2 x + j = 3" using assms
  proof (induction j arbitrary: x)
    case 0
    then show ?case using ilog2_8 by simp
  next
    case (Suc j)
    have "ilog2 (x * 2) + j = 3" by (rule Suc.IH) (use Suc.prems in simp_all)
    moreover have "0 < x" using Suc.prems(1,2) by (cases x) auto
    ultimately show ?case using ilog2_half [of "x * 2"] by simp
  qed
  then have "ilog2 x = 3 - j" "j \<le> 3" by simp_all
  then show ?thesis using assms(1) by (cases "j = 0") (auto simp: scaled_def)
qed

lemma LogEst_down4_div: "LogEst_down4 x y = (x', y') \<Longrightarrow> \<exists>j. x' = x div 2 ^ j"
proof (induction x y rule: LogEst_down4.induct)
  case (1 x y)
  show ?case
  proof (cases "x > 255")
    case True
    then obtain j where "x' = x div 16 div 2 ^ j" using 1 by (auto simp: LogEst_down4.simps [of x])
    then have "x' = x div 2 ^ (4 + j)" by (simp add: div_mult2_eq power_add)
    then show ?thesis ..
  next
    case False
    then have "x' = x div 2 ^ 0" using 1(2) by (simp add: LogEst_down4.simps [of x])
    then show ?thesis ..
  qed
qed

lemma LogEst_down1_div: "LogEst_down1 x y = (x', y') \<Longrightarrow> \<exists>j. x' = x div 2 ^ j"
proof (induction x y rule: LogEst_down1.induct)
  case (1 x y)
  show ?case
  proof (cases "x > 15")
    case True
    then obtain j where "x' = x div 2 div 2 ^ j" using 1 by (auto simp: LogEst_down1.simps [of x])
    then have "x' = x div 2 ^ (1 + j)" by (simp add: div_mult2_eq power_add)
    then show ?thesis ..
  next
    case False
    then have "x' = x div 2 ^ 0" using 1(2) by (simp add: LogEst_down1.simps [of x])
    then show ?thesis ..
  qed
qed

lemma LogEst_up_mult: "LogEst_up x y = (x', y') \<Longrightarrow> \<exists>j. x' = x * 2 ^ j"
proof (induction x y rule: LogEst_up.induct)
  case (1 x y)
  show ?case
  proof (cases "0 < x \<and> x < 8")
    case True
    then obtain j where "x' = x * 2 * 2 ^ j" using 1 by (auto simp: LogEst_up.simps [of x])
    then have "x' = x * 2 ^ (1 + j)" by simp
    then show ?thesis ..
  next
    case False
    then have "LogEst_up x y = (x, y)" by (subst LogEst_up.simps) (rule if_not_P)
    then have "x' = x * 2 ^ 0" using 1(2) by simp
    then show ?thesis ..
  qed
qed

lemma sqlite3LogEst_scaled:
  assumes "2 \<le> x"
  obtains n where "8 \<le> n" "n \<le> 15" "scaled x n" "sqlite3LogEst x = 10 * int (ilog2 x) + LogEst_a ! (n - 8)"
proof -
  obtain x' y' where xy: "(if x < 8 then LogEst_up x 40
      else let (x, y) = LogEst_down4 x 40 in LogEst_down1 x y) = (x', y')" by fastforce
  have s: "8 \<le> x' \<and> x' \<le> 15 \<and> log_step x 40 x' y' \<and> scaled x x'"
  proof (cases "x < 8")
    case True
    then have "LogEst_up x 40 = (x', y')" using xy by simp
    then show ?thesis using LogEst_up_step [of x 40] LogEst_up_mult [of x 40] scaled_up True assms by auto
  next
    case False
    obtain x1 y1 where 1: "LogEst_down4 x 40 = (x1, y1)" by fastforce
    then have 2: "LogEst_down1 x1 y1 = (x', y')" using xy False by simp
    have r: "8 \<le> x1" "log_step x 40 x1 y1" "8 \<le> x'" "x' \<le> 15" "log_step x1 y1 x' y'"
      using LogEst_down4_step [OF _ 1] LogEst_down1_step [OF _ 2] False by auto
    obtain i j where "x1 = x div 2 ^ i" "x' = x1 div 2 ^ j" using LogEst_down4_div [OF 1] LogEst_down1_div [OF 2] by blast
    then have "x' = x div 2 ^ (i + j)" by (simp add: div_mult2_eq power_add)
    then show ?thesis using r scaled_down by (auto simp: log_step_def)
  qed
  then have y: "y' = 10 * int (ilog2 x) + 10" by (auto simp: log_step_def ilog2_8)
  have "x' AND 7 = x' - 8"
    using take_bit_eq_mask [of 3 x'] s by (simp add: take_bit_eq_mod mask_eq_exp_minus_1 mod_if split: if_splits)
  then have "sqlite3LogEst x = 10 * int (ilog2 x) + LogEst_a ! (x' - 8)" using xy y assms by (auto simp: sqlite3LogEst_def Let_def)
  then show ?thesis using that s by blast
qed

end
