(* ===== verification/Estimates.thy ===== *)
theory Estimates
  imports IntMath Complex_Main
begin

text \<open>
  What the estimates of \<open>sqlite3LogEst\<close> (\<open>util.c\<close>, modelled in \<open>IntMath\<close>) are, in terms of the real logarithm.
\<close>

section \<open>The table\<close>

lemma round_log_eighth:
  fixes n t :: nat
  assumes "0 < n" "2 ^ (2 * t) * 8 ^ 20 \<le> 2 * n ^ 20" "n ^ 20 < 2 * (2 ^ (2 * t) * 8 ^ 20)"
  shows "round (10 * (log 2 (real n) - 3)) = int t"
proof -
  have l: "log 2 (real (2 ^ (2 * t) * 8 ^ 20)) = 2 * real t + 60"
  proof -
    have "real (2 ^ (2 * t) * 8 ^ 20) = 2 powr (2 * real t + 60)" by (simp add: powr_add powr_realpow [symmetric] powr_mult_base)
    then show ?thesis by (simp only: log_powr_cancel)
  qed
  have n: "log 2 (real (n ^ 20)) = 20 * log 2 (real n)" using assms(1) by (simp add: log_nat_power)
  have "log 2 (real (2 ^ (2 * t) * 8 ^ 20)) \<le> log 2 (real (2 * n ^ 20))" using assms(1,2) by (subst log_le_cancel_iff) (auto simp del: of_nat_mult of_nat_power)
  also have "\<dots> = 1 + 20 * log 2 (real n)" using assms(1) n by (simp add: log_mult)
  finally have 1: "2 * real t + 60 \<le> 1 + 20 * log 2 (real n)" using l by simp
  have "log 2 (real (n ^ 20)) < log 2 (real (2 * (2 ^ (2 * t) * 8 ^ 20)))" using assms(1,3) by (subst log_less_cancel_iff) (auto simp del: of_nat_mult of_nat_power)
  also have "\<dots> = 1 + log 2 (real (2 ^ (2 * t) * 8 ^ 20))"
    using log_mult [of 2 "real (2 ^ (2 * t) * 8 ^ 20)" 2] by (simp del: mult_numeral_1)
  finally have 2: "20 * log 2 (real n) < 1 + (2 * real t + 60)" using l n by simp
  show ?thesis unfolding round_def by (rule floor_unique) (use 1 2 in simp_all)
qed

text \<open>Each entry of the table is the rounded logarithm, in powers instead of logarithms.\<close>

lemma LogEst_a_powers:
  "list_all (\<lambda>n. let t = nat (LogEst_a ! (n - 8)) in
     0 \<le> LogEst_a ! (n - 8) \<and> 2 ^ (2 * t) * 8 ^ 20 \<le> 2 * n ^ 20 \<and> n ^ 20 < 2 * (2 ^ (2 * t) * 8 ^ 20)) [8..<16]"
  by (simp add: LogEst_a_def Let_def)

lemma LogEst_a_round:
  assumes "8 \<le> n" "n \<le> 15"
  shows "round (10 * (log 2 (real n) - 3)) = LogEst_a ! (n - 8)"
proof -
  have "n \<in> set [8..<16]" unfolding set_upt using assms by simp
  then have "0 \<le> LogEst_a ! (n - 8)" "round (10 * (log 2 (real n) - 3)) = int (nat (LogEst_a ! (n - 8)))"
    using LogEst_a_powers assms(1) by (auto simp only: list_all_iff Let_def intro!: round_log_eighth)
  then show ?thesis by simp
qed

section \<open>The estimate\<close>

text \<open>The argument with all but its four leading binary digits cleared.\<close>

definition top4 :: "nat \<Rightarrow> nat" where
  "top4 x = x div 2 ^ (ilog2 x - 3) * 2 ^ (ilog2 x - 3)"

lemma log_top4:
  assumes "0 < x" "scaled x n" "8 \<le> n"
  shows "10 * log 2 (real (top4 x)) = 10 * (log 2 (real n) - 3) + real_of_int (10 * int (ilog2 x))"
proof (cases "3 \<le> ilog2 x")
  case True
  then have "top4 x = n * 2 ^ (ilog2 x - 3)" using assms(2) by (simp add: top4_def scaled_def)
  then have "log 2 (real (top4 x)) = log 2 (real n) + real (ilog2 x - 3)" using assms(3) by (simp add: log_mult log_nat_power)
  then show ?thesis using True by (simp add: of_nat_diff)
next
  case False
  then have "top4 x = x" "n = x * 2 ^ (3 - ilog2 x)" using assms(2) by (simp_all add: top4_def scaled_def)
  then have "log 2 (real n) = log 2 (real (top4 x)) + real (3 - ilog2 x)" using assms(1) by (simp add: log_mult log_nat_power)
  then show ?thesis using False by (simp add: of_nat_diff)
qed

lemma round_add_int: "round (a + real_of_int k) = round a + k"
  unfolding round_def using floor_add_int [of "a + 1 / 2" k] by (simp add: algebra_simps)

lemma sqlite3LogEst_round:
  assumes "0 < x"
  shows "sqlite3LogEst x = round (10 * log 2 (real (top4 x)))"
proof (cases "x = 1")
  case True
  have "ilog2 1 = 0" by (simp add: ilog2.simps)
  then show ?thesis using True by (simp add: sqlite3LogEst_def top4_def)
next
  case False
  then have "2 \<le> x" using assms by simp
  then obtain n where n: "8 \<le> n" "n \<le> 15" "scaled x n" "sqlite3LogEst x = 10 * int (ilog2 x) + LogEst_a ! (n - 8)"
    by (rule sqlite3LogEst_scaled)
  show ?thesis unfolding log_top4 [OF assms n(3,1)] round_add_int LogEst_a_round [OF n(1,2)] n(4) by simp
qed

lemma top4_bounds:
  assumes "0 < x"
  shows "0 < top4 x" "top4 x \<le> x" "8 * x < 9 * top4 x"
proof -
  have b: "2 ^ ilog2 x \<le> x" using ilog2_bounds [of x] assms by (simp add: max_def split: if_splits)
  have "0 < top4 x \<and> top4 x \<le> x \<and> 8 * x < 9 * top4 x"
  proof (cases "3 \<le> ilog2 x")
    case True
    define p where "p = (2::nat) ^ (ilog2 x - 3)"
    have p: "0 < p" by (simp add: p_def)
    have "8 * p = 2 ^ (3 + (ilog2 x - 3))" by (simp only: p_def power_add) simp
    then have "8 * p \<le> x" using b True by simp
    then have q: "8 \<le> x div p" using p by (simp add: less_eq_div_iff_mult_less_eq)
    have t: "top4 x = x div p * p" by (simp add: top4_def p_def)
    have "x div p * p + x mod p = x" "x mod p < p" using p by simp_all
    moreover have "8 * p \<le> x div p * p" using q by simp
    ultimately show ?thesis using p unfolding t by linarith
  next
    case False
    then show ?thesis using assms by (simp add: top4_def)
  qed
  then show "0 < top4 x" "top4 x \<le> x" "8 * x < 9 * top4 x" by auto
qed

lemma log_nine_eighths: "log 2 (9 / 8 :: real) < 17 / 100"
proof -
  have "100 * log 2 (9 :: real) = log 2 (9 ^ 100)" by (simp only: log_nat_power)
  also have "\<dots> < log 2 (2 ^ 317)" by (subst log_less_cancel_iff) simp_all
  also have "\<dots> = 317" using log_nat_power [of 2 2 317] by simp
  finally have "100 * log 2 (9 :: real) < 317" .
  moreover have "log 2 (8 :: real) = 3" using log_nat_power [of 2 2 3] by simp
  ultimately show ?thesis by (simp add: log_divide)
qed

lemma sqlite3LogEst_div10:
  assumes "0 < x"
  shows "sqlite3LogEst x div 10 = int (ilog2 x)"
proof (cases "x = 1")
  case True
  have "ilog2 1 = 0" by (simp add: ilog2.simps)
  then show ?thesis using True by (simp add: sqlite3LogEst_def)
next
  case False
  then have "2 \<le> x" using assms by simp
  then obtain n where "8 \<le> n" "n \<le> 15" "sqlite3LogEst x = 10 * int (ilog2 x) + LogEst_a ! (n - 8)"
    by (rule sqlite3LogEst_scaled)
  moreover have "n - 8 < 8" using \<open>n \<le> 15\<close> by simp
  ultimately show ?thesis using LogEst_a_range [of "n - 8"] by simp
qed

lemma floor_log_ilog2: "0 < x \<Longrightarrow> \<lfloor>log 2 (real x)\<rfloor> = int (ilog2 x)"
  using ilog2_bounds [of x] floor_log_nat_eq_powr_iff [of 2 x "ilog2 x"] by (simp add: max_def split: if_splits)

lemma log_top4_near:
  assumes "0 < x"
  shows "log 2 (real (top4 x)) \<le> log 2 (real x)" "log 2 (real x) < log 2 (real (top4 x)) + 17 / 100"
proof -
  note b = top4_bounds [OF assms]
  show "log 2 (real (top4 x)) \<le> log 2 (real x)" using b assms by simp
  have "real x < real (top4 x) * (9 / 8)" using b(3) by (simp add: field_simps flip: of_nat_mult of_nat_less_iff)
  then have "log 2 (real x) < log 2 (real (top4 x) * (9 / 8))" using b(1) assms by (subst log_less_cancel_iff) auto
  also have "\<dots> = log 2 (real (top4 x)) + log 2 (9 / 8)" using b(1) by (subst log_mult) simp_all
  finally show "log 2 (real x) < log 2 (real (top4 x)) + 17 / 100" using log_nine_eighths by simp
qed

text \<open>
  C33.  \<open>sqlite3LogEst\<close> (\<open>util.c\<close>) is ten times the binary logarithm.  For zero it is zero.
  For every positive \<open>x\<close> it is the integer nearest to ten times the logarithm of \<open>x\<close> with all
  but its four leading binary digits cleared, which fixes every entry of the table of the routine.
  So it is at most one half above ten times the logarithm of \<open>x\<close> itself and less than 2.2 below it,
  and its tenth, rounded down, is the position of the highest bit of \<open>x\<close>.
\<close>

theorem sqlite3LogEst_is_log:
  assumes "0 < x"
  shows "sqlite3LogEst 0 = 0 \<and>
    sqlite3LogEst x = round (10 * log 2 (real (top4 x))) \<and>
    real_of_int (sqlite3LogEst x) \<le> 10 * log 2 (real x) + 1 / 2 \<and>
    10 * log 2 (real x) - 22 / 10 < real_of_int (sqlite3LogEst x) \<and>
    sqlite3LogEst x div 10 = \<lfloor>log 2 (real x)\<rfloor>"
proof -
  have r: "sqlite3LogEst x = round (10 * log 2 (real (top4 x)))" by (rule sqlite3LogEst_round [OF assms])
  have "real_of_int (sqlite3LogEst x) \<le> 10 * log 2 (real (top4 x)) + 1 / 2"
    "10 * log 2 (real (top4 x)) - 1 / 2 \<le> real_of_int (sqlite3LogEst x)"
    unfolding r using of_int_round_le of_int_round_ge by blast+
  then show ?thesis using r log_top4_near [OF assms] sqlite3LogEst_div10 [OF assms] floor_log_ilog2 [OF assms]
    by (simp add: sqlite3LogEst_def)
qed

theorem sqlite3LogEst_is_log_witness:
  "sqlite3LogEst 1000 = 99 \<and> round (10 * log 2 (real 960)) = 99 \<and> 10 * log 2 1000 < (101.2 :: real) \<and>
   98.5 \<le> 10 * log 2 (1000 :: real) \<and> \<lfloor>log 2 (1000 :: real)\<rfloor> = 9"
proof -
  have "sqlite3LogEst 1000 = 99" "top4 1000 = 960" by code_simp+
  then show ?thesis using sqlite3LogEst_is_log [of 1000] by auto
qed

end
