(* ===== verification/Numbers.thy ===== *)
theory Numbers
  imports Chars IntMath
begin

text \<open>
  Conversions between integers and text in \<open>util.c\<close>. Text is a list of bytes; a C string ends at
  its first NUL or at the end of the list. A result is the return code with the value stored
  through the output pointer. UTF-16 input is reduced to the bytes that the stride-2 loops read.
\<close>

section \<open>Integers to text\<close>

fun Int64ToText_loop :: "nat \<Rightarrow> u8 list \<Rightarrow> u8 list" where
  "Int64ToText_loop x zTemp =
     (let zTemp = (of_nat (x mod 10) + 48) # zTemp; x = x div 10
      in if x = 0 then zTemp else Int64ToText_loop x zTemp)"

declare Int64ToText_loop.simps [simp del]

definition sqlite3Int64ToText :: "int \<Rightarrow> u8 list" where
  "sqlite3Int64ToText v =
     (let x = (if v < 0 then (if v = SMALLEST_INT64 then 2 ^ 63 else nat (- v)) else nat v);
          zTemp = Int64ToText_loop x []
      in if v < 0 then 45 # zTemp else zTemp)"

section \<open>Decimal text to 64-bit integers\<close>

definition is_digit :: "u8 \<Rightarrow> bool" where
  "is_digit c \<longleftrightarrow> 48 \<le> c \<and> c \<le> 57"

fun compare2pow63_loop :: "int \<Rightarrow> u8 list \<Rightarrow> u8 list \<Rightarrow> int" where
  "compare2pow63_loop c zNum [] = c"
| "compare2pow63_loop c zNum (p # pow63) =
     (if c = 0 then compare2pow63_loop ((uint (hd0 zNum) - uint p) * 10) (tl zNum) pow63 else c)"

definition compare2pow63 :: "u8 list \<Rightarrow> int" where
  "compare2pow63 zNum =
     (let c = compare2pow63_loop 0 zNum
            [57, 50, 50, 51, 51, 55, 50, 48, 51, 54, 56, 53, 52, 55, 55, 53, 56, 48]
      in if c = 0 then uint (char_at zNum 18) - 56 else c)"

definition SQLITE_UTF8 :: nat where "SQLITE_UTF8 = 1"
definition SQLITE_UTF16LE :: nat where "SQLITE_UTF16LE = 2"
definition SQLITE_UTF16BE :: nat where "SQLITE_UTF16BE = 3"

text \<open>The bytes read by the stride-2 loops on UTF-16: the low bytes of the code units before the
  first one with a non-zero high byte, and whether there is one.\<close>

fun utf16_low :: "bool \<Rightarrow> u8 list \<Rightarrow> u8 list \<times> bool" where
  "utf16_low be (a # b # z) =
     (let (hi, lo) = (if be then (a, b) else (b, a))
      in if hi = 0 then (let (cs, nonNum) = utf16_low be z in (lo # cs, nonNum)) else ([], True))"
| "utf16_low be z = ([], False)"

definition atoi64_input :: "u8 list \<Rightarrow> nat \<Rightarrow> u8 list \<times> bool" where
  "atoi64_input z enc =
     (if enc = SQLITE_UTF8 then (z, False) else utf16_low (enc = SQLITE_UTF16BE) z)"

definition atoi64_parse :: "u8 list \<Rightarrow> bool \<Rightarrow> int \<times> int" where
  "atoi64_parse z nonNum =
     (let z = dropWhile sqlite3Isspace z;
          (neg, z) = (case z of [] \<Rightarrow> (False, z)
                      | c # z' \<Rightarrow> if c = 45 then (True, z') else if c = 43 then (False, z') else (False, z));
          zStart = z;
          z = dropWhile (\<lambda>c. c = 48) z;
          digits = takeWhile is_digit z;
          u = fold (\<lambda>c u. u * 10 + ucast c - 48) digits (0 :: u64);
          i = length digits;
          rest = drop i z;
          limit = (if neg then SMALLEST_INT64 else LARGEST_INT64);
          pNum = (if uint u > LARGEST_INT64 then limit else if neg then - uint u else uint u);
          rc = (if i = 0 \<and> length zStart = length z then -1
                else if nonNum then 1
                else if rest \<noteq> [] \<and> \<not> list_all sqlite3Isspace rest then 1
                else 0)
      in if i < 19 then (rc, pNum)
         else let c = (if i > 19 then 1 else compare2pow63 z)
              in if c < 0 then (rc, pNum)
                 else if c > 0 then (2, limit)
                 else (if neg then rc else 3, limit))"

definition sqlite3Atoi64 :: "u8 list \<Rightarrow> nat \<Rightarrow> int \<times> int" where
  "sqlite3Atoi64 z enc = (let (z, nonNum) = atoi64_input z enc in atoi64_parse z nonNum)"

section \<open>Hexadecimal digits\<close>

definition sqlite3HexToInt :: "u8 \<Rightarrow> u8" where
  "sqlite3HexToInt h = (h + 9 * (1 AND drop_bit 6 h)) AND 0xf"

text \<open>The bytes of a blob literal from its hexadecimal digits, without the terminating zero.\<close>

fun sqlite3HexToBlob :: "u8 list \<Rightarrow> u8 list" where
  "sqlite3HexToBlob (a # b # z) =
     (push_bit 4 (sqlite3HexToInt a) OR sqlite3HexToInt b) # sqlite3HexToBlob z"
| "sqlite3HexToBlob z = []"

text \<open>The digits that the SQL function \<open>hex\<close> prints.\<close>

definition hexdigits :: "u8 list" where
  "hexdigits = [48, 49, 50, 51, 52, 53, 54, 55, 56, 57, 65, 66, 67, 68, 69, 70]"

fun hexFunc :: "u8 list \<Rightarrow> u8 list" where
  "hexFunc [] = []"
| "hexFunc (c # b) = hexdigits ! unat (drop_bit 4 c AND 0xf) # hexdigits ! unat (c AND 0xf) # hexFunc b"

section \<open>Integer literals\<close>

definition hex_value :: "u8 list \<Rightarrow> u64" where
  "hex_value ds = fold (\<lambda>c u. u * 16 + ucast (sqlite3HexToInt c)) ds 0"

definition strspn_int :: "cstring \<Rightarrow> nat" where
  "strspn_int z = length (takeWhile (\<lambda>c. c \<in> set [43, 45, 32, 10, 9] \<or> is_digit c) z)"

definition sqlite3DecOrHexToI64 :: "cstring \<Rightarrow> int \<times> int" where
  "sqlite3DecOrHexToI64 z =
     (if char_at z 0 = 48 \<and> (char_at z 1 = 120 \<or> char_at z 1 = 88) then
        let z = dropWhile (\<lambda>c. c = 48) (drop 2 z);
            ds = takeWhile sqlite3Isxdigit z;
            pOut = sint (hex_value ds)
        in (if length ds > 16 then 2 else if char_at z (length ds) \<noteq> 0 then 1 else 0, pOut)
      else
        let n = strspn_int z mod 2 ^ 30;
            n = (if char_at z n \<noteq> 0 then n + 1 else n)
        in sqlite3Atoi64 (take n z) SQLITE_UTF8)"

text \<open>\<open>None\<close> when the text is no 32-bit integer and the output is left alone.\<close>

definition GetInt32_decimal :: "bool \<Rightarrow> cstring \<Rightarrow> int option" where
  "GetInt32_decimal neg z =
     (if \<not> sqlite3Isdigit (hd0 z) then None
      else let z = dropWhile (\<lambda>c. c = 48) z;
               ds = takeWhile is_digit (take 11 z);
               v = fold (\<lambda>c v. v * 10 + (uint c - 48)) ds 0
           in if length ds > 10 then None
              else if v - (if neg then 1 else 0) > 2147483647 then None
              else Some (if neg then - v else v))"

definition sqlite3GetInt32 :: "cstring \<Rightarrow> int option" where
  "sqlite3GetInt32 z =
     (if hd0 z = 45 then GetInt32_decimal True (tl z)
      else if hd0 z = 43 then GetInt32_decimal False (tl z)
      else if hd0 z = 48 \<and> (char_at z 1 = 120 \<or> char_at z 1 = 88) \<and> sqlite3Isxdigit (char_at z 2) then
        let z = dropWhile (\<lambda>c. c = 48) (drop 2 z);
            ds = takeWhile sqlite3Isxdigit (take 8 z);
            u = fold (\<lambda>c u. u * 16 + ucast (sqlite3HexToInt c)) ds (0 :: u32)
        in if u AND 0x80000000 = 0 \<and> \<not> sqlite3Isxdigit (char_at z (length ds))
           then Some (sint u) else None
      else GetInt32_decimal False z)"

definition sqlite3Atoi :: "cstring \<Rightarrow> int" where
  "sqlite3Atoi z = (case sqlite3GetInt32 z of None \<Rightarrow> 0 | Some x \<Rightarrow> x)"

fun GetUInt32_loop :: "cstring \<Rightarrow> u64 \<Rightarrow> (u64 \<times> cstring) option" where
  "GetUInt32_loop [] v = Some (v, [])"
| "GetUInt32_loop (c # z) v =
     (if sqlite3Isdigit c
      then let v = v * 10 + ucast c - 48 in if v > 4294967296 then None else GetUInt32_loop z v
      else Some (v, c # z))"

text \<open>Success flag and the value stored.\<close>

definition sqlite3GetUInt32 :: "cstring \<Rightarrow> bool \<times> u32" where
  "sqlite3GetUInt32 z =
     (case GetUInt32_loop z 0 of
        None \<Rightarrow> (False, 0)
      | Some (v, rest) \<Rightarrow> if rest = z \<or> hd0 rest \<noteq> 0 then (False, 0) else (True, ucast v))"

section \<open>Quoted identifiers\<close>

text \<open>The loop removes doubled quotes until the closing one; \<open>None\<close> is an unterminated string,
  which the assertion of the source excludes.\<close>

fun Dequote_loop :: "u8 \<Rightarrow> cstring \<Rightarrow> cstring option" where
  "Dequote_loop q [] = None"
| "Dequote_loop q (c # z) =
     (if c = q then (if hd0 z = q then map_option (Cons q) (Dequote_loop q (tl z)) else Some [])
      else map_option (Cons c) (Dequote_loop q z))"

definition sqlite3Dequote :: "cstring \<Rightarrow> cstring option" where
  "sqlite3Dequote z =
     (let quote = hd0 z
      in if \<not> sqlite3Isquote quote then Some z
         else Dequote_loop (if quote = 91 then 93 else quote) (tl z))"

section \<open>Decimal values\<close>

fun dec :: "u8 list \<Rightarrow> nat" where
  "dec [] = 0"
| "dec (c # cs) = (unat c - 48) * 10 ^ length cs + dec cs"

abbreviation digits :: "u8 list \<Rightarrow> bool" where
  "digits ds \<equiv> list_all is_digit ds"

lemma is_digit_unat: "is_digit c \<longleftrightarrow> 48 \<le> unat c \<and> unat c \<le> 57"
  by (simp add: is_digit_def word_le_nat_alt)

lemma is_digit_Isdigit: "sqlite3Isdigit c = is_digit c"
  by (simp add: is_digit_unat sqlite3Isdigit_iff)

lemma dec_bound: "digits ds \<Longrightarrow> dec ds < 10 ^ length ds"
proof (induction ds)
  case (Cons c ds)
  then have "(unat c - 48) * 10 ^ length ds \<le> 9 * 10 ^ length ds"
    by (intro mult_right_mono) (auto simp: is_digit_unat)
  moreover have "dec ds < 10 ^ length ds" using Cons by simp
  ultimately have "dec (c # ds) < 9 * 10 ^ length ds + 10 ^ length ds"
    unfolding dec.simps by (rule add_le_less_mono)
  then show ?case by simp
qed simp

lemma dec_append: "dec (xs @ ys) = dec xs * 10 ^ length ys + dec ys"
  by (induction xs) (simp_all add: algebra_simps power_add)

lemma dec_zeros: "dec (dropWhile (\<lambda>c. c = 48) ds) = dec ds"
  by (induction ds) auto

lemma dec_lower: "ds \<noteq> [] \<Longrightarrow> digits ds \<Longrightarrow> hd ds \<noteq> 48 \<Longrightarrow> 10 ^ (length ds - 1) \<le> dec ds"
proof (cases ds)
  case (Cons c cs)
  moreover assume "digits ds" "hd ds \<noteq> 48"
  ultimately have "1 \<le> unat c - 48" by (auto simp: is_digit_unat word_unat_eq_iff)
  then have "1 * 10 ^ length cs \<le> (unat c - 48) * 10 ^ length cs" by (rule mult_right_mono) simp
  then have "10 ^ length cs \<le> dec (c # cs)" unfolding dec.simps by linarith
  then show ?thesis using Cons by simp
qed simp

lemma fold_u64_dec:
  assumes "digits ds"
  shows "fold (\<lambda>c u. u * 10 + ucast c - 48) ds (of_nat n :: u64) = of_nat (n * 10 ^ length ds + dec ds)"
  using assms
proof (induction ds arbitrary: n)
  case (Cons c ds)
  have "ucast c - 48 = (of_nat (unat c - 48) :: u64)"
    using Cons.prems by (simp add: is_digit_unat of_nat_diff)
  then have "of_nat n * 10 + ucast c - 48 = (of_nat (n * 10 + (unat c - 48)) :: u64)"
    by (simp add: algebra_simps)
  then show ?case using Cons.IH [of "n * 10 + (unat c - 48)"] Cons.prems by (simp add: algebra_simps)
qed simp

lemma fold_int_dec:
  assumes "digits ds"
  shows "fold (\<lambda>c v. v * 10 + (uint c - 48)) ds (int n) = int (n * 10 ^ length ds + dec ds)"
  using assms
proof (induction ds arbitrary: n)
  case (Cons c ds)
  have "uint c - 48 = int (unat c - 48)" using Cons.prems by (simp add: is_digit_unat)
  then have "int n * 10 + (uint c - 48) = int (n * 10 + (unat c - 48))" by simp
  then show ?case using Cons.IH [of "n * 10 + (unat c - 48)"] Cons.prems by (simp add: algebra_simps)
qed simp

lemma compare2pow63_loop_sgn:
  "length z = length ps \<Longrightarrow> digits z \<Longrightarrow> digits ps \<Longrightarrow>
     sgn (compare2pow63_loop 0 z ps) = sgn (int (dec z) - int (dec ps))"
proof (induction z ps rule: list_induct2)
  case (Cons c z p ps)
  have stop: "compare2pow63_loop k z ps = k" if "k \<noteq> 0" for k
    using that by (cases ps) auto
  have "dec z < 10 ^ length ps" "dec ps < 10 ^ length ps"
    using dec_bound [of z] dec_bound [of ps] Cons by auto
  then have b: "int (dec z) < 10 ^ length ps" "int (dec ps) < 10 ^ length ps"
    by (metis of_nat_less_iff of_nat_power of_nat_numeral)+
  show ?case
  proof (cases "c = p")
    case True
    then show ?thesis using Cons by simp
  next
    case False
    then have neq: "uint c \<noteq> uint p" by (simp add: word_uint_eq_iff)
    have "int (dec (c # z)) - int (dec (p # ps)) =
        (uint c - uint p) * 10 ^ length ps + (int (dec z) - int (dec ps))"
    proof -
      have "int (unat c - 48) = uint c - 48" "int (unat p - 48) = uint p - 48"
        using Cons by (auto simp: is_digit_unat)
      then have c: "int (dec (c # z)) = (uint c - 48) * 10 ^ length ps + int (dec z)"
        and p: "int (dec (p # ps)) = (uint p - 48) * 10 ^ length ps + int (dec ps)"
        using Cons(1) by simp_all
      show ?thesis unfolding c p by (simp add: algebra_simps)
    qed
    moreover have "sgn ((uint c - uint p) * 10 ^ length ps + (int (dec z) - int (dec ps))) = sgn (uint c - uint p)"
    proof (cases "uint c < uint p")
      case True
      then have "(uint c - uint p) * 10 ^ length ps \<le> (-1) * 10 ^ length ps" by (intro mult_right_mono) auto
      then have "(uint c - uint p) * 10 ^ length ps + (int (dec z) - int (dec ps)) < 0" using b by linarith
      then show ?thesis using True by simp
    next
      case False
      then have "1 * 10 ^ length ps \<le> (uint c - uint p) * 10 ^ length ps" using neq by (intro mult_right_mono) auto
      then have "0 < (uint c - uint p) * 10 ^ length ps + (int (dec z) - int (dec ps))" using b by linarith
      then show ?thesis using False neq by simp
    qed
    moreover have "compare2pow63_loop 0 (c # z) (p # ps) = (uint c - uint p) * 10"
      using stop [of "(uint c - uint p) * 10"] neq by simp
    moreover have "sgn ((uint c - uint p) * 10) = sgn (uint c - uint p)" by (simp only: sgn_mult) simp
    ultimately show ?thesis by metis
  qed
qed simp

lemma compare2pow63_loop_take:
  "length ps \<le> length z \<Longrightarrow> compare2pow63_loop k z ps = compare2pow63_loop k (take (length ps) z) ps"
proof (induction k z ps rule: compare2pow63_loop.induct)
  case (2 k z p ps)
  then show ?case by (cases z) auto
qed simp

lemma compare2pow63_sgn:
  assumes "length ds = 19" and "digits ds"
  shows "sgn (compare2pow63 (ds @ rest)) = sgn (int (dec ds) - 2 ^ 63)"
proof -
  define ps :: "u8 list" where "ps = [57, 50, 50, 51, 51, 55, 50, 48, 51, 54, 56, 53, 52, 55, 55, 53, 56, 48]"
  have ps: "length ps = 18" "digits ps" "dec ps = 922337203685477580"
    by (simp_all add: ps_def is_digit_def)
  have d: "digits (take 18 ds)" "is_digit (ds ! 18)"
    using assms by (auto simp: list_all_length)
  have split: "dec ds = dec (take 18 ds) * 10 + (unat (ds ! 18) - 48)"
  proof -
    have "ds = take 18 ds @ [ds ! 18]"
      using assms(1) id_take_nth_drop [of 18 ds] by simp
    then have "dec ds = dec (take 18 ds @ [ds ! 18])" by simp
    then show ?thesis by (simp add: dec_append)
  qed
  have c: "compare2pow63_loop 0 (ds @ rest) ps = compare2pow63_loop 0 (take 18 ds) ps"
    using compare2pow63_loop_take [of ps "ds @ rest" 0] assms(1) ps(1) by simp
  have sg: "sgn (compare2pow63_loop 0 (take 18 ds) ps) = sgn (int (dec (take 18 ds)) - 922337203685477580)"
    using compare2pow63_loop_sgn [of "take 18 ds" ps] assms(1) ps d by simp
  have last: "48 \<le> unat (ds ! 18)" "unat (ds ! 18) \<le> 57" using d(2) by (simp_all add: is_digit_unat)
  show ?thesis
  proof (cases "compare2pow63_loop 0 (take 18 ds) ps = 0")
    case True
    then have "int (dec (take 18 ds)) = 922337203685477580" using sg by (simp add: sgn_if split: if_splits)
    then have "int (dec ds) - 2 ^ 63 = uint (ds ! 18) - 56" using split last by simp
    then show ?thesis using True c assms(1)
      by (simp add: compare2pow63_def char_at_def nth_append flip: ps_def)
  next
    case False
    then have "compare2pow63 (ds @ rest) = compare2pow63_loop 0 (take 18 ds) ps"
      using c by (simp add: compare2pow63_def flip: ps_def)
    moreover have "unat (ds ! 18) - 48 \<le> 9" using last by simp
    then have "sgn (int (dec (take 18 ds)) - 922337203685477580) = sgn (int (dec ds) - 2 ^ 63)"
      using sg False unfolding split by (simp add: sgn_if split: if_splits)
    ultimately show ?thesis using sg by simp
  qed
qed

section \<open>Parsing\<close>

definition clamp64 :: "bool \<Rightarrow> int" where
  "clamp64 neg = (if neg then SMALLEST_INT64 else LARGEST_INT64)"

lemma dropWhile_prefix:
  "list_all P xs \<Longrightarrow> (ys \<noteq> [] \<Longrightarrow> \<not> P (hd ys)) \<Longrightarrow> dropWhile P (xs @ ys) = ys"
  by (induction xs; cases ys) auto

lemma takeWhile_prefix:
  "list_all P xs \<Longrightarrow> (ys \<noteq> [] \<Longrightarrow> \<not> P (hd ys)) \<Longrightarrow> takeWhile P (xs @ ys) = xs"
  by (induction xs; cases ys) auto

lemma dropWhile_zeros:
  "(rest \<noteq> [] \<Longrightarrow> hd rest \<noteq> z) \<Longrightarrow> dropWhile (\<lambda>c. c = z) (ds @ rest) = dropWhile (\<lambda>c. c = z) ds @ rest"
  by (induction ds; cases rest) auto

text \<open>Digits with leading zeros removed, as the second loop sees them.\<close>

definition strip :: "u8 list \<Rightarrow> u8 list" where
  "strip ds = dropWhile (\<lambda>c. c = 48) ds"

lemma strip_facts:
  assumes "digits ds"
  shows "digits (strip ds)" "dec (strip ds) = dec ds" "length (strip ds) \<le> length ds"
    "strip ds \<noteq> [] \<Longrightarrow> 10 ^ (length (strip ds) - 1) \<le> dec ds"
proof -
  show d: "digits (strip ds)" using assms
    by (auto simp: strip_def list_all_iff dest: set_dropWhileD)
  show v: "dec (strip ds) = dec ds" by (simp add: strip_def dec_zeros)
  show "length (strip ds) \<le> length ds" by (simp add: strip_def length_dropWhile_le)
  show "10 ^ (length (strip ds) - 1) \<le> dec ds" if "strip ds \<noteq> []"
    using dec_lower [OF that d] hd_dropWhile [of "\<lambda>c. c = 48" ds] that v by (simp add: strip_def)
qed

lemma atoi64_signed:
  assumes ds: "digits ds" "ds \<noteq> []" and rest: "rest \<noteq> [] \<Longrightarrow> \<not> is_digit (hd rest)"
    and sp: "list_all sqlite3Isspace sp" and sg: "sg \<in> {[], [43], [45]}"
  defines "v \<equiv> (if sg = [45] then - int (dec ds) else int (dec ds))"
  shows "atoi64_parse (sp @ sg @ ds @ rest) False =
    (if in_i64 v then (if list_all sqlite3Isspace rest then 0 else 1, v)
     else (if v = 2 ^ 63 then 3 else 2, clamp64 (sg = [45])))"
proof -
  define trail :: int where "trail = (if list_all sqlite3Isspace rest then 0 else 1)"
  define u where "u = fold (\<lambda>c u. u * 10 + ucast c - 48) (strip ds) (0 :: u64)"
  have hd: "is_digit (hd ds)" "\<not> sqlite3Isspace (hd ds)" "hd ds \<noteq> 45" "hd ds \<noteq> 43"
    using ds by (cases ds; auto simp: is_digit_unat sqlite3Isspace_iff)+
  have "hd (sg @ ds @ rest) = hd ds \<or> hd (sg @ ds @ rest) \<in> {43, 45}" using sg ds(2) by auto
  then have "\<not> sqlite3Isspace (hd (sg @ ds @ rest))" using hd(2) by (auto simp: sqlite3Isspace_iff)
  then have 1: "dropWhile sqlite3Isspace (sp @ sg @ ds @ rest) = sg @ ds @ rest"
    using sp by (intro dropWhile_prefix)
  have 2: "(case sg @ ds @ rest of [] \<Rightarrow> (False, sg @ ds @ rest)
      | c # z' \<Rightarrow> if c = 45 then (True, z') else if c = 43 then (False, z') else (False, sg @ ds @ rest)) =
      (sg = [45], ds @ rest)"
    using sg hd ds(2) by (cases ds) auto
  have "rest \<noteq> [] \<Longrightarrow> hd rest \<noteq> 48" using rest by (auto simp: is_digit_unat)
  then have 3: "dropWhile (\<lambda>c. c = 48) (ds @ rest) = strip ds @ rest"
    unfolding strip_def by (intro dropWhile_zeros)
  have 4: "takeWhile is_digit (strip ds @ rest) = strip ds"
    using strip_facts(1) [OF ds(1)] rest by (intro takeWhile_prefix)
  have 5: "\<not> (length (strip ds) = 0 \<and> length (ds @ rest) = length (strip ds @ rest))" using ds(2) by auto
  have parse: "atoi64_parse (sp @ sg @ ds @ rest) False =
    (let i = length (strip ds); limit = clamp64 (sg = [45]);
         pNum = (if uint u > LARGEST_INT64 then limit else if sg = [45] then - uint u else uint u)
     in if i < 19 then (trail, pNum)
        else let c = (if i > 19 then 1 else compare2pow63 (strip ds @ rest))
             in if c < 0 then (trail, pNum)
                else if c > 0 then (2, limit) else (if sg = [45] then trail else 3, limit))"
    using 5 unfolding atoi64_parse_def 1 Let_def 2 prod.case 3 4
    by (auto simp: clamp64_def u_def trail_def)
  have u: "u = of_nat (dec ds)"
    using fold_u64_dec [OF strip_facts(1) [OF ds(1)], of 0] strip_facts(2) [OF ds(1)] by (simp add: u_def)
  have v: "uint u = int (dec ds)" if "dec ds < 10 ^ 19"
    using that by (simp add: u unsigned_of_nat take_bit_nat_eq_self_iff uint_nat)
  show ?thesis
  proof (cases "length (strip ds) < 19")
    case True
    have "dec ds < 10 ^ length (strip ds)" using dec_bound [of "strip ds"] strip_facts [OF ds(1)] by simp
    also have "\<dots> \<le> 10 ^ 18" using True by (intro power_increasing) auto
    finally have "dec ds < 10 ^ 18" .
    then show ?thesis using True v unfolding parse
      by (auto simp: Let_def v_def trail_def i64_bounds)
  next
    case long: False
    show ?thesis
    proof (cases "length (strip ds) = 19")
      case True
      have "dec ds < 10 ^ 19" using dec_bound [of "strip ds"] strip_facts [OF ds(1)] True by simp
      moreover have "sgn (compare2pow63 (strip ds @ rest)) = sgn (int (dec ds) - 2 ^ 63)"
        using compare2pow63_sgn [OF True] strip_facts [OF ds(1)] by simp
      ultimately show ?thesis using True v unfolding parse
        by (auto simp: Let_def v_def trail_def i64_bounds clamp64_def sgn_if split: if_splits)
    next
      case False
      then have "(10::nat) ^ 19 \<le> 10 ^ (length (strip ds) - 1)" using long by (intro power_increasing) auto
      also have "\<dots> \<le> dec ds" using strip_facts(4) [OF ds(1)] long by fastforce
      finally have "10 ^ 19 \<le> dec ds" .
      then show ?thesis using False long unfolding parse
        by (auto simp: Let_def v_def i64_bounds)
    qed
  qed
qed

lemma Atoi64_utf8: "sqlite3Atoi64 z SQLITE_UTF8 = atoi64_parse z False"
  by (simp add: sqlite3Atoi64_def atoi64_input_def)

lemma of_digit: "n < 10 \<Longrightarrow> unat (of_nat n + 48 :: u8) = n + 48"
  by (simp add: unat_word_ariths unat_of_nat take_bit_eq_mod)

lemma Int64ToText_loop_digits:
  "\<exists>ds. Int64ToText_loop x acc = ds @ acc \<and> digits ds \<and> ds \<noteq> [] \<and> dec ds = x \<and>
     10 ^ (length ds - 1) \<le> max 1 x"
proof (induction x acc rule: Int64ToText_loop.induct)
  case (1 x acc)
  let ?d = "of_nat (x mod 10) + 48 :: u8"
  have d: "is_digit ?d" "unat ?d - 48 = x mod 10" using of_digit [of "x mod 10"] by (simp_all add: is_digit_unat)
  show ?case
  proof (cases "x div 10 = 0")
    case True
    then show ?thesis using d by (intro exI [of _ "[?d]"]) (simp add: Int64ToText_loop.simps [of x])
  next
    case False
    then obtain ds where ds: "Int64ToText_loop (x div 10) (?d # acc) = ds @ ?d # acc" "digits ds" "ds \<noteq> []"
      "dec ds = x div 10" "10 ^ (length ds - 1) \<le> max 1 (x div 10)"
      using 1 [OF refl refl] by blast
    have "10 ^ length ds = 10 * (10::nat) ^ (length ds - 1)" using ds(3) by (cases "length ds") auto
    then have "10 ^ length ds \<le> x" using ds(5) False by (simp add: max_def split: if_splits)
    then show ?thesis using ds d False
      by (intro exI [of _ "ds @ [?d]"]) (simp add: Int64ToText_loop.simps [of x] dec_append)
  qed
qed

lemma Int64ToText_split:
  assumes "in_i64 v"
  obtains sg ds where "sqlite3Int64ToText v = sg @ ds" "sg = (if v < 0 then [45] else [])"
    "digits ds" "ds \<noteq> []" "int (dec ds) = \<bar>v\<bar>" "length ds \<le> 19"
proof -
  obtain ds where ds: "Int64ToText_loop (nat \<bar>v\<bar>) [] = ds" "digits ds" "ds \<noteq> []" "dec ds = nat \<bar>v\<bar>"
    "10 ^ (length ds - 1) \<le> max 1 (nat \<bar>v\<bar>)" using Int64ToText_loop_digits [of "nat \<bar>v\<bar>" "[]"] by auto
  have "nat \<bar>v\<bar> \<le> 2 ^ 63" using assms by (auto simp: i64_bounds)
  then have "(10::nat) ^ (length ds - 1) < 10 ^ 19" using ds(5) by simp
  then have "length ds \<le> 19" using power_less_imp_less_exp [of "10::nat" "length ds - 1" 19] by simp
  moreover have "sqlite3Int64ToText v = (if v < 0 then [45] else []) @ ds"
    using ds(1) assms by (auto simp: sqlite3Int64ToText_def i64_bounds)
  ultimately show thesis using that ds(2-4) by simp
qed

section \<open>Unsigned integers, hexadecimal and quoted text\<close>

lemma GetUInt32_loop_digits:
  assumes "digits ds" and "rest \<noteq> [] \<Longrightarrow> \<not> is_digit (hd rest)" and "n \<le> 4294967296"
  shows "GetUInt32_loop (ds @ rest) (of_nat n) =
    (if n * 10 ^ length ds + dec ds \<le> 4294967296
     then Some (of_nat (n * 10 ^ length ds + dec ds), rest) else None)"
  using assms
proof (induction ds arbitrary: n)
  case Nil
  then show ?case by (cases rest) (auto simp: is_digit_Isdigit)
next
  case (Cons c ds)
  define m where "m = n * 10 + (unat c - 48)"
  have "ucast c - 48 = (of_nat (unat c - 48) :: u64)"
    using Cons.prems by (simp add: is_digit_unat of_nat_diff)
  then have m: "of_nat n * 10 + ucast c - 48 = (of_nat m :: u64)" by (simp add: m_def algebra_simps)
  have "unat c - 48 \<le> 9" using Cons.prems(1) by (auto simp: is_digit_unat)
  then have "m < 2 ^ 64" using Cons.prems(3) by (simp add: m_def)
  then have um: "unat (of_nat m :: u64) = m" by (simp add: unsigned_of_nat take_bit_nat_eq_self_iff)
  then have gt: "(of_nat m :: u64) > 4294967296 \<longleftrightarrow> m > 4294967296" by (simp add: word_less_nat_alt)
  have dec: "n * 10 ^ length (c # ds) + dec (c # ds) = m * 10 ^ length ds + dec ds"
    by (simp add: m_def algebra_simps)
  show ?case
  proof (cases "m > 4294967296")
    case True
    have "m * 1 \<le> m * 10 ^ length ds" by (intro mult_le_mono2) simp
    then have "4294967296 < m * 10 ^ length ds" using True by linarith
    then show ?thesis using True Cons.prems gt m unfolding dec by (simp add: is_digit_Isdigit Let_def)
  next
    case False
    then show ?thesis using Cons gt m unfolding dec by (simp add: is_digit_Isdigit Let_def)
  qed
qed

lemma hex_digit_value: "n < 16 \<Longrightarrow> sqlite3HexToInt (hexdigits ! n) = of_nat n"
proof -
  have "\<forall>n\<in>set [0..<16]. sqlite3HexToInt (hexdigits ! n) = of_nat n" by code_simp
  then show "n < 16 \<Longrightarrow> sqlite3HexToInt (hexdigits ! n) = of_nat n" by simp
qed

lemma hex_byte: "push_bit 4 (drop_bit 4 c AND 0xf) OR (c AND 0xf) = (c :: u8)"
  by (rule u8_eqI) (simp add: word_bits)

text \<open>A quoted identifier: the quote characters around the text, with every closing quote in the
  text doubled.\<close>

definition quoted :: "u8 \<Rightarrow> cstring \<Rightarrow> cstring" where
  "quoted q s = (let e = (if q = 91 then 93 else q)
     in q # concat (map (\<lambda>c. if c = e then [e, e] else [c]) s) @ [e])"

lemma Dequote_loop_quoted:
  "e \<noteq> 0 \<Longrightarrow> hd0 rest \<noteq> e \<Longrightarrow>
     Dequote_loop e (concat (map (\<lambda>c. if c = e then [e, e] else [c]) s) @ e # rest) = Some s"
  by (induction s) auto

text \<open>
  C34. Every 64-bit signed integer, printed by \<open>sqlite3Int64ToText\<close>, fits the 21-byte buffer with
  its terminator, and \<open>sqlite3Atoi64\<close> reads it back exactly, with return code 0.
\<close>

theorem Int64ToText_roundtrip:
  assumes "in_i64 v"
  shows "sqlite3Atoi64 (sqlite3Int64ToText v) SQLITE_UTF8 = (0, v) \<and> length (sqlite3Int64ToText v) + 1 \<le> 21"
proof -
  obtain sg ds where t: "sqlite3Int64ToText v = sg @ ds" "sg = (if v < 0 then [45] else [])"
    "digits ds" "ds \<noteq> []" "int (dec ds) = \<bar>v\<bar>" "length ds \<le> 19"
    by (rule Int64ToText_split [OF assms])
  have "atoi64_parse ([] @ sg @ ds @ []) False = (0, v)"
    by (subst atoi64_signed) (use t assms in auto)
  then show ?thesis using t by (simp add: Atoi64_utf8)
qed

theorem Int64ToText_roundtrip_witness:
  "sqlite3Atoi64 (sqlite3Int64ToText SMALLEST_INT64) SQLITE_UTF8 = (0, SMALLEST_INT64)"
  using Int64ToText_roundtrip [of SMALLEST_INT64] by (simp add: i64_bounds)

text \<open>
  C29. \<open>sqlite3Atoi64\<close> on white space, an optional sign, at least one digit and any other text
  stores the exact value when it is a 64-bit signed integer, with return code 0 or 1 as the rest
  is white space or not. Otherwise it stores the limit of that sign, with return code 3 for
  9223372036854775808 and 2 for every other value, however many digits there are.
\<close>

theorem sqlite3Atoi64_correct:
  assumes "list_all is_digit ds" and "ds \<noteq> []" and "rest \<noteq> [] \<Longrightarrow> \<not> is_digit (hd rest)"
    and "list_all sqlite3Isspace sp" and "sg \<in> {[], [43], [45]}"
    and "v = (if sg = [45] then - int (dec ds) else int (dec ds))"
  shows "sqlite3Atoi64 (sp @ sg @ ds @ rest) SQLITE_UTF8 =
    (if in_i64 v then (if list_all sqlite3Isspace rest then 0 else 1, v)
     else (if v = 2 ^ 63 then 3 else 2, if sg = [45] then SMALLEST_INT64 else LARGEST_INT64))"
  using atoi64_signed [OF assms(1-5)] assms(6) by (simp add: Atoi64_utf8 clamp64_def)

theorem sqlite3Atoi64_correct_witness:
  "sqlite3Atoi64 ([32] @ [45] @ [48, 55] @ [120]) SQLITE_UTF8 = (1, - 7)"
  using sqlite3Atoi64_correct [of "[48, 55]" "[120]" "[32]" "[45]" "- 7"]
  by (simp add: is_digit_def sqlite3Isspace_iff i64_bounds)

text \<open>
  C38. What \<open>sqlite3GetUInt32\<close> does with every text, \<open>ds\<close> being the digits it starts with: it is
  accepted exactly if there is at least one digit, the text ends right after the digits and their
  value is at most 4294967296, and stores the value; in every other case (no digit, another
  character behind the digits, a larger value) it is rejected and 0 is stored. The bound is one
  too large: 4294967296, which is no 32-bit value, is accepted, and stored as 0.
\<close>

theorem sqlite3GetUInt32_range:
  "let ds = takeWhile is_digit z; rest = dropWhile is_digit z;
       accepted = (ds \<noteq> [] \<and> (rest = [] \<or> hd rest = 0) \<and> dec ds \<le> 4294967296)
   in fst (sqlite3GetUInt32 z) = accepted \<and>
      unat (snd (sqlite3GetUInt32 z)) = (if accepted \<and> dec ds < 4294967296 then dec ds else 0)"
proof -
  define ds rest where d: "ds = takeWhile is_digit z" "rest = dropWhile is_digit z"
  have z: "z = ds @ rest" by (simp add: d)
  have "digits ds" by (auto simp: d list_all_iff dest: set_takeWhileD)
  moreover have "rest \<noteq> [] \<Longrightarrow> \<not> is_digit (hd rest)" using hd_dropWhile [of is_digit z] by (simp add: d)
  ultimately have l: "GetUInt32_loop z 0 = (if dec ds \<le> 4294967296 then Some (of_nat (dec ds), rest) else None)"
    using GetUInt32_loop_digits [of ds rest 0] unfolding z by simp
  have h: "hd0 rest = 0 \<longleftrightarrow> rest = [] \<or> hd rest = 0" by (cases rest) simp_all
  have e: "rest = z \<longleftrightarrow> ds = []" unfolding z by simp
  have "unat (ucast (of_nat (dec ds) :: u64) :: u32) = (if dec ds < 4294967296 then dec ds else 0)" if "dec ds \<le> 4294967296"
  proof (cases "dec ds < 4294967296")
    case True
    then show ?thesis by (simp add: unsigned_of_nat take_bit_nat_eq_self_iff unsigned_ucast_eq)
  next
    case False
    then have "dec ds = 4294967296" using that by simp
    then show ?thesis by simp
  qed
  then show ?thesis unfolding Let_def d [symmetric] by (simp add: sqlite3GetUInt32_def l h e)
qed

text \<open>
  Decoding the hexadecimal digits that the SQL function \<open>hex\<close> prints gives back the blob.
\<close>

theorem hex_roundtrip: "sqlite3HexToBlob (hexFunc b) = b"
proof (induction b)
  case (Cons c b)
  have "unat (x AND 0xf) < 16" for x :: u8
    using word_and_le1 [of x "0xf"] by (simp add: word_le_nat_alt)
  then have "sqlite3HexToInt (hexdigits ! unat (x AND 0xf)) = x AND 0xf" for x :: u8
    using hex_digit_value by simp
  then show ?case using Cons hex_byte [of c] by simp
qed simp

text \<open>
  \<open>sqlite3Dequote\<close> recovers the text of every quoted identifier, for each of the four kinds
  of quotes, with doubled quotes undone; text that starts with no quote is left alone.
\<close>

theorem sqlite3Dequote_quoted:
  "sqlite3Dequote (if sqlite3Isquote q then quoted q s else q # s) =
     Some (if sqlite3Isquote q then s else q # s)"
proof (cases "sqlite3Isquote q")
  case True
  then have "q \<noteq> 0" by (auto simp: sqlite3Isquote_iff)
  then show ?thesis using True Dequote_loop_quoted [of "if q = 91 then 93 else q" "[]" s]
    by (auto simp: sqlite3Dequote_def quoted_def Let_def)
qed (simp add: sqlite3Dequote_def)

end
