(* ===== verification/RowSet.thy ===== *)
theory RowSet
  imports Prelude "HOL-Library.Tree" "HOL-Library.Multiset"
begin

text \<open>
  The row sets of \<open>rowset.c\<close>: a batch of inserted row numbers, kept as a list that is sorted on
  demand, and a forest of binary search trees of earlier batches. A list linked by \<open>pRight\<close> is a
  list of values, a tree of entries is a tree of values, and the forest is the list of the
  \<open>pLeft\<close> trees of its nodes. Whether an allocation succeeds is an input of the operations that
  allocate.
\<close>

section \<open>State\<close>

record RowSet =
  pEntry :: "int list"
  pForest :: "int tree list"
  nChunk :: nat
  nFresh :: nat
  rs_sorted :: bool
  rs_next :: bool
  iBatch :: int

definition ROWSET_ENTRY_PER_CHUNK :: nat where
  "ROWSET_ENTRY_PER_CHUNK = 42"

section \<open>Operations\<close>

definition sqlite3RowSetInit :: "nat \<Rightarrow> RowSet" where
  "sqlite3RowSetInit n = \<lparr>pEntry = [], pForest = [], nChunk = 0, nFresh = n, rs_sorted = True,
     rs_next = False, iBatch = 0\<rparr>"

definition sqlite3RowSetClear :: "RowSet \<Rightarrow> RowSet" where
  "sqlite3RowSetClear p = p\<lparr>nChunk := 0, nFresh := 0, pEntry := [], pForest := [], rs_sorted := True,
     rs_next := False\<rparr>"

definition rowSetEntryAlloc :: "bool \<Rightarrow> RowSet \<Rightarrow> bool \<times> RowSet" where
  "rowSetEntryAlloc alloc p =
     (if nFresh p = 0 then
        (if \<not> alloc then (False, p)
         else (True, p\<lparr>nChunk := nChunk p + 1, nFresh := ROWSET_ENTRY_PER_CHUNK - 1\<rparr>))
      else (True, p\<lparr>nFresh := nFresh p - 1\<rparr>))"

definition sqlite3RowSetInsert :: "bool \<Rightarrow> RowSet \<Rightarrow> int \<Rightarrow> RowSet" where
  "sqlite3RowSetInsert alloc p rowid =
     (let (ok, p) = rowSetEntryAlloc alloc p
      in if \<not> ok then p
         else let p = (if pEntry p \<noteq> [] \<and> rowid \<le> last (pEntry p) then p\<lparr>rs_sorted := False\<rparr> else p)
              in p\<lparr>pEntry := pEntry p @ [rowid]\<rparr>)"

fun rowSetEntryMerge :: "int list \<Rightarrow> int list \<Rightarrow> int list" where
  "rowSetEntryMerge [] ys = ys"
| "rowSetEntryMerge xs [] = xs"
| "rowSetEntryMerge (x # xs) (y # ys) =
     (if x \<le> y
      then (if x < y then x # rowSetEntryMerge xs (y # ys) else rowSetEntryMerge xs (y # ys))
      else y # rowSetEntryMerge (x # xs) ys)"

text \<open>Carrying an entry into the 40 buckets; \<open>None\<close> runs past the end of the array.\<close>

fun sort_carry :: "int list \<Rightarrow> int list list \<Rightarrow> int list list option" where
  "sort_carry e [] = None"
| "sort_carry e (b # bs) =
     (if b = [] then Some (e # bs)
      else map_option (Cons []) (sort_carry (rowSetEntryMerge b e) bs))"

fun sort_fill :: "int list \<Rightarrow> int list list \<Rightarrow> int list list option" where
  "sort_fill [] aBucket = Some aBucket"
| "sort_fill (x # xs) aBucket =
     (case sort_carry [x] aBucket of None \<Rightarrow> None | Some aBucket \<Rightarrow> sort_fill xs aBucket)"

definition sort_join :: "int list \<Rightarrow> int list list \<Rightarrow> int list" where
  "sort_join p bs =
     fold (\<lambda>b p. if b = [] then p else if p = [] then b else rowSetEntryMerge p b) bs p"

definition rowSetEntrySort :: "int list \<Rightarrow> int list option" where
  "rowSetEntrySort pIn =
     map_option (\<lambda>aBucket. sort_join (hd aBucket) (tl aBucket)) (sort_fill pIn (replicate 40 []))"

primrec rowSetTreeToList :: "int tree \<Rightarrow> int list" where
  "rowSetTreeToList Leaf = []"
| "rowSetTreeToList (Node l v r) = rowSetTreeToList l @ v # rowSetTreeToList r"

fun rowSetNDeepTree :: "nat \<Rightarrow> int list \<Rightarrow> int tree \<times> int list" where
  "rowSetNDeepTree iDepth [] = (Leaf, [])"
| "rowSetNDeepTree 0 (v # vs) = (Node Leaf v Leaf, vs)"
| "rowSetNDeepTree (Suc n) (v # vs) =
     (if n \<ge> 1 then
        let (l, rest) = rowSetNDeepTree n (v # vs)
        in (case rest of
              [] \<Rightarrow> (l, [])
            | w # ws \<Rightarrow> let (r, rest') = rowSetNDeepTree n ws in (Node l w r, rest'))
      else (Node Leaf v Leaf, vs))"

lemma rowSetNDeepTree_inorder: "inorder (fst (rowSetNDeepTree d vs)) @ snd (rowSetNDeepTree d vs) = vs"
proof (induction d vs rule: rowSetNDeepTree.induct)
  case (3 n v vs)
  then show ?case by (cases "rowSetNDeepTree n (v # vs)")
    (auto simp: Let_def split: list.splits prod.splits)
qed auto

lemma rowSetNDeepTree_length: "length (snd (rowSetNDeepTree d vs)) \<le> length vs"
  by (subst (2) rowSetNDeepTree_inorder [of d vs, symmetric]) simp

function ListToTree_loop :: "nat \<Rightarrow> int tree \<Rightarrow> int list \<Rightarrow> int tree" where
  "ListToTree_loop iDepth p [] = p"
| "ListToTree_loop iDepth p (v # vs) =
     (let (r, rest) = rowSetNDeepTree iDepth vs in ListToTree_loop (iDepth + 1) (Node p v r) rest)"
  by pat_completeness auto
termination
  by (relation "measure (\<lambda>(d, p, vs). length vs)")
    (auto, metis rowSetNDeepTree_length le_imp_less_Suc snd_conv)

definition rowSetListToTree :: "int list \<Rightarrow> int tree" where
  "rowSetListToTree vs =
     (case vs of [] \<Rightarrow> Leaf | v # vs \<Rightarrow> ListToTree_loop 1 (Node Leaf v Leaf) vs)"

text \<open>The next row number, if any; \<open>None\<close> when the sort runs out of buckets.\<close>

definition sqlite3RowSetNext :: "RowSet \<Rightarrow> (int option \<times> RowSet) option" where
  "sqlite3RowSetNext p =
     (let sorted = (if rs_next p \<or> rs_sorted p then Some (pEntry p) else rowSetEntrySort (pEntry p))
      in map_option (\<lambda>es.
           let p = (if rs_next p then p else p\<lparr>pEntry := es, rs_sorted := True, rs_next := True\<rparr>)
           in (case es of
                 [] \<Rightarrow> (None, p)
               | v # vs \<Rightarrow> let p = p\<lparr>pEntry := vs\<rparr>
                           in (Some v, if vs = [] then sqlite3RowSetClear p else p))) sorted)"

text \<open>Merging a sorted batch into the forest: the trees met are emptied until a free place is
  found. The flag says whether there was one.\<close>

fun forest_add :: "int list \<Rightarrow> int tree list \<Rightarrow> int tree list \<times> int list option" where
  "forest_add p [] = ([], Some p)"
| "forest_add p (t # ts) =
     (if t = Leaf then (rowSetListToTree p # ts, None)
      else let (ts', r) = forest_add (rowSetEntryMerge (rowSetTreeToList t) p) ts in (Leaf # ts', r))"

fun tree_search :: "int \<Rightarrow> int tree \<Rightarrow> bool" where
  "tree_search x Leaf = False"
| "tree_search x (Node l v r) = (if v < x then tree_search x r else if v > x then tree_search x l else True)"

definition RowSetTest_batch :: "bool \<Rightarrow> RowSet \<Rightarrow> int \<Rightarrow> RowSet option" where
  "RowSetTest_batch alloc p batch =
     (if batch = iBatch p then Some p
      else if pEntry p = [] then Some (p\<lparr>iBatch := batch\<rparr>)
      else map_option (\<lambda>es.
             let (ts, r) = forest_add es (pForest p);
                 p = (case r of
                        None \<Rightarrow> p\<lparr>pForest := ts\<rparr>
                      | Some es \<Rightarrow>
                          let (ok, p) = rowSetEntryAlloc alloc (p\<lparr>pForest := ts\<rparr>)
                          in if ok then p\<lparr>pForest := ts @ [rowSetListToTree es]\<rparr> else p)
             in p\<lparr>pEntry := [], rs_sorted := True, iBatch := batch\<rparr>)
           (if rs_sorted p then Some (pEntry p) else rowSetEntrySort (pEntry p)))"

definition sqlite3RowSetTest :: "bool \<Rightarrow> RowSet \<Rightarrow> int \<Rightarrow> int \<Rightarrow> (bool \<times> RowSet) option" where
  "sqlite3RowSetTest alloc p batch iRowid =
     map_option (\<lambda>p. (list_ex (tree_search iRowid) (pForest p), p)) (RowSetTest_batch alloc p batch)"

section \<open>Merging and sorting\<close>

abbreviation strict_sorted :: "int list \<Rightarrow> bool" where
  "strict_sorted xs \<equiv> sorted_wrt (<) xs"

lemma merge_set [simp]: "set (rowSetEntryMerge xs ys) = set xs \<union> set ys"
  by (induction xs ys rule: rowSetEntryMerge.induct) auto

lemma merge_sorted [simp]:
  "strict_sorted xs \<Longrightarrow> strict_sorted ys \<Longrightarrow> strict_sorted (rowSetEntryMerge xs ys)"
  by (induction xs ys rule: rowSetEntryMerge.induct) auto

lemma merge_Nil_iff [simp]: "rowSetEntryMerge xs ys = [] \<longleftrightarrow> xs = [] \<and> ys = []"
  by (induction xs ys rule: rowSetEntryMerge.induct) auto

text \<open>The buckets count the entries in binary: bucket \<open>i\<close> is in use if bit \<open>i\<close> of the count is set.\<close>

fun bucket_count :: "int list list \<Rightarrow> nat" where
  "bucket_count [] = 0"
| "bucket_count (b # bs) = (if b = [] then 0 else 1) + 2 * bucket_count bs"

definition buckets_ok :: "int list list \<Rightarrow> bool" where
  "buckets_ok bs \<longleftrightarrow> list_all strict_sorted bs"

lemma sort_carry_ok:
  assumes "e \<noteq> []" "strict_sorted e" "buckets_ok bs" "bucket_count bs + 1 < 2 ^ length bs"
  shows "\<exists>bs'. sort_carry e bs = Some bs' \<and> length bs' = length bs \<and> buckets_ok bs' \<and>
    bucket_count bs' = bucket_count bs + 1 \<and> \<Union> (set ` set bs') = set e \<union> \<Union> (set ` set bs)"
  using assms
proof (induction e bs rule: sort_carry.induct)
  case (2 e b bs)
  show ?case
  proof (cases "b = []")
    case True
    then show ?thesis using 2(2-) by (simp add: buckets_ok_def)
  next
    case False
    then have "bucket_count bs + 1 < 2 ^ length bs" using 2(5) by simp
    then obtain bs' where "sort_carry (rowSetEntryMerge b e) bs = Some bs'" "length bs' = length bs"
      "buckets_ok bs'" "bucket_count bs' = bucket_count bs + 1"
      "\<Union> (set ` set bs') = set (rowSetEntryMerge b e) \<union> \<Union> (set ` set bs)"
      using 2(1) [OF False] 2(2-4) by (auto simp: buckets_ok_def)
    then show ?thesis using False by (auto simp: buckets_ok_def)
  qed
qed auto

lemma sort_fill_ok:
  assumes "buckets_ok bs" "bucket_count bs + length xs < 2 ^ length bs"
  shows "\<exists>bs'. sort_fill xs bs = Some bs' \<and> length bs' = length bs \<and> buckets_ok bs' \<and>
    \<Union> (set ` set bs') = set xs \<union> \<Union> (set ` set bs)"
  using assms
proof (induction xs bs rule: sort_fill.induct)
  case (2 x xs bs)
  then obtain bs1 where 1: "sort_carry [x] bs = Some bs1" "length bs1 = length bs" "buckets_ok bs1"
    "bucket_count bs1 = bucket_count bs + 1" "\<Union> (set ` set bs1) = {x} \<union> \<Union> (set ` set bs)"
    using sort_carry_ok [of "[x]" bs] by auto
  then show ?case using 2(1) [OF 1(1)] 2(3) by auto
qed auto

lemma sort_join_ok:
  "strict_sorted p \<Longrightarrow> buckets_ok bs \<Longrightarrow> strict_sorted (sort_join p bs) \<and>
     set (sort_join p bs) = set p \<union> \<Union> (set ` set bs)"
proof (induction bs arbitrary: p)
  case (Cons b bs)
  let ?p = "if b = [] then p else if p = [] then b else rowSetEntryMerge p b"
  have "sort_join p (b # bs) = sort_join ?p bs" by (simp add: sort_join_def)
  moreover have "strict_sorted ?p" "set ?p = set p \<union> set b" "buckets_ok bs"
    using Cons.prems by (auto simp: buckets_ok_def)
  ultimately show ?case using Cons.IH [of ?p] by auto
qed (simp add: sort_join_def)

lemma bucket_count_empty: "bucket_count (replicate n []) = 0"
  by (induction n) auto

lemma rowSetEntrySort_ok:
  assumes "length xs < 2 ^ 40"
  shows "\<exists>ys. rowSetEntrySort xs = Some ys \<and> strict_sorted ys \<and> set ys = set xs"
proof -
  have "buckets_ok (replicate 40 [])" by (simp add: buckets_ok_def list_all_iff)
  from sort_fill_ok [OF this, of xs] obtain bs where bs: "sort_fill xs (replicate 40 []) = Some bs"
    "length bs = 40" "buckets_ok bs" "\<Union> (set ` set bs) = set xs"
    using assms by (auto simp: bucket_count_empty)
  then obtain b bs' where "bs = b # bs'" by (cases bs) auto
  then show ?thesis using bs sort_join_ok [of b bs'] by (auto simp: rowSetEntrySort_def buckets_ok_def)
qed

section \<open>Trees\<close>

lemma rowSetTreeToList_inorder: "rowSetTreeToList t = inorder t"
  by (induction t) auto

lemma ListToTree_loop_inorder: "inorder (ListToTree_loop d p vs) = inorder p @ vs"
proof (induction d p vs rule: ListToTree_loop.induct)
  case (2 d p v vs)
  then show ?case using rowSetNDeepTree_inorder [of d vs] by (auto split: prod.split)
qed simp

lemma rowSetListToTree_inorder: "inorder (rowSetListToTree vs) = vs"
  by (cases vs) (auto simp: rowSetListToTree_def ListToTree_loop_inorder)

lemma tree_search_set: "strict_sorted (inorder t) \<Longrightarrow> tree_search x t \<longleftrightarrow> x \<in> set_tree t"
  by (induction t) (auto simp: sorted_wrt_append)

lemma height_NDeepTree: "height (fst (rowSetNDeepTree d vs)) \<le> max 1 d"
proof (induction d vs rule: rowSetNDeepTree.induct)
  case (3 n v vs)
  then show ?case by (cases "rowSetNDeepTree n (v # vs)")
    (fastforce simp: Let_def split: list.splits prod.splits)
qed auto

lemma size_NDeepTree:
  "1 \<le> d \<Longrightarrow> snd (rowSetNDeepTree d vs) \<noteq> [] \<Longrightarrow> size (fst (rowSetNDeepTree d vs)) + 1 = 2 ^ d"
proof (induction d vs rule: rowSetNDeepTree.induct)
  case (3 n v vs)
  show ?case
  proof (cases "n \<ge> 1")
    case True
    obtain l rest where l: "rowSetNDeepTree n (v # vs) = (l, rest)" by fastforce
    with True 3(4) obtain w ws where w: "rest = w # ws" by (cases rest) auto
    obtain r rest' where r: "rowSetNDeepTree n ws = (r, rest')" by fastforce
    have "size l + 1 = 2 ^ n" "size r + 1 = 2 ^ n"
      using 3(1) [OF True True] 3(2) [OF True refl l [symmetric] w True] 3(4) True l w r by auto
    then show ?thesis using True l w r by simp
  next
    case False
    then show ?thesis by (cases n) auto
  qed
qed auto

lemma ListToTree_loop_height:
  assumes "1 \<le> d" and "size p + 1 = 2 ^ d" and "height p \<le> d"
  shows "2 ^ (height (ListToTree_loop d p vs) - 1) \<le> size (ListToTree_loop d p vs)"
  using assms
proof (induction d p vs rule: ListToTree_loop.induct)
  case (1 d p)
  then have "(2::nat) ^ (height p - 1) \<le> 2 ^ (d - 1)" by (intro power_increasing) auto
  moreover have "2 ^ (d - 1) < (2::nat) ^ d" using 1(1) by (intro power_strict_increasing) auto
  ultimately have "2 ^ (height p - 1) \<le> size p" using 1(2) by linarith
  then show ?case by simp
next
  case (2 d p v vs)
  obtain r rest where r: "rowSetNDeepTree d vs = (r, rest)" by fastforce
  have h: "height r \<le> d" using height_NDeepTree [of d vs] r 2(2) by simp
  show ?case
  proof (cases "rest = []")
    case True
    have "(2::nat) ^ (height (Node p v r) - 1) \<le> 2 ^ d" using h 2(4) by (intro power_increasing) auto
    also have "\<dots> \<le> size (Node p v r)" using 2(3) by simp
    finally show ?thesis using True r by simp
  next
    case False
    then have "size r + 1 = 2 ^ d" using size_NDeepTree [OF 2(2), of vs] r by simp
    then show ?thesis using 2(1) [OF r [symmetric] refl] 2(3,4) h r by simp
  qed
qed

section \<open>The set invariant\<close>

definition rs_inv :: "RowSet \<Rightarrow> bool" where
  "rs_inv p \<longleftrightarrow> (rs_sorted p \<longrightarrow> strict_sorted (pEntry p)) \<and>
     list_all (\<lambda>t. strict_sorted (inorder t)) (pForest p)"

definition rs_old :: "RowSet \<Rightarrow> int set" where
  "rs_old p = \<Union> (set_tree ` set (pForest p))"

definition rs_all :: "RowSet \<Rightarrow> int set" where
  "rs_all p = set (pEntry p) \<union> rs_old p"

lemma rs_inv_init: "rs_inv (sqlite3RowSetInit n)" "rs_all (sqlite3RowSetInit n) = {}"
  by (simp_all add: rs_inv_def rs_all_def rs_old_def sqlite3RowSetInit_def)

lemma alloc_keeps:
  "rowSetEntryAlloc alloc p = (ok, p') \<Longrightarrow> pEntry p' = pEntry p \<and> pForest p' = pForest p \<and>
     rs_sorted p' = rs_sorted p \<and> rs_next p' = rs_next p \<and> iBatch p' = iBatch p \<and> (alloc \<longrightarrow> ok)"
  by (auto simp: rowSetEntryAlloc_def split: if_splits)

lemma strict_sorted_snoc: "xs \<noteq> [] \<Longrightarrow> strict_sorted xs \<Longrightarrow> last xs < x \<Longrightarrow> strict_sorted (xs @ [x])"
  by (induction xs) (auto split: if_splits, metis last_in_set order.strict_trans)

lemma rs_insert:
  assumes "rs_inv p"
  shows "rs_inv (sqlite3RowSetInsert alloc p x)"
    and "alloc \<Longrightarrow> pEntry (sqlite3RowSetInsert alloc p x) = pEntry p @ [x]"
    and "pForest (sqlite3RowSetInsert alloc p x) = pForest p"
    and "rs_next (sqlite3RowSetInsert alloc p x) = rs_next p"
proof -
  obtain ok p' where a: "rowSetEntryAlloc alloc p = (ok, p')" by fastforce
  note keeps = alloc_keeps [OF a]
  show "rs_inv (sqlite3RowSetInsert alloc p x)"
    using assms keeps strict_sorted_snoc [of "pEntry p" x]
    by (cases "pEntry p = []") (auto simp: sqlite3RowSetInsert_def a rs_inv_def Let_def)
  show "alloc \<Longrightarrow> pEntry (sqlite3RowSetInsert alloc p x) = pEntry p @ [x]"
    "pForest (sqlite3RowSetInsert alloc p x) = pForest p"
    "rs_next (sqlite3RowSetInsert alloc p x) = rs_next p"
    using keeps unfolding sqlite3RowSetInsert_def a Let_def prod.case by auto
qed

lemma forest_add_ok:
  assumes "strict_sorted p" and "list_all (\<lambda>t. strict_sorted (inorder t)) ts"
    and "forest_add p ts = (ts', r)"
  shows "list_all (\<lambda>t. strict_sorted (inorder t)) ts' \<and>
    (case r of None \<Rightarrow> \<Union> (set_tree ` set ts') = set p \<union> \<Union> (set_tree ` set ts)
     | Some es \<Rightarrow> strict_sorted es \<and> set es \<union> \<Union> (set_tree ` set ts') = set p \<union> \<Union> (set_tree ` set ts))"
  using assms
proof (induction p ts arbitrary: ts' r rule: forest_add.induct)
  case (2 p t ts)
  show ?case
  proof (cases "t = Leaf")
    case True
    have "set_tree (rowSetListToTree p) = set p"
      by (metis rowSetListToTree_inorder set_inorder)
    then show ?thesis using True 2(2-) by (auto simp: rowSetListToTree_inorder)
  next
    case False
    obtain ts1 r1 where f: "forest_add (rowSetEntryMerge (rowSetTreeToList t) p) ts = (ts1, r1)" by fastforce
    then have "ts' = Leaf # ts1" "r = r1" using False 2(4) by auto
    then show ?thesis
      using 2(1) [OF False _ _ f] 2(2,3) by (auto simp: rowSetTreeToList_inorder split: option.splits)
  qed
qed auto

lemma RowSetTest_batch_ok:
  assumes inv: "rs_inv p" and len: "length (pEntry p) < 2 ^ 40"
  shows "\<exists>p'. RowSetTest_batch alloc p batch = Some p' \<and> rs_inv p' \<and> iBatch p' = batch \<and>
    rs_all p' \<subseteq> rs_all p \<and> (alloc \<longrightarrow> rs_all p' = rs_all p) \<and>
    (if batch = iBatch p then p' = p else pEntry p' = [])"
proof -
  consider "batch = iBatch p" | "batch \<noteq> iBatch p" "pEntry p = []" | "batch \<noteq> iBatch p" "pEntry p \<noteq> []" by blast
  then show ?thesis
  proof cases
    case 3
    obtain es where es: "(if rs_sorted p then Some (pEntry p) else rowSetEntrySort (pEntry p)) = Some es"
      "strict_sorted es" "set es = set (pEntry p)"
      using rowSetEntrySort_ok [OF len] inv by (cases "rs_sorted p") (auto simp: rs_inv_def)
    obtain ts r where f: "forest_add es (pForest p) = (ts, r)" by fastforce
    have ok: "list_all (\<lambda>t. strict_sorted (inorder t)) ts" and
      r: "case r of None \<Rightarrow> \<Union> (set_tree ` set ts) = rs_all p
         | Some fs \<Rightarrow> strict_sorted fs \<and> set fs \<union> \<Union> (set_tree ` set ts) = rs_all p"
      using forest_add_ok [OF es(2) _ f] inv es(3) by (auto simp: rs_inv_def rs_all_def rs_old_def split: option.splits)
    show ?thesis
    proof (cases r)
      case None
      then show ?thesis using 3 es f ok r
        by (auto simp: RowSetTest_batch_def rs_inv_def rs_all_def rs_old_def)
    next
      case (Some fs)
      obtain b q where q: "rowSetEntryAlloc alloc (p\<lparr>pForest := ts\<rparr>) = (b, q)" by fastforce
      have "set_tree (rowSetListToTree fs) = set fs" by (metis rowSetListToTree_inorder set_inorder)
      then show ?thesis using 3 es f ok r Some q alloc_keeps [OF q]
        by (auto simp: RowSetTest_batch_def rs_inv_def rs_all_def rs_old_def rowSetListToTree_inorder)
    qed
  qed (use inv in \<open>auto simp: RowSetTest_batch_def rs_inv_def rs_all_def rs_old_def\<close>)
qed

section \<open>Extraction\<close>

text \<open>Calling \<open>sqlite3RowSetNext\<close> until it reports the end, at most \<open>n\<close> times.\<close>

fun rowset_drain :: "nat \<Rightarrow> RowSet \<Rightarrow> int list option" where
  "rowset_drain 0 p = None"
| "rowset_drain (Suc n) p =
     (case sqlite3RowSetNext p of
        None \<Rightarrow> None
      | Some (None, p') \<Rightarrow> Some []
      | Some (Some v, p') \<Rightarrow> map_option (Cons v) (rowset_drain n p'))"

lemma drain_sorted:
  "rs_sorted p \<or> rs_next p \<Longrightarrow> length (pEntry p) < n \<Longrightarrow> rowset_drain n p = Some (pEntry p)"
proof (induction n arbitrary: p)
  case (Suc n)
  then show ?case
    by (cases "pEntry p") (auto simp: sqlite3RowSetNext_def Let_def sqlite3RowSetClear_def)
qed simp

lemma drain_ok:
  assumes "rs_inv p" and "\<not> rs_next p" and "length (pEntry p) < 2 ^ 40" and "length (pEntry p) < n"
  shows "\<exists>es. rowset_drain n p = Some es \<and> strict_sorted es \<and> set es = set (pEntry p)"
proof (cases "rs_sorted p")
  case True
  then show ?thesis using assms drain_sorted [of p n] by (auto simp: rs_inv_def)
next
  case False
  obtain es where es: "rowSetEntrySort (pEntry p) = Some es" "strict_sorted es" "set es = set (pEntry p)"
    using rowSetEntrySort_ok [OF assms(3)] by blast
  have "distinct es" using es(2) by (simp add: strict_sorted_iff)
  then have "length es \<le> length (pEntry p)" using es(3) by (metis card_length distinct_card)
  then have len: "length es < n" using assms(4) by simp
  define q where "q = p\<lparr>pEntry := es, rs_sorted := True, rs_next := True\<rparr>"
  have "sqlite3RowSetNext p = sqlite3RowSetNext q"
    using False assms(2) es(1) by (auto simp: sqlite3RowSetNext_def q_def Let_def split: list.split)
  then have "rowset_drain n p = rowset_drain n q" by (cases n) simp_all
  then show ?thesis using drain_sorted [of q n] len es by (simp add: q_def)
qed

lemma inserts_ok:
  "rs_inv p \<Longrightarrow> rs_inv (fold (\<lambda>x p. sqlite3RowSetInsert True p x) xs p) \<and>
     pEntry (fold (\<lambda>x p. sqlite3RowSetInsert True p x) xs p) = pEntry p @ xs \<and>
     rs_next (fold (\<lambda>x p. sqlite3RowSetInsert True p x) xs p) = rs_next p"
proof (induction xs arbitrary: p)
  case (Cons x xs)
  then show ?case using rs_insert [of p True x] by simp
qed simp

text \<open>
  C21. Inserting fewer than 2 to the power of 40 row numbers, in any order and with duplicates,
  and then calling \<open>sqlite3RowSetNext\<close> until the end delivers each of them once in increasing
  order, and the end is reached after one call more than there are insertions at most.
\<close>

theorem rowset_sorts:
  assumes "length xs < 2 ^ 40"
  shows "rowset_drain (length xs + 1) (fold (\<lambda>x p. sqlite3RowSetInsert True p x) xs (sqlite3RowSetInit n)) =
    Some (sorted_list_of_set (set xs))"
proof -
  let ?p = "fold (\<lambda>x p. sqlite3RowSetInsert True p x) xs (sqlite3RowSetInit n)"
  have p: "rs_inv ?p" "pEntry ?p = xs" "\<not> rs_next ?p"
    using inserts_ok [OF rs_inv_init(1), of xs n] by (simp_all add: sqlite3RowSetInit_def)
  obtain es where "rowset_drain (length xs + 1) ?p = Some es" "strict_sorted es" "set es = set xs"
    using drain_ok [OF p(1,3), of "length xs + 1"] assms p(2) by auto
  then show ?thesis by (metis sorted_list_of_set.idem_if_sorted_distinct strict_sorted_iff)
qed

theorem rowset_sorts_witness:
  "rowset_drain (length [3, 1, 3, 2 :: int] + 1)
     (fold (\<lambda>x p. sqlite3RowSetInsert True p x) [3, 1, 3, 2] (sqlite3RowSetInit 0)) = Some [1, 2, 3]"
proof -
  have sorted: "sorted_list_of_set (set [3, 1, 3, 2 :: int]) = [1, 2, 3]"
    unfolding sorted_list_of_set_sort_remdups by simp
  have "length [3, 1, 3, 2 :: int] < 2 ^ 40" by simp
  from rowset_sorts [OF this, of 0] show ?thesis unfolding sorted .
qed

text \<open>
  C22. \<open>sqlite3RowSetTest\<close> answers whether a row number was inserted before the current batch:
  in a new batch among all values inserted so far, in the current one among those of earlier
  batches. It keeps every value and the invariant when the allocation of a forest node succeeds;
  when it fails, values can get lost but none appears.
\<close>

theorem sqlite3RowSetTest_correct:
  assumes "rs_inv p" and "length (pEntry p) < 2 ^ 40"
  shows "\<exists>b p'. sqlite3RowSetTest alloc p batch x = Some (b, p') \<and> rs_inv p' \<and> rs_all p' \<subseteq> rs_all p \<and>
    (b \<longrightarrow> x \<in> rs_all p) \<and>
    (alloc \<longrightarrow> rs_all p' = rs_all p \<and> b = (x \<in> (if batch = iBatch p then rs_old p else rs_all p)))"
proof -
  obtain p' where p': "RowSetTest_batch alloc p batch = Some p'" "rs_inv p'" "rs_all p' \<subseteq> rs_all p"
    "alloc \<longrightarrow> rs_all p' = rs_all p" "if batch = iBatch p then p' = p else pEntry p' = []"
    using RowSetTest_batch_ok [OF assms, of alloc batch] by blast
  have "list_ex (tree_search x) (pForest p') \<longleftrightarrow> x \<in> rs_old p'"
    using p'(2) by (auto simp: rs_inv_def rs_old_def list_ex_iff list_all_iff tree_search_set)
  then show ?thesis using p' by (auto simp: sqlite3RowSetTest_def rs_all_def split: if_splits)
qed

theorem sqlite3RowSetTest_correct_witness:
  "\<exists>p'. sqlite3RowSetTest True (sqlite3RowSetInsert True (sqlite3RowSetInit 5) 9) 1 9 = Some (True, p')"
proof -
  have "rs_inv (sqlite3RowSetInsert True (sqlite3RowSetInit 5) 9)"
    "pEntry (sqlite3RowSetInsert True (sqlite3RowSetInit 5) 9) = [9]"
    using rs_insert(1,2) [OF rs_inv_init(1) [of 5], of True 9] by (simp_all add: sqlite3RowSetInit_def)
  moreover have "iBatch (sqlite3RowSetInsert True (sqlite3RowSetInit 5) 9) = 0"
    by (simp add: sqlite3RowSetInsert_def rowSetEntryAlloc_def sqlite3RowSetInit_def)
  ultimately show ?thesis
    using sqlite3RowSetTest_correct [of "sqlite3RowSetInsert True (sqlite3RowSetInit 5) 9" True 1 9]
    by (auto simp: rs_all_def)
qed

text \<open>
  The search trees built from a sorted batch are balanced: the height of the tree for a list
  of values is at most one more than the binary logarithm of its length.
\<close>

theorem rowSetListToTree_balanced:
  "inorder (rowSetListToTree (v # vs)) = v # vs \<and>
   2 ^ (height (rowSetListToTree (v # vs)) - 1) \<le> length (v # vs)"
proof -
  have "size (rowSetListToTree (v # vs)) = length (v # vs)"
    by (metis length_inorder rowSetListToTree_inorder)
  then show ?thesis
    using ListToTree_loop_height [of 1 "Node Leaf v Leaf" vs] rowSetListToTree_inorder [of "v # vs"]
    by (simp add: rowSetListToTree_def)
qed

end
