(* ===== verification/Utf.thy ===== *)
theory Utf
  imports Numbers
begin

text \<open>
  Unicode text of \<open>utf.c\<close>: reading and writing of characters in UTF-8 and UTF-16, and the
  translation of a text value between the encodings. Buffers are lists of bytes; the pointer
  \<open>zIn\<close> is the part of the input not read yet, and the output is the list of bytes written.
\<close>

section \<open>Characters\<close>

definition sqlite3Utf8Trans1 :: "u32 list" where
  "sqlite3Utf8Trans1 = [
     0x00, 0x01, 0x02, 0x03, 0x04, 0x05, 0x06, 0x07, 0x08, 0x09, 0x0a, 0x0b, 0x0c, 0x0d, 0x0e, 0x0f,
     0x10, 0x11, 0x12, 0x13, 0x14, 0x15, 0x16, 0x17, 0x18, 0x19, 0x1a, 0x1b, 0x1c, 0x1d, 0x1e, 0x1f,
     0x00, 0x01, 0x02, 0x03, 0x04, 0x05, 0x06, 0x07, 0x08, 0x09, 0x0a, 0x0b, 0x0c, 0x0d, 0x0e, 0x0f,
     0x00, 0x01, 0x02, 0x03, 0x04, 0x05, 0x06, 0x07, 0x00, 0x01, 0x02, 0x03, 0x00, 0x01, 0x00, 0x00]"

definition WRITE_UTF8 :: "u32 \<Rightarrow> u8 list" where
  "WRITE_UTF8 c =
     (if c < 0x80 then [ucast (c AND 0xff)]
      else if c < 0x800 then
        [0xc0 + ucast (drop_bit 6 c AND 0x1f), 0x80 + ucast (c AND 0x3f)]
      else if c < 0x10000 then
        [0xe0 + ucast (drop_bit 12 c AND 0x0f), 0x80 + ucast (drop_bit 6 c AND 0x3f),
         0x80 + ucast (c AND 0x3f)]
      else
        [0xf0 + ucast (drop_bit 18 c AND 0x07), 0x80 + ucast (drop_bit 12 c AND 0x3f),
         0x80 + ucast (drop_bit 6 c AND 0x3f), 0x80 + ucast (c AND 0x3f)])"

definition WRITE_UTF16LE :: "u32 \<Rightarrow> u8 list" where
  "WRITE_UTF16LE c =
     (if c \<le> 0xffff then [ucast (c AND 0xff), ucast (drop_bit 8 c AND 0xff)]
      else [ucast ((drop_bit 10 c AND 0x3f) + (drop_bit 10 (c - 0x10000) AND 0xc0)),
            ucast (0xd8 + (drop_bit 18 (c - 0x10000) AND 0x03)),
            ucast (c AND 0xff), ucast (0xdc + (drop_bit 8 c AND 0x03))])"

definition WRITE_UTF16BE :: "u32 \<Rightarrow> u8 list" where
  "WRITE_UTF16BE c =
     (if c \<le> 0xffff then [ucast (drop_bit 8 c AND 0xff), ucast (c AND 0xff)]
      else [ucast (0xd8 + (drop_bit 18 (c - 0x10000) AND 0x03)),
            ucast ((drop_bit 10 c AND 0x3f) + (drop_bit 10 (c - 0x10000) AND 0xc0)),
            ucast (0xdc + (drop_bit 8 c AND 0x03)), ucast (c AND 0xff)])"

fun read_cont :: "u32 \<Rightarrow> u8 list \<Rightarrow> u32 \<times> u8 list" where
  "read_cont c [] = (c, [])"
| "read_cont c (b # zIn) =
     (if b AND 0xc0 = 0x80 then read_cont (push_bit 6 c + (0x3f AND ucast b)) zIn else (c, b # zIn))"

definition utf8_check :: "u32 \<Rightarrow> u32" where
  "utf8_check c =
     (if c < 0x80 \<or> c AND 0xFFFFF800 = 0xD800 \<or> c AND 0xFFFFFFFE = 0xFFFE then 0xFFFD else c)"

text \<open>The end of the list stands for \<open>zTerm\<close>, or for the terminating zero of \<open>sqlite3Utf8Read\<close>,
  which is no continuation byte.\<close>

definition READ_UTF8 :: "u8 list \<Rightarrow> u32 \<times> u8 list" where
  "READ_UTF8 zIn =
     (let c = ucast (hd0 zIn) :: u32; zIn = tl zIn
      in if c \<ge> 0xc0 then
           (let (c, zIn) = read_cont (sqlite3Utf8Trans1 ! unat (c - 0xc0)) zIn in (utf8_check c, zIn))
         else (c, zIn))"

definition sqlite3Utf8Read :: "cstring \<Rightarrow> u32 \<times> cstring" where
  "sqlite3Utf8Read pz =
     (let c = ucast (hd0 pz) :: u32; pz = tl pz
      in if c \<ge> 0xc0 then
           (let (c, pz) = read_cont (sqlite3Utf8Trans1 ! unat (c - 0xc0)) pz in (utf8_check c, pz))
         else (c, pz))"

definition sqlite3Utf8ReadLimited :: "u8 list \<Rightarrow> nat \<Rightarrow> u32 \<times> nat" where
  "sqlite3Utf8ReadLimited z n =
     (let c = ucast (hd0 z) :: u32
      in if c \<ge> 0xc0 then
           (let n = (if n > 4 then 4 else n);
                (c, rest) = read_cont (sqlite3Utf8Trans1 ! unat (c - 0xc0)) (tl (take n z))
            in (c, length (take n z) - length rest))
         else (c, 1))"

fun SQLITE_SKIP_UTF8_cont :: "u8 list \<Rightarrow> u8 list" where
  "SQLITE_SKIP_UTF8_cont [] = []"
| "SQLITE_SKIP_UTF8_cont (b # z) = (if b AND 0xc0 = 0x80 then SQLITE_SKIP_UTF8_cont z else b # z)"

definition SQLITE_SKIP_UTF8 :: "u8 list \<Rightarrow> u8 list" where
  "SQLITE_SKIP_UTF8 z = (if hd0 z \<ge> 0xc0 then SQLITE_SKIP_UTF8_cont (tl z) else tl z)"

section \<open>Translation\<close>

lemma read_cont_length: "length (snd (read_cont c z)) \<le> length z"
  by (induction c z rule: read_cont.induct) auto

lemma READ_UTF8_shorter: "z \<noteq> [] \<Longrightarrow> length (snd (READ_UTF8 z)) < length z"
  using read_cont_length [of "sqlite3Utf8Trans1 ! unat (ucast (hd0 z) - 0xc0 :: u32)" "tl z"]
  by (cases z) (auto simp: READ_UTF8_def Let_def split: prod.split)

function utf8_to_16 :: "(u32 \<Rightarrow> u8 list) \<Rightarrow> u8 list \<Rightarrow> u8 list" where
  "utf8_to_16 write [] = []"
| "utf8_to_16 write (b # z) =
     (let (c, zIn) = READ_UTF8 (b # z) in write c @ utf8_to_16 write zIn)"
  by pat_completeness auto
termination
  by (relation "measure (\<lambda>(w, z). length z)") (auto, metis READ_UTF8_shorter length_Cons list.distinct(1) snd_conv)

text \<open>Reading a UTF-16 code unit, by the byte order, and the code point of a surrogate pair.\<close>

definition unit16 :: "bool \<Rightarrow> u8 \<Rightarrow> u8 \<Rightarrow> u32" where
  "unit16 be a b = (if be then push_bit 8 (ucast a) + ucast b else ucast a + push_bit 8 (ucast b))"

definition surrogates :: "u32 \<Rightarrow> u32 \<Rightarrow> u32" where
  "surrogates c c2 = (c2 AND 0x03ff) + push_bit 10 (c AND 0x003f) + push_bit 10 ((c AND 0x03c0) + 0x0040)"

fun utf16_to_8 :: "bool \<Rightarrow> u8 list \<Rightarrow> u8 list" where
  "utf16_to_8 be (a # b # z) =
     (let c = unit16 be a b
      in if c \<ge> 0xd800 \<and> c < 0xe000 then
           (case z of
              a2 # b2 # z' \<Rightarrow> WRITE_UTF8 (surrogates c (unit16 be a2 b2)) @ utf16_to_8 be z'
            | _ \<Rightarrow> WRITE_UTF8 c @ utf16_to_8 be z)
         else WRITE_UTF8 c @ utf16_to_8 be z)"
| "utf16_to_8 be z = []"

fun utf16_swap :: "u8 list \<Rightarrow> u8 list" where
  "utf16_swap (a # b # z) = b # a # utf16_swap z"
| "utf16_swap z = z"

text \<open>The part of a \<open>Mem\<close> that holds text: its bytes and their encoding.\<close>

record Mem =
  mem_z :: "u8 list"
  mem_enc :: nat

definition even_take :: "u8 list \<Rightarrow> u8 list" where
  "even_take zs = take (length zs - length zs mod 2) zs"

text \<open>The size of the output buffer that is allocated, terminator included.\<close>

definition translate_len :: "Mem \<Rightarrow> nat \<Rightarrow> nat" where
  "translate_len pMem desiredEnc =
     (if desiredEnc = SQLITE_UTF8 then 2 * length (even_take (mem_z pMem)) + 1 else 2 * length (mem_z pMem) + 2)"

text \<open>Allocation succeeds when \<open>alloc\<close>. When it fails the text stays in its encoding; an odd
  trailing byte of UTF-16 text is dropped before the allocation.\<close>

definition sqlite3VdbeMemTranslate :: "bool \<Rightarrow> Mem \<Rightarrow> nat \<Rightarrow> nat \<times> Mem" where
  "sqlite3VdbeMemTranslate alloc pMem desiredEnc =
     (if mem_enc pMem \<noteq> SQLITE_UTF8 \<and> desiredEnc \<noteq> SQLITE_UTF8 then
        (if \<not> alloc then (SQLITE_NOMEM, pMem)
         else (SQLITE_OK, pMem\<lparr>mem_z := utf16_swap (mem_z pMem), mem_enc := desiredEnc\<rparr>))
      else
        (let pMem = (if desiredEnc = SQLITE_UTF8 then pMem\<lparr>mem_z := even_take (mem_z pMem)\<rparr> else pMem)
         in if \<not> alloc then (SQLITE_NOMEM, pMem)
            else
              (let zOut =
                 (if mem_enc pMem = SQLITE_UTF8 then
                    (if desiredEnc = SQLITE_UTF16LE then utf8_to_16 WRITE_UTF16LE (mem_z pMem)
                     else utf8_to_16 WRITE_UTF16BE (mem_z pMem))
                  else utf16_to_8 (mem_enc pMem \<noteq> SQLITE_UTF16LE) (mem_z pMem))
               in (SQLITE_OK, pMem\<lparr>mem_z := zOut, mem_enc := desiredEnc\<rparr>))))"

definition sqlite3VdbeMemHandleBom :: "bool \<Rightarrow> Mem \<Rightarrow> nat \<times> Mem" where
  "sqlite3VdbeMemHandleBom alloc pMem =
     (case mem_z pMem of
        b1 # b2 # rest \<Rightarrow>
          (let bom = (if b1 = 0xFE \<and> b2 = 0xFF then SQLITE_UTF16BE
                      else if b1 = 0xFF \<and> b2 = 0xFE then SQLITE_UTF16LE else 0)
           in if bom \<noteq> 0 then
                (if \<not> alloc then (SQLITE_NOMEM, pMem)
                 else (SQLITE_OK, pMem\<lparr>mem_z := rest, mem_enc := bom\<rparr>))
              else (SQLITE_OK, pMem))
      | _ \<Rightarrow> (SQLITE_OK, pMem))"

function Utf8CharLen_loop :: "u8 list \<Rightarrow> nat \<Rightarrow> nat" where
  "Utf8CharLen_loop z r =
     (if z \<noteq> [] \<and> hd0 z \<noteq> 0 then Utf8CharLen_loop (SQLITE_SKIP_UTF8 z) (r + 1) else r)"
  by pat_completeness auto
termination
proof (relation "measure (\<lambda>(z, r). length z)")
  have "length (SQLITE_SKIP_UTF8_cont z) \<le> length z" for z by (induction z) auto
  then show "z \<noteq> [] \<and> hd0 z \<noteq> 0 \<Longrightarrow> ((SQLITE_SKIP_UTF8 z, r + 1), z, r) \<in> measure (\<lambda>(z, r). length z)"
    for z :: "u8 list" and r :: nat
    by (cases z) (auto simp: SQLITE_SKIP_UTF8_def le_imp_less_Suc)
qed simp

declare Utf8CharLen_loop.simps [simp del]

definition sqlite3Utf8CharLen :: "cstring \<Rightarrow> int \<Rightarrow> nat" where
  "sqlite3Utf8CharLen zIn nByte = Utf8CharLen_loop (if nByte \<ge> 0 then take (nat nByte) zIn else zIn) 0"

section \<open>Bytes as numbers\<close>

lemma and_not_mask: "c AND NOT (mask n) = push_bit n (drop_bit n c)" for c :: "'a::len word"
  by (rule bit_eqI) (auto simp: bit_simps)

lemma unat_drop_bit: "unat (drop_bit n c) = unat c div 2 ^ n" for c :: "'a::len word"
proof -
  have "take_bit LENGTH('a) (unat c) = unat c" by (simp add: take_bit_nat_eq_self_iff)
  then have "unat (drop_bit n c) = drop_bit n (unat c)" by (simp add: unsigned_drop_bit_eq)
  then show ?thesis by (simp add: drop_bit_eq_div [of n "unat c"])
qed

lemma unat_push_bit:
  "unat c * 2 ^ n < 2 ^ LENGTH('a) \<Longrightarrow> unat (push_bit n c) = unat c * 2 ^ n" for c :: "'a::len word"
  using push_bit_eq_mult [of n "unat c"] by (simp add: unsigned_push_bit_eq take_bit_nat_eq_self_iff)

lemma unat_high_bits: "unat (c AND NOT (mask n)) = unat c div 2 ^ n * 2 ^ n" for c :: "'a::len word"
proof -
  have "unat c div 2 ^ n * 2 ^ n \<le> unat c" by (metis div_mult_mod_eq le_add1)
  then have "unat c div 2 ^ n * 2 ^ n < 2 ^ LENGTH('a)" using unsigned_less [of c] by (rule le_less_trans)
  then show ?thesis by (simp add: and_not_mask unat_push_bit unat_drop_bit)
qed

lemma unat_and_mask: "unat (c AND mask n) = unat c mod 2 ^ n" for c :: "'a::len word"
proof -
  have "unat (c AND mask n) = take_bit n (unat c)" by (simp add: unsigned_take_bit_eq flip: take_bit_eq_mask)
  then show ?thesis by (simp add: take_bit_eq_mod [of n "unat c"])
qed

lemma cont_byte_iff: "b AND 0xc0 = (0x80 :: u8) \<longleftrightarrow> 128 \<le> unat b \<and> unat b < 192"
proof -
  have e: "(0xc0 :: u8) = NOT (mask 6)" by (simp add: mask_eq_exp_minus_1)
  have "unat (b AND 0xc0) = unat b div 64 * 64" unfolding e unat_high_bits by simp
  then have "b AND 0xc0 = 0x80 \<longleftrightarrow> unat b div 64 * 64 = 128" by (simp add: word_unat_eq_iff)
  then show ?thesis by auto
qed

lemma unat_low_bits:
  fixes c :: u32
  shows "unat (c AND 0x3f) = unat c mod 64" "unat (c AND 0x1f) = unat c mod 32"
    "unat (c AND 0x0f) = unat c mod 16" "unat (c AND 0x07) = unat c mod 8"
    "unat (c AND 0x03) = unat c mod 4" "unat (c AND 0xff) = unat c mod 256"
    "unat (c AND 0x03ff) = unat c mod 1024"
proof -
  have m: "m = mask n \<Longrightarrow> unat (c AND m) = unat c mod 2 ^ n" for m n by (simp add: unat_and_mask)
  show "unat (c AND 0x3f) = unat c mod 64" by (subst m [of _ 6]) (simp_all add: mask_eq_exp_minus_1)
  show "unat (c AND 0x1f) = unat c mod 32" by (subst m [of _ 5]) (simp_all add: mask_eq_exp_minus_1)
  show "unat (c AND 0x0f) = unat c mod 16" by (subst m [of _ 4]) (simp_all add: mask_eq_exp_minus_1)
  show "unat (c AND 0x07) = unat c mod 8" by (subst m [of _ 3]) (simp_all add: mask_eq_exp_minus_1)
  show "unat (c AND 0x03) = unat c mod 4" by (subst m [of _ 2]) (simp_all add: mask_eq_exp_minus_1)
  show "unat (c AND 0xff) = unat c mod 256" by (subst m [of _ 8]) (simp_all add: mask_eq_exp_minus_1)
  show "unat (c AND 0x03ff) = unat c mod 1024" by (subst m [of _ 10]) (simp_all add: mask_eq_exp_minus_1)
qed

lemma unat_to_u8: "unat (ucast (x :: u32) :: u8) = unat x mod 256"
  using take_bit_eq_mod [of 8 "unat x"] by (simp add: unsigned_ucast_eq)

lemma unat_lead_byte:
  "unat (0xc0 + ucast (c AND 0x1f) :: u8) = 192 + unat (c :: u32) mod 32"
  "unat (0xe0 + ucast (c AND 0x0f) :: u8) = 224 + unat c mod 16"
  "unat (0xf0 + ucast (c AND 0x07) :: u8) = 240 + unat c mod 8"
  "unat (0x80 + ucast (c AND 0x3f) :: u8) = 128 + unat c mod 64"
  by (simp_all add: unat_word_ariths unat_to_u8 unat_low_bits)

lemma read_cont_step:
  assumes "unat c < 2 ^ 26"
  shows "unat (push_bit 6 c + (0x3f AND ucast b) :: u32) = unat c * 64 + unat (b :: u8) mod 64"
proof -
  have "unat (ucast b :: u32) = unat b" by simp
  then have "unat (0x3f AND ucast b :: u32) = unat b mod 64" by (metis and.commute unat_low_bits(1))
  moreover have "unat (push_bit 6 c) = unat c * 64"
    using assms unat_push_bit [of c 6] by simp
  moreover have "unat c * 64 + unat b mod 64 < 2 ^ 32" using assms by simp
  ultimately show ?thesis by (simp add: unat_word_ariths)
qed

lemma utf8_check_unat:
  "utf8_check c = (if unat c < 128 \<or> unat c div 2048 = 27 \<or> unat c div 2 = 32767 then 0xFFFD else c)"
proof -
  have e: "(0xFFFFF800 :: u32) = NOT (mask 11)" and f: "(0xFFFFFFFE :: u32) = NOT (mask 1)"
    by (simp_all add: mask_eq_exp_minus_1)
  have "unat (c AND 0xFFFFF800) = unat c div 2048 * 2048" unfolding e unat_high_bits by simp
  then have "c AND 0xFFFFF800 = 0xD800 \<longleftrightarrow> unat c div 2048 = 27" by (simp add: word_unat_eq_iff)
  moreover have "unat (c AND 0xFFFFFFFE) = unat c div 2 * 2" unfolding f unat_high_bits by simp
  then have "c AND 0xFFFFFFFE = 0xFFFE \<longleftrightarrow> unat c div 2 = 32767" by (simp add: word_unat_eq_iff)
  ultimately show ?thesis by (simp add: utf8_check_def word_less_nat_alt)
qed

lemma unat_eqD: "unat w = k \<Longrightarrow> w = of_nat k" for w :: u32
  by auto

definition trans1 :: "nat \<Rightarrow> nat" where
  "trans1 i = (if i < 32 then i else if i < 48 then i - 32 else if i < 56 then i - 48
     else if i < 60 then i - 56 else if i = 61 then 1 else 0)"

lemma Utf8Trans1_nth: "i < 64 \<Longrightarrow> sqlite3Utf8Trans1 ! i = of_nat (trans1 i)"
proof -
  have "\<forall>i\<in>set [0..<64]. unat (sqlite3Utf8Trans1 ! i) = trans1 i" by code_simp
  then show "i < 64 \<Longrightarrow> sqlite3Utf8Trans1 ! i = of_nat (trans1 i)" by (intro unat_eqD) simp
qed

section \<open>UTF-8 characters\<close>

text \<open>The input does not go on with a continuation byte.\<close>

definition no_cont :: "u8 list \<Rightarrow> bool" where
  "no_cont zs \<longleftrightarrow> (case zs of [] \<Rightarrow> True | b # _ \<Rightarrow> b AND 0xc0 \<noteq> 0x80)"

lemma read_cont_stop: "no_cont zs \<Longrightarrow> read_cont c zs = (c, zs)"
  by (cases zs) (auto simp: no_cont_def)

lemma read_cont_next:
  assumes "128 \<le> unat b" and "unat b < 192" and "k < 2 ^ 26"
  shows "read_cont (of_nat k) (b # zs) = read_cont (of_nat (k * 64 + unat b mod 64)) zs"
proof -
  have "unat (of_nat k :: u32) = k" using assms(3) by (simp add: unsigned_of_nat take_bit_nat_eq_self_iff)
  then have "unat (push_bit 6 (of_nat k) + (0x3f AND ucast b) :: u32) = k * 64 + unat b mod 64"
    using read_cont_step [of "of_nat k" b] assms(3) by simp
  then have "push_bit 6 (of_nat k) + (0x3f AND ucast b) = (of_nat (k * 64 + unat b mod 64) :: u32)"
    by (rule unat_eqD)
  then show ?thesis using assms(1,2) by (simp add: cont_byte_iff)
qed

lemma READ_lead:
  assumes "192 \<le> unat b"
  shows "READ_UTF8 (b # zs) = map_prod utf8_check id (read_cont (of_nat (trans1 (unat b - 192))) zs)"
proof -
  have u: "unat (ucast b :: u32) = unat b" by simp
  then have c: "0xc0 \<le> (ucast b :: u32)" using assms by (simp add: word_le_nat_alt)
  then have "unat (ucast b - 0xc0 :: u32) = unat b - 192" using u by (simp add: unat_sub)
  moreover have "unat b - 192 < 64" using unat_u8_less [of b] by simp
  ultimately show ?thesis using c
    by (simp add: READ_UTF8_def Utf8Trans1_nth map_prod_def)
qed

lemma cont_low: "(128 + x mod 64) mod 64 = x mod (64 :: nat)"
proof -
  have "(x mod 64 + 2 * 64) mod 64 = x mod 64" by (simp only: mod_mult_self1 mod_mod_trivial)
  then show ?thesis by (simp add: add.commute)
qed

lemma READ_chain:
  assumes "192 \<le> unat b" and "no_cont rest" and "list_all (\<lambda>b. 128 \<le> unat b \<and> unat b < 192) bs"
    and "length bs \<le> 3"
  shows "READ_UTF8 (b # bs @ rest) =
    (utf8_check (of_nat (fold (\<lambda>b k. k * 64 + unat b mod 64) bs (trans1 (unat b - 192)))), rest)"
proof -
  have chain: "read_cont (of_nat k) (bs @ rest) = (of_nat (fold (\<lambda>b k. k * 64 + unat b mod 64) bs k), rest)"
    if "k < 32 * 64 ^ j" "list_all (\<lambda>b. 128 \<le> unat b \<and> unat b < 192) bs" "j + length bs \<le> 3" for k j bs
    using that
  proof (induction bs arbitrary: k j)
    case Nil
    then show ?case using assms(2) by (simp add: read_cont_stop)
  next
    case (Cons b bs)
    have "(64 :: nat) ^ j \<le> 64 ^ 2" using Cons.prems(3) by (intro power_increasing) auto
    then have k: "k < 2 ^ 26" using Cons.prems(1) by simp
    have "k * 64 + unat b mod 64 < 32 * 64 ^ Suc j" using Cons.prems(1) by simp
    then have "read_cont (of_nat (k * 64 + unat b mod 64)) (bs @ rest) =
        (of_nat (fold (\<lambda>b k. k * 64 + unat b mod 64) bs (k * 64 + unat b mod 64)), rest)"
      using Cons.prems(2,3) by (intro Cons.IH [of _ "Suc j"]) auto
    then show ?case using Cons.prems(2) read_cont_next [OF _ _ k, of b "bs @ rest"]
      by (simp del: of_nat_add of_nat_mult)
  qed
  have "trans1 (unat b - 192) < 32 * 64 ^ 0" by (auto simp: trans1_def)
  from chain [OF this assms(3)] show ?thesis using READ_lead [OF assms(1), of "bs @ rest"] assms(4) by simp
qed

definition utf8_norm :: "u32 \<Rightarrow> u32" where
  "utf8_norm c = (if 0xD800 \<le> c \<and> c \<le> 0xDFFF \<or> c = 0xFFFE \<or> c = 0xFFFF then 0xFFFD else c)"

lemma utf8_norm_check: "0x80 \<le> c \<Longrightarrow> utf8_check c = utf8_norm c"
proof -
  assume "0x80 \<le> c"
  moreover have "unat c div 2048 = 27 \<longleftrightarrow> 55296 \<le> unat c \<and> unat c \<le> 57343" by auto
  moreover have "unat c div 2 = 32767 \<longleftrightarrow> unat c = 65534 \<or> unat c = 65535" by auto
  ultimately show ?thesis
    by (simp add: utf8_check_unat utf8_norm_def word_le_nat_alt word_unat_eq_iff)
qed

lemma READ_WRITE_UTF8:
  assumes "c < 0x110000" and "no_cont rest"
  shows "READ_UTF8 (WRITE_UTF8 c @ rest) = (utf8_norm c, rest)"
proof -
  define n where "n = unat c"
  have n: "n < 0x110000" using assms(1) by (simp add: n_def word_less_nat_alt)
  have n4096: "n div 4096 = n div 64 div 64" and n262144: "n div 262144 = n div 64 div 64 div 64"
    by (simp_all add: div_mult2_eq [symmetric])
  have norm: "0x80 \<le> n \<Longrightarrow> utf8_check (of_nat n) = utf8_norm c"
    using utf8_norm_check [of c] by (simp add: word_le_nat_alt n_def)
  consider "n < 0x80" | "0x80 \<le> n" "n < 0x800" | "0x800 \<le> n" "n < 0x10000" | "0x10000 \<le> n" by linarith
  then show ?thesis
  proof cases
    case 1
    then have "unat (ucast (c AND 0xff) :: u8) = n" by (simp add: unat_to_u8 unat_low_bits n_def)
    then have "(ucast (ucast (c AND 0xff) :: u8) :: u32) = c" using n_def by (simp add: word_unat_eq_iff)
    then show ?thesis using 1
      by (simp add: WRITE_UTF8_def READ_UTF8_def utf8_norm_def word_less_nat_alt word_le_nat_alt word_unat_eq_iff
        flip: n_def)
  next
    case 2
    let ?b = "[0x80 + ucast (c AND 0x3f)] :: u8 list"
    have "WRITE_UTF8 c = (0xc0 + ucast (drop_bit 6 c AND 0x1f)) # ?b"
      using 2 by (simp add: WRITE_UTF8_def word_less_nat_alt flip: n_def)
    moreover have "unat (0xc0 + ucast (drop_bit 6 c AND 0x1f) :: u8) - 192 = n div 64" "n div 64 < 32"
      using 2 by (simp_all add: unat_lead_byte unat_drop_bit less_mult_imp_div_less flip: n_def)
    moreover have "n div 64 * 64 + n mod 64 = n" by simp
    ultimately show ?thesis using 2 assms(2) READ_chain [of "0xc0 + ucast (drop_bit 6 c AND 0x1f)" rest ?b]
      by (auto simp: unat_lead_byte trans1_def norm cont_low simp flip: n_def simp del: of_nat_add of_nat_mult)
  next
    case 3
    let ?b = "[0x80 + ucast (drop_bit 6 c AND 0x3f), 0x80 + ucast (c AND 0x3f)] :: u8 list"
    have "WRITE_UTF8 c = (0xe0 + ucast (drop_bit 12 c AND 0x0f)) # ?b"
      using 3 by (simp add: WRITE_UTF8_def word_less_nat_alt flip: n_def)
    moreover have "unat (0xe0 + ucast (drop_bit 12 c AND 0x0f) :: u8) - 192 = 32 + n div 4096" "n div 4096 < 16"
      using 3 by (simp_all add: unat_lead_byte unat_drop_bit less_mult_imp_div_less flip: n_def)
    moreover have "(n div 4096 * 64 + n div 64 mod 64) * 64 + n mod 64 = n"
      unfolding n4096 div_mult_mod_eq ..
    ultimately show ?thesis using 3 assms(2) READ_chain [of "0xe0 + ucast (drop_bit 12 c AND 0x0f)" rest ?b]
      by (auto simp: unat_lead_byte unat_drop_bit trans1_def norm cont_low simp flip: n_def simp del: of_nat_add of_nat_mult)
  next
    case 4
    let ?b = "[0x80 + ucast (drop_bit 12 c AND 0x3f), 0x80 + ucast (drop_bit 6 c AND 0x3f),
       0x80 + ucast (c AND 0x3f)] :: u8 list"
    have "WRITE_UTF8 c = (0xf0 + ucast (drop_bit 18 c AND 0x07)) # ?b"
      using 4 by (simp add: WRITE_UTF8_def word_less_nat_alt flip: n_def)
    moreover have "unat (0xf0 + ucast (drop_bit 18 c AND 0x07) :: u8) - 192 = 48 + n div 262144" "n div 262144 < 8"
      using n by (simp_all add: unat_lead_byte unat_drop_bit less_mult_imp_div_less flip: n_def)
    moreover have "((n div 262144 * 64 + n div 4096 mod 64) * 64 + n div 64 mod 64) * 64 + n mod 64 = n"
      unfolding n262144 n4096 div_mult_mod_eq ..
    ultimately show ?thesis using 4 assms(2) READ_chain [of "0xf0 + ucast (drop_bit 18 c AND 0x07)" rest ?b]
      by (auto simp: unat_lead_byte unat_drop_bit trans1_def norm cont_low simp flip: n_def simp del: of_nat_add of_nat_mult)
  qed
qed

section \<open>UTF-16 characters\<close>

lemma unat_mid_bits:
  fixes x :: u32
  shows "unat (x AND 0xc0) = unat x mod 256 div 64 * 64" "unat (x AND 0x03c0) = unat x mod 1024 div 64 * 64"
proof -
  have 1: "(0xc0 :: u32) = mask 8 AND NOT (mask 6)" by (simp add: mask_eq_exp_minus_1)
  have 2: "(0x03c0 :: u32) = mask 10 AND NOT (mask 6)" by (simp add: mask_eq_exp_minus_1)
  show "unat (x AND 0xc0) = unat x mod 256 div 64 * 64"
    unfolding 1 and.assoc [symmetric] unat_high_bits unat_and_mask by simp
  show "unat (x AND 0x03c0) = unat x mod 1024 div 64 * 64"
    unfolding 2 and.assoc [symmetric] unat_high_bits unat_and_mask by simp
qed

lemma unat_unit16:
  "unat (unit16 False a b) = unat a + unat b * 256" "unat (unit16 True a b) = unat a * 256 + unat b"
proof -
  have u: "unat (ucast x :: u32) = unat (x :: u8)" for x by simp
  have p: "unat (push_bit 8 (ucast x) :: u32) = unat x * 256" for x :: u8
    using unat_push_bit [of "ucast x :: u32" 8] u unat_u8_less [of x] by simp
  show "unat (unit16 False a b) = unat a + unat b * 256" "unat (unit16 True a b) = unat a * 256 + unat b"
    using unat_u8_less [of a] unat_u8_less [of b] by (simp_all add: unit16_def unat_word_ariths p)
qed

lemma unit16_bmp:
  assumes "c \<le> 0xffff"
  shows "unit16 False (ucast (c AND 0xff)) (ucast (drop_bit 8 c AND 0xff)) = c"
    and "unit16 True (ucast (drop_bit 8 c AND 0xff)) (ucast (c AND 0xff)) = c"
proof -
  have "unat c mod 256 + unat c div 256 mod 256 * 256 = unat c" using assms by (simp add: word_le_nat_alt)
  then show "unit16 False (ucast (c AND 0xff)) (ucast (drop_bit 8 c AND 0xff)) = c"
    "unit16 True (ucast (drop_bit 8 c AND 0xff)) (ucast (c AND 0xff)) = c"
    by (simp_all add: word_unat_eq_iff unat_unit16 unat_to_u8 unat_low_bits unat_drop_bit add.commute)
qed

text \<open>The two code units of a character beyond the basic plane.\<close>

lemma pair_units:
  assumes c: "0xffff < c" "c < 0x110000"
  defines "hi \<equiv> unit16 False (ucast ((drop_bit 10 c AND 0x3f) + (drop_bit 10 (c - 0x10000) AND 0xc0)))
      (ucast (0xd8 + (drop_bit 18 (c - 0x10000) AND 0x03)))"
    and "lo \<equiv> unit16 False (ucast (c AND 0xff)) (ucast (0xdc + (drop_bit 8 c AND 0x03)))"
  shows "unat hi = 0xd800 + (unat c - 0x10000) div 1024" and "surrogates hi lo = c"
proof -
  define n m where "n = unat c" and "m = unat c - 0x10000"
  have nm: "n = m + 0x10000" "m < 0x100000" using c by (simp_all add: n_def m_def word_less_nat_alt)
  have cm: "unat (c - 0x10000) = m" using c by (simp add: m_def unat_sub word_less_nat_alt word_le_nat_alt)
  have d: "m div 262144 = m div 1024 div 256" by (simp add: div_mult2_eq [symmetric])
  have n10: "n div 1024 = m div 1024 + 64" using nm(1) by simp
  have q: "m div 1024 < 1024" using nm(2) by (simp add: less_mult_imp_div_less)
  have b1: "unat (ucast ((drop_bit 10 c AND 0x3f) + (drop_bit 10 (c - 0x10000) AND 0xc0)) :: u8) =
      m div 1024 mod 256"
  proof -
    have "unat ((drop_bit 10 c AND 0x3f) + (drop_bit 10 (c - 0x10000) AND 0xc0)) =
        (m div 1024 + 64) mod 64 + m div 1024 mod 256 div 64 * 64"
      by (simp add: unat_word_ariths unat_low_bits unat_mid_bits unat_drop_bit cm n10 flip: n_def)
    also have "\<dots> = m div 1024 mod 256 mod 64 + m div 1024 mod 256 div 64 * 64" by (simp add: mod_mod_cancel)
    also have "\<dots> = m div 1024 mod 256" by (rule mod_div_mult_eq)
    finally show ?thesis by (simp add: unat_to_u8)
  qed
  have b2: "unat (ucast (0xd8 + (drop_bit 18 (c - 0x10000) AND 0x03)) :: u8) = 0xd8 + m div 1024 div 256"
    using q by (simp add: unat_to_u8 unat_word_ariths unat_low_bits unat_drop_bit cm d less_mult_imp_div_less)
  have "m div 1024 mod 256 + m div 1024 div 256 * 256 = m div 1024" by simp
  then show hi: "unat hi = 0xd800 + (unat c - 0x10000) div 1024"
    unfolding hi_def unat_unit16 b1 b2 by (simp add: m_def)
  have lo: "unat lo = 0xdc00 + n mod 1024"
  proof -
    have "unat (ucast (0xdc + (drop_bit 8 c AND 0x03)) :: u8) = 0xdc + n div 256 mod 4"
      by (simp add: unat_to_u8 unat_word_ariths unat_low_bits unat_drop_bit flip: n_def)
    moreover have "unat (ucast (c AND 0xff) :: u8) = n mod 256" by (simp add: unat_to_u8 unat_low_bits flip: n_def)
    moreover have "n mod 256 + n div 256 mod 4 * 256 = n mod 1024" by (simp add: mod_mult2_eq [of n 256 4, simplified])
    ultimately show ?thesis unfolding lo_def unat_unit16 by simp
  qed
  define h where "h = m div 1024"
  have hh: "unat hi = 0xd800 + h" "h < 1024" using hi q by (simp_all add: h_def m_def)
  have "(h + 864 * 64) mod 64 = h mod 64" by (rule mod_mult_self1)
  moreover have "(h + 54 * 1024) mod 1024 = h" using hh(2) by (simp only: mod_mult_self1 mod_less)
  ultimately have himod: "unat hi mod 64 = h mod 64" "unat hi mod 1024 = h" by (simp_all add: hh(1) add.commute)
  have "unat (push_bit 10 (hi AND 0x3f)) = (h mod 64) * 1024"
    using unat_push_bit [of "hi AND 0x3f" 10] hh(2) by (simp add: unat_low_bits himod)
  moreover have "unat ((hi AND 0x03c0) + 0x40) = h div 64 * 64 + 64"
    using hh(2) by (simp add: unat_word_ariths unat_mid_bits himod)
  then have "unat (push_bit 10 ((hi AND 0x03c0) + 0x40)) = (h div 64 * 64 + 64) * 1024"
    using unat_push_bit [of "(hi AND 0x03c0) + 0x40" 10] hh(2) by simp
  moreover have "(n mod 1024 + 55 * 1024) mod 1024 = n mod 1024" by (simp only: mod_mult_self1 mod_mod_trivial)
  then have "unat (lo AND 0x03ff) = n mod 1024" by (simp add: unat_low_bits lo add.commute)
  ultimately have "unat (surrogates hi lo) = (n mod 1024 + h mod 64 * 1024 + (h div 64 * 64 + 64) * 1024) mod 2 ^ 32"
    by (simp add: surrogates_def unat_word_ariths)
  also have "n mod 1024 + h mod 64 * 1024 + (h div 64 * 64 + 64) * 1024 = n mod 1024 + (h mod 64 + h div 64 * 64 + 64) * 1024"
    by (simp only: add_mult_distrib add.assoc)
  also have "h mod 64 + h div 64 * 64 = h" by (rule mod_div_mult_eq)
  also have "n mod 1024 + (h + 64) * 1024 = n" using n10 mod_div_mult_eq [of n 1024] by (simp add: h_def)
  finally have "unat (surrogates hi lo) = unat c" using nm by (simp add: n_def)
  then show "surrogates hi lo = c" by (simp add: word_unat_eq_iff)
qed

lemma unit16_BE: "unit16 True a b = unit16 False b a"
  by (simp add: unit16_def add.commute)

lemma utf16_to_8_unit:
  "\<not> (0xd800 \<le> unit16 be a b \<and> unit16 be a b < 0xe000) \<Longrightarrow>
   utf16_to_8 be (a # b # z) = WRITE_UTF8 (unit16 be a b) @ utf16_to_8 be z"
  by (auto simp: Let_def)

lemma utf16_to_8_pair:
  "0xd800 \<le> unit16 be a b \<Longrightarrow> unit16 be a b < 0xe000 \<Longrightarrow>
   utf16_to_8 be (a # b # a2 # b2 # z) =
   WRITE_UTF8 (surrogates (unit16 be a b) (unit16 be a2 b2)) @ utf16_to_8 be z"
  by (simp add: Let_def)

lemma utf16_to_8_WRITE:
  assumes "c < 0x110000" and "\<not> (0xd800 \<le> c \<and> c < 0xe000)"
  shows "utf16_to_8 False (WRITE_UTF16LE c @ rest) = WRITE_UTF8 c @ utf16_to_8 False rest"
    and "utf16_to_8 True (WRITE_UTF16BE c @ rest) = WRITE_UTF8 c @ utf16_to_8 True rest"
proof -
  have "utf16_to_8 False (WRITE_UTF16LE c @ rest) = WRITE_UTF8 c @ utf16_to_8 False rest \<and>
    utf16_to_8 True (WRITE_UTF16BE c @ rest) = WRITE_UTF8 c @ utf16_to_8 True rest"
  proof (cases "c \<le> 0xffff")
    case True
    let ?a = "ucast (c AND 0xff) :: u8" and ?b = "ucast (drop_bit 8 c AND 0xff) :: u8"
    have u: "unit16 False ?a ?b = c" "unit16 True ?b ?a = c" using True by (simp_all add: unit16_bmp)
    show ?thesis using True utf16_to_8_unit [of False ?a ?b rest] utf16_to_8_unit [of True ?b ?a rest] assms(2)
      unfolding u by (simp add: WRITE_UTF16LE_def WRITE_UTF16BE_def del: utf16_to_8.simps)
  next
    case False
    then have c: "0xffff < c" by simp
    let ?b1 = "ucast ((drop_bit 10 c AND 0x3f) + (drop_bit 10 (c - 0x10000) AND 0xc0)) :: u8"
    let ?b2 = "ucast (0xd8 + (drop_bit 18 (c - 0x10000) AND 0x03)) :: u8"
    let ?b3 = "ucast (c AND 0xff) :: u8" and ?b4 = "ucast (0xdc + (drop_bit 8 c AND 0x03)) :: u8"
    have "(unat c - 0x10000) div 1024 < 1024" using assms(1) by (simp add: word_less_nat_alt less_mult_imp_div_less)
    then have r: "0xd800 \<le> unit16 False ?b1 ?b2" "unit16 False ?b1 ?b2 < 0xe000"
      using pair_units(1) [OF c assms(1)] by (simp_all add: word_le_nat_alt word_less_nat_alt)
    have "utf16_to_8 False (?b1 # ?b2 # ?b3 # ?b4 # rest) = WRITE_UTF8 c @ utf16_to_8 False rest"
      unfolding utf16_to_8_pair [OF r] pair_units(2) [OF c assms(1)] ..
    moreover have "utf16_to_8 True (?b2 # ?b1 # ?b4 # ?b3 # rest) = WRITE_UTF8 c @ utf16_to_8 True rest"
      unfolding utf16_to_8_pair [of True, unfolded unit16_BE, OF r] pair_units(2) [OF c assms(1)] ..
    ultimately show ?thesis using c
      by (simp add: WRITE_UTF16LE_def WRITE_UTF16BE_def not_le [symmetric] del: utf16_to_8.simps)
  qed
  then show "utf16_to_8 False (WRITE_UTF16LE c @ rest) = WRITE_UTF8 c @ utf16_to_8 False rest"
    "utf16_to_8 True (WRITE_UTF16BE c @ rest) = WRITE_UTF8 c @ utf16_to_8 True rest" by blast+
qed

section \<open>Texts\<close>

text \<open>A text is a sequence of characters, the code points that both decoders keep as they are.\<close>

definition enc_text :: "nat \<Rightarrow> u32 list \<Rightarrow> u8 list" where
  "enc_text enc cs =
     concat (map (if enc = SQLITE_UTF8 then WRITE_UTF8 else if enc = SQLITE_UTF16LE then WRITE_UTF16LE else WRITE_UTF16BE) cs)"

definition character :: "u32 \<Rightarrow> bool" where
  "character c \<longleftrightarrow> c < 0x110000 \<and> utf8_norm c = c"

lemmas encodings = SQLITE_UTF8_def SQLITE_UTF16LE_def SQLITE_UTF16BE_def

lemma character_not_surrogate: "character c \<Longrightarrow> \<not> (0xd800 \<le> c \<and> c < 0xe000)"
  by (auto simp: character_def utf8_norm_def word_le_nat_alt word_less_nat_alt word_unat_eq_iff split: if_splits)

lemma no_cont_text: "no_cont (concat (map WRITE_UTF8 cs))"
proof (cases cs)
  case (Cons c cs')
  have "unat (ucast (c AND 0xff) :: u8) < 128" if "c < 0x80"
    using that by (simp add: unat_to_u8 unat_low_bits word_less_nat_alt)
  then show ?thesis by (auto simp: Cons no_cont_def WRITE_UTF8_def cont_byte_iff unat_lead_byte)
qed (simp add: no_cont_def)

lemma utf8_to_16_text: "\<forall>c\<in>set cs. character c \<Longrightarrow> utf8_to_16 w (concat (map WRITE_UTF8 cs)) = concat (map w cs)"
proof (induction cs)
  case (Cons c cs)
  obtain b z where bz: "WRITE_UTF8 c @ concat (map WRITE_UTF8 cs) = b # z"
    by (cases "WRITE_UTF8 c @ concat (map WRITE_UTF8 cs)") (auto simp: WRITE_UTF8_def split: if_splits)
  have "READ_UTF8 (b # z) = (c, concat (map WRITE_UTF8 cs))"
    using READ_WRITE_UTF8 [OF _ no_cont_text, of c cs] Cons.prems unfolding bz by (simp add: character_def)
  then show ?case using Cons.IH Cons.prems bz by simp
qed simp

lemma utf16_to_8_text:
  "\<forall>c\<in>set cs. character c \<Longrightarrow> utf16_to_8 False (concat (map WRITE_UTF16LE cs)) = concat (map WRITE_UTF8 cs)"
  "\<forall>c\<in>set cs. character c \<Longrightarrow> utf16_to_8 True (concat (map WRITE_UTF16BE cs)) = concat (map WRITE_UTF8 cs)"
  by (induction cs) (simp_all add: utf16_to_8_WRITE character_not_surrogate character_def [THEN iffD1])

lemma utf16_swap_text:
  "utf16_swap (concat (map WRITE_UTF16LE cs)) = concat (map WRITE_UTF16BE cs)"
  "utf16_swap (concat (map WRITE_UTF16BE cs)) = concat (map WRITE_UTF16LE cs)"
  by (induction cs) (simp_all add: WRITE_UTF16LE_def WRITE_UTF16BE_def)

lemma even_take_text:
  "even_take (concat (map WRITE_UTF16LE cs)) = concat (map WRITE_UTF16LE cs)"
  "even_take (concat (map WRITE_UTF16BE cs)) = concat (map WRITE_UTF16BE cs)"
proof -
  have "even (length (concat (map WRITE_UTF16LE cs)))" "even (length (concat (map WRITE_UTF16BE cs)))"
    by (induction cs) (simp_all add: WRITE_UTF16LE_def WRITE_UTF16BE_def)
  then show "even_take (concat (map WRITE_UTF16LE cs)) = concat (map WRITE_UTF16LE cs)"
    "even_take (concat (map WRITE_UTF16BE cs)) = concat (map WRITE_UTF16BE cs)"
    by (simp_all add: even_take_def)
qed

section \<open>Size of the output\<close>

lemma WRITE_UTF8_length: "length (WRITE_UTF8 c) \<le> 4"
  by (simp add: WRITE_UTF8_def)

lemma utf16_to_8_single:
  assumes "\<not> (0xd800 \<le> unit16 be a b \<and> unit16 be a b < 0xe000 \<and> (\<exists>a2 b2 z2. z = a2 # b2 # z2))"
  shows "utf16_to_8 be (a # b # z) = WRITE_UTF8 (unit16 be a b) @ utf16_to_8 be z"
proof (cases "0xd800 \<le> unit16 be a b \<and> unit16 be a b < 0xe000")
  case True
  then consider "z = []" | x where "z = [x]" using assms by (metis neq_Nil_conv)
  then show ?thesis using True by cases simp_all
qed (rule utf16_to_8_unit)

lemma utf16_to_8_length: "length (utf16_to_8 be z) \<le> 2 * length z"
proof (induction "length z" arbitrary: z rule: less_induct)
  case less
  consider "\<nexists>a b z'. z = a # b # z'" | a b z' where "z = a # b # z'" by blast
  then show ?case
  proof cases
    case 1
    then show ?thesis by (cases "(be, z)" rule: utf16_to_8.cases) auto
  next
    case (2 a b z')
    show ?thesis
    proof (cases "0xd800 \<le> unit16 be a b \<and> unit16 be a b < 0xe000 \<and> (\<exists>a2 b2 z2. z' = a2 # b2 # z2)")
      case True
      then obtain a2 b2 z2 where z: "z' = a2 # b2 # z2" by blast
      show ?thesis using True less [of z2] WRITE_UTF8_length [of "surrogates (unit16 be a b) (unit16 be a2 b2)"]
        by (simp add: 2 z)
    next
      case False
      then have "utf16_to_8 be z = WRITE_UTF8 (unit16 be a b) @ utf16_to_8 be z'"
        unfolding 2 by (rule utf16_to_8_single)
      then show ?thesis using less [of z'] WRITE_UTF8_length [of "unit16 be a b"] by (simp add: 2)
    qed
  qed
qed

lemma read_cont_progress: "length (snd (read_cont c z)) < length z \<or> read_cont c z = (c, z)"
  by (cases z) (auto simp: le_imp_less_Suc read_cont_length)

lemma READ_UTF8_large:
  assumes "READ_UTF8 (b # z) = (c, zIn)" and "0xffff < c"
  shows "length zIn < length z"
proof (cases "192 \<le> unat b")
  case True
  let ?k = "trans1 (unat b - 192)"
  from assms(1) have r: "utf8_check (fst (read_cont (of_nat ?k) z)) = c" "snd (read_cont (of_nat ?k) z) = zIn"
    by (simp_all add: READ_lead [OF True] map_prod_def split: prod.splits)
  have "?k < 64" using unat_u8_less [of b] by (auto simp: trans1_def)
  then have "unat (of_nat ?k :: u32) < 64" by (simp add: unsigned_of_nat take_bit_nat_eq_self [of _ 32])
  then have "unat (utf8_check (of_nat ?k)) \<le> 0xffff" by (simp add: utf8_check_def)
  then show ?thesis using read_cont_progress [of "of_nat ?k" z] r assms(2) by (auto simp: word_less_nat_alt)
next
  case False
  then have "c = ucast b" using assms(1) by (simp add: READ_UTF8_def word_le_nat_alt)
  then show ?thesis using assms(2) unat_u8_less [of b] by (simp add: word_less_nat_alt)
qed

lemma utf8_to_16_length:
  assumes "\<And>c. length (w c) = (if c \<le> 0xffff then 2 else 4)"
  shows "length (utf8_to_16 w z) \<le> 2 * length z"
proof (induction "length z" arbitrary: z rule: less_induct)
  case less
  show ?case
  proof (cases z)
    case (Cons b z')
    obtain c zIn where r: "READ_UTF8 (b # z') = (c, zIn)" by force
    have l: "length zIn < length z" using READ_UTF8_shorter [of "b # z'"] r Cons by simp
    have "c \<le> 0xffff \<or> length zIn < length z'" using READ_UTF8_large [OF r] by force
    then show ?thesis using less [OF l] l assms [of c] r by (auto simp: Cons)
  qed simp
qed

lemma WRITE_UTF16_length:
  "length (WRITE_UTF16LE c) = (if c \<le> 0xffff then 2 else 4)"
  "length (WRITE_UTF16BE c) = (if c \<le> 0xffff then 2 else 4)"
  by (simp_all add: WRITE_UTF16LE_def WRITE_UTF16BE_def)

lemma utf16_swap_length [simp]: "length (utf16_swap z) = length z"
  by (induction z rule: utf16_swap.induct) simp_all

section \<open>Properties\<close>

text \<open>reading a character that was written as UTF-8 gives it back and stops right behind it, for
  every code point and whatever follows it, as the self test of \<open>utf.c\<close> asserts: the code points
  that are no characters (surrogates, U+FFFE and U+FFFF) are read as U+FFFD.\<close>
theorem utf8_read_write:
  assumes "c < 0x110000" and "no_cont rest"
  shows "length (WRITE_UTF8 c) \<in> {1..4} \<and>
    READ_UTF8 (WRITE_UTF8 c @ rest) =
      (if 0xD800 \<le> c \<and> c \<le> 0xDFFF \<or> c = 0xFFFE \<or> c = 0xFFFF then 0xFFFD else c, rest)"
proof -
  have "length (WRITE_UTF8 c) \<in> {1..4}" by (simp add: WRITE_UTF8_def)
  then show ?thesis using READ_WRITE_UTF8 [OF assms] by (simp add: utf8_norm_def)
qed

theorem utf8_read_write_witness:
  "READ_UTF8 (WRITE_UTF8 0x20AC @ [0x41]) = (0x20AC, [0x41]) \<and> READ_UTF8 (WRITE_UTF8 0xD801 @ []) = (0xFFFD, [])"
proof -
  have "no_cont [0x41]" "no_cont []" by (simp_all add: no_cont_def)
  then show ?thesis using utf8_read_write [of "0x20AC" "[0x41]"] utf8_read_write [of "0xD801" "[]"] by simp
qed

text \<open>C24. translating a text between any two of the three encodings gives the same characters in the
  other encoding; when the allocation fails the text is unchanged.\<close>
theorem translate_text:
  assumes "\<forall>c\<in>set cs. character c" and "enc \<noteq> enc'"
    and "enc \<in> {SQLITE_UTF8, SQLITE_UTF16LE, SQLITE_UTF16BE}" and "enc' \<in> {SQLITE_UTF8, SQLITE_UTF16LE, SQLITE_UTF16BE}"
  shows "sqlite3VdbeMemTranslate alloc \<lparr>mem_z = enc_text enc cs, mem_enc = enc\<rparr> enc' =
    (if alloc then (SQLITE_OK, \<lparr>mem_z = enc_text enc' cs, mem_enc = enc'\<rparr>)
     else (SQLITE_NOMEM, \<lparr>mem_z = enc_text enc cs, mem_enc = enc\<rparr>))"
  using assms(2-4)
  by (auto simp: sqlite3VdbeMemTranslate_def enc_text_def Let_def encodings utf8_to_16_text [OF assms(1)]
    utf16_to_8_text [OF assms(1)] utf16_swap_text even_take_text)

theorem translate_text_witness:
  "sqlite3VdbeMemTranslate True \<lparr>mem_z = enc_text SQLITE_UTF8 [0x41, 0x1F600], mem_enc = SQLITE_UTF8\<rparr> SQLITE_UTF16LE =
    (SQLITE_OK, \<lparr>mem_z = [0x41, 0x00, 0x3D, 0xD8, 0x00, 0xDE], mem_enc = SQLITE_UTF16LE\<rparr>)"
proof -
  have "\<forall>c\<in>set [0x41, 0x1F600]. character c" by (simp add: character_def utf8_norm_def)
  moreover have "enc_text SQLITE_UTF16LE [0x41, 0x1F600] = [0x41, 0x00, 0x3D, 0xD8, 0x00, 0xDE]" by code_simp
  ultimately show ?thesis using translate_text [of "[0x41, 0x1F600]" SQLITE_UTF8 SQLITE_UTF16LE True]
    by (simp add: encodings)
qed

text \<open>C15. the translation never writes past the buffer it allocates. For every input, well-formed or
  not, the output and its terminator fit the length that was asked for; the swap between the two
  UTF-16 byte orders is in place and keeps the length.\<close>
theorem translate_in_bounds:
  assumes "sqlite3VdbeMemTranslate True pMem enc' = (rc, pMem')" and "mem_enc pMem \<noteq> enc'"
  shows "rc = SQLITE_OK \<and> mem_enc pMem' = enc' \<and>
    (if mem_enc pMem \<noteq> SQLITE_UTF8 \<and> enc' \<noteq> SQLITE_UTF8 then length (mem_z pMem') = length (mem_z pMem)
     else length (mem_z pMem') + (if enc' = SQLITE_UTF8 then 1 else 2) \<le> translate_len pMem enc')"
  using assms utf16_to_8_length [of _ "even_take (mem_z pMem)"]
    utf8_to_16_length [of WRITE_UTF16LE "mem_z pMem", OF WRITE_UTF16_length(1)]
    utf8_to_16_length [of WRITE_UTF16BE "mem_z pMem", OF WRITE_UTF16_length(2)]
  by (auto simp: sqlite3VdbeMemTranslate_def translate_len_def Let_def split: if_splits)

theorem translate_in_bounds_witness:
  "length (mem_z (snd (sqlite3VdbeMemTranslate True \<lparr>mem_z = [0xF0, 0x80], mem_enc = SQLITE_UTF8\<rparr> SQLITE_UTF16BE))) + 2 \<le> 6"
  using translate_in_bounds [of "\<lparr>mem_z = [0xF0, 0x80], mem_enc = SQLITE_UTF8\<rparr>" SQLITE_UTF16BE]
  by (cases "sqlite3VdbeMemTranslate True \<lparr>mem_z = [0xF0, 0x80], mem_enc = SQLITE_UTF8\<rparr> SQLITE_UTF16BE")
    (auto simp: encodings translate_len_def)

end
