(* ===== verification/Complete.thy ===== *)
theory Complete
  imports Chars
begin

text \<open>
  \<open>sqlite3_complete\<close> of \<open>complete.c\<close>: the scanner that splits SQL text into the tokens that
  matter for the end of a statement, and the state machine over them. The text is scanned by
  \<open>scan_token\<close>, one iteration of the loop; the machine is the transition table of the source.
  What it accepts is described by a grammar of statements: a text is complete if it is a
  non-empty sequence of statements, where a statement ends at its first semicolon unless it
  creates a trigger, which ends at the first \<open>; END ;\<close>.
\<close>

section \<open>Tokens\<close>

datatype ctoken = tkSEMI | tkWS | tkOTHER | tkEXPLAIN | tkCREATE | tkTEMP | tkTRIGGER | tkEND

primrec tk_index :: "ctoken \<Rightarrow> nat" where
  "tk_index tkSEMI = 0"
| "tk_index tkWS = 1"
| "tk_index tkOTHER = 2"
| "tk_index tkEXPLAIN = 3"
| "tk_index tkCREATE = 4"
| "tk_index tkTEMP = 5"
| "tk_index tkTRIGGER = 6"
| "tk_index tkEND = 7"

definition trans_table :: "nat list list" where
  "trans_table = [
     [1, 0, 2, 3, 4, 2, 2, 2],
     [1, 1, 2, 3, 4, 2, 2, 2],
     [1, 2, 2, 2, 2, 2, 2, 2],
     [1, 3, 3, 2, 4, 2, 2, 2],
     [1, 4, 2, 2, 2, 4, 5, 2],
     [6, 5, 5, 5, 5, 5, 5, 5],
     [6, 6, 5, 5, 5, 5, 5, 7],
     [1, 7, 5, 5, 5, 5, 5, 5]]"

definition next_state :: "nat \<Rightarrow> ctoken \<Rightarrow> nat" where
  "next_state state token = trans_table ! state ! tk_index token"

section \<open>The scanner\<close>

text \<open>The inner loops: to the end of a C comment, and to a given byte.\<close>

fun skip_comment :: "cstring \<Rightarrow> cstring" where
  "skip_comment [] = []"
| "skip_comment (c # z) = (if c \<noteq> 0 \<and> (c \<noteq> 0x2a \<or> hd0 z \<noteq> 0x2f) then skip_comment z else c # z)"

fun skip_to :: "u8 \<Rightarrow> cstring \<Rightarrow> cstring" where
  "skip_to e [] = []"
| "skip_to e (c # z) = (if c \<noteq> 0 \<and> c \<noteq> e then skip_to e z else c # z)"

definition id_length :: "cstring \<Rightarrow> nat" where
  "id_length z = 1 + length (takeWhile IdChar (tl z))"

definition keyword :: "cstring \<Rightarrow> cstring \<Rightarrow> bool" where
  "keyword z w \<longleftrightarrow>
     id_length z = length w \<and> sqlite3_strnicmp (Some z) (Some w) (int (length w)) = 0"

definition keyword_token :: "cstring \<Rightarrow> ctoken" where
  "keyword_token z =
     (let c = hd0 z
      in if c = 0x63 \<or> c = 0x43 then
           (if keyword z [0x63, 0x72, 0x65, 0x61, 0x74, 0x65] then tkCREATE else tkOTHER)
         else if c = 0x74 \<or> c = 0x54 then
           (if keyword z [0x74, 0x72, 0x69, 0x67, 0x67, 0x65, 0x72] then tkTRIGGER
            else if keyword z [0x74, 0x65, 0x6d, 0x70] then tkTEMP
            else if keyword z [0x74, 0x65, 0x6d, 0x70, 0x6f, 0x72, 0x61, 0x72, 0x79] then tkTEMP
            else tkOTHER)
         else if c = 0x65 \<or> c = 0x45 then
           (if keyword z [0x65, 0x6e, 0x64] then tkEND
            else if keyword z [0x65, 0x78, 0x70, 0x6c, 0x61, 0x69, 0x6e] then tkEXPLAIN
            else tkOTHER)
         else tkOTHER)"

text \<open>One token and the text behind it, or one of the early returns: the end of the text inside a
  C comment or a quoted name (result 0), or inside a line comment.\<close>

datatype scan = Token ctoken cstring | Unterminated | LineComment

definition scan_token :: "cstring \<Rightarrow> scan" where
  "scan_token z =
     (let c = hd0 z
      in if c = 0x3b then Token tkSEMI (tl z)
         else if c = 0x20 \<or> c = 0x0d \<or> c = 0x09 \<or> c = 0x0a \<or> c = 0x0c then Token tkWS (tl z)
         else if c = 0x2f then
           (if hd0 (tl z) \<noteq> 0x2a then Token tkOTHER (tl z)
            else let z = skip_comment (tl (tl z))
                 in if hd0 z = 0 then Unterminated else Token tkWS (tl (tl z)))
         else if c = 0x2d then
           (if hd0 (tl z) \<noteq> 0x2d then Token tkOTHER (tl z)
            else let z = skip_to 0x0a z in if hd0 z = 0 then LineComment else Token tkWS (tl z))
         else if c = 0x5b then
           (let z = skip_to 0x5d (tl z) in if hd0 z = 0 then Unterminated else Token tkOTHER (tl z))
         else if c = 0x60 \<or> c = 0x22 \<or> c = 0x27 then
           (let z = skip_to c (tl z) in if hd0 z = 0 then Unterminated else Token tkOTHER (tl z))
         else if IdChar c then Token (keyword_token z) (drop (id_length z) z)
         else Token tkOTHER (tl z))"

lemma skip_comment_length: "length (skip_comment z) \<le> length z"
  by (induction z) auto

lemma skip_to_length: "length (skip_to e z) \<le> length z"
  by (induction z) auto

lemma scan_token_progress: "hd0 z \<noteq> 0 \<Longrightarrow> scan_token z = Token t z' \<Longrightarrow> length z' < length z"
  using skip_comment_length [of "tl (tl z)"] skip_to_length [of "0x0a" z] skip_to_length [of "0x5d" "tl z"]
    skip_to_length [of "hd0 z" "tl z"]
  by (cases z) (auto simp: scan_token_def Let_def id_length_def split: if_splits)

function complete_loop :: "nat \<Rightarrow> cstring \<Rightarrow> bool" where
  "complete_loop state zSql =
     (if hd0 zSql \<noteq> 0 then
        (case scan_token zSql of
           Token token z \<Rightarrow> complete_loop (next_state state token) z
         | Unterminated \<Rightarrow> False
         | LineComment \<Rightarrow> state = 1)
      else state = 1)"
  by pat_completeness auto
termination
  by (relation "measure (\<lambda>(s, z). length z)") (auto simp: scan_token_progress)

declare complete_loop.simps [simp del]

definition sqlite3_complete :: "cstring \<Rightarrow> bool" where
  "sqlite3_complete zSql = complete_loop 0 zSql"

section \<open>The language of complete texts\<close>

text \<open>The tokens of a text, white space left out; no value when a comment or a name is left open.
  A line comment may end with the text.\<close>

function sql_tokens :: "cstring \<Rightarrow> ctoken list option" where
  "sql_tokens z =
     (if hd0 z \<noteq> 0 then
        (case scan_token z of
           Token t z' \<Rightarrow> map_option (\<lambda>ts. if t = tkWS then ts else t # ts) (sql_tokens z')
         | Unterminated \<Rightarrow> None
         | LineComment \<Rightarrow> Some [])
      else Some [])"
  by pat_completeness auto
termination
  by (relation "measure length") (auto simp: scan_token_progress)

declare sql_tokens.simps [simp del]

text \<open>The beginning of a statement that creates a trigger, up to the keyword \<open>TRIGGER\<close>.\<close>

inductive explain_head :: "ctoken list \<Rightarrow> bool" where
  no_explain: "explain_head []"
| explain: "set ts \<subseteq> {tkOTHER} \<Longrightarrow> explain_head (tkEXPLAIN # ts)"

inductive create_head :: "ctoken list \<Rightarrow> bool" where
  create_head: "explain_head es \<Longrightarrow> set ts \<subseteq> {tkTEMP} \<Longrightarrow> create_head (es @ tkCREATE # ts)"

text \<open>A trigger body ends with the first \<open>; END ;\<close>.\<close>

definition trigger_end :: "ctoken list \<Rightarrow> bool" where
  "trigger_end b \<longleftrightarrow> (\<exists>u. b = u @ [tkSEMI, tkEND, tkSEMI])"

inductive statement :: "ctoken list \<Rightarrow> bool" where
  simple: "tkSEMI \<notin> set ts \<Longrightarrow> (\<nexists>h b. create_head h \<and> ts = h @ tkTRIGGER # b) \<Longrightarrow> statement (ts @ [tkSEMI])"
| trigger: "create_head h \<Longrightarrow> trigger_end b \<Longrightarrow> (\<And>b' c. b = b' @ c \<Longrightarrow> c \<noteq> [] \<Longrightarrow> \<not> trigger_end b') \<Longrightarrow>
    statement (h @ tkTRIGGER # b)"

inductive statements :: "ctoken list \<Rightarrow> bool" where
  Nil: "statements []"
| Cons: "statement s \<Longrightarrow> statements ts \<Longrightarrow> statements (s @ ts)"

section \<open>The state machine\<close>

declare One_nat_def [simp del]

lemma next_state_simps [simp]:
  "next_state 0 t = (case t of tkSEMI \<Rightarrow> 1 | tkWS \<Rightarrow> 0 | tkEXPLAIN \<Rightarrow> 3 | tkCREATE \<Rightarrow> 4 | _ \<Rightarrow> 2)"
  "next_state 1 t = (case t of tkSEMI \<Rightarrow> 1 | tkWS \<Rightarrow> 1 | tkEXPLAIN \<Rightarrow> 3 | tkCREATE \<Rightarrow> 4 | _ \<Rightarrow> 2)"
  "next_state 2 t = (case t of tkSEMI \<Rightarrow> 1 | _ \<Rightarrow> 2)"
  "next_state 3 t = (case t of tkSEMI \<Rightarrow> 1 | tkWS \<Rightarrow> 3 | tkOTHER \<Rightarrow> 3 | tkCREATE \<Rightarrow> 4 | _ \<Rightarrow> 2)"
  "next_state 4 t = (case t of tkSEMI \<Rightarrow> 1 | tkWS \<Rightarrow> 4 | tkTEMP \<Rightarrow> 4 | tkTRIGGER \<Rightarrow> 5 | _ \<Rightarrow> 2)"
  "next_state 5 t = (case t of tkSEMI \<Rightarrow> 6 | _ \<Rightarrow> 5)"
  "next_state 6 t = (case t of tkSEMI \<Rightarrow> 6 | tkWS \<Rightarrow> 6 | tkEND \<Rightarrow> 7 | _ \<Rightarrow> 5)"
  "next_state 7 t = (case t of tkSEMI \<Rightarrow> 1 | tkWS \<Rightarrow> 7 | _ \<Rightarrow> 5)"
  by (cases t; simp add: next_state_def trans_table_def)+

abbreviation run :: "ctoken list \<Rightarrow> nat" where
  "run ts \<equiv> foldl next_state 1 ts"

lemma less_8: "s < 8 \<longleftrightarrow> s \<in> {0, 1, 2, 3, 4, 5, 6, 7}" for s :: nat
  by auto

lemma next_state_range: "s < 8 \<Longrightarrow> next_state s t < 8"
  unfolding less_8 by (cases t) auto

lemma next_state_WS: "s < 8 \<Longrightarrow> next_state s tkWS = s"
  unfolding less_8 by auto

lemma complete_loop_tokens:
  "state < 8 \<Longrightarrow> complete_loop state z \<longleftrightarrow>
     (case sql_tokens z of None \<Rightarrow> False | Some ts \<Rightarrow> foldl next_state state ts = 1)"
proof (induction state z rule: complete_loop.induct)
  case (1 state z)
  show ?case
  proof (cases "hd0 z \<noteq> 0")
    case True
    show ?thesis
    proof (cases "scan_token z")
      case (Token t z')
      show ?thesis
        using 1(1) [OF True Token next_state_range [OF 1(2)]] True Token next_state_WS [OF 1(2)]
        by (simp add: complete_loop.simps [of state z] sql_tokens.simps [of z] split: option.split)
    qed (use True in \<open>simp_all add: complete_loop.simps [of state z] sql_tokens.simps [of z]\<close>)
  qed (simp add: complete_loop.simps [of state z] sql_tokens.simps [of z])
qed

lemma tokens_no_WS: "sql_tokens z = Some ts \<Longrightarrow> tkWS \<notin> set ts"
proof (induction z arbitrary: ts rule: sql_tokens.induct)
  case (1 z)
  then show ?case
    by (auto simp: sql_tokens.simps [of z] split: if_splits scan.splits option.splits)
qed

text \<open>The head of a statement, before its first semicolon.\<close>

lemma run_explain: "set ts \<subseteq> {tkOTHER} \<Longrightarrow> foldl next_state 3 ts = 3"
  by (induction ts) auto

lemma run_temp: "set ts \<subseteq> {tkTEMP} \<Longrightarrow> foldl next_state 4 ts = 4"
  by (induction ts) auto

lemma run_create_head: "create_head h \<Longrightarrow> run h = 4"
  by (auto simp: create_head.simps explain_head.simps run_explain run_temp)

lemma create_head_no_semi: "create_head h \<Longrightarrow> tkSEMI \<notin> set h"
  by (auto simp: create_head.simps explain_head.simps)

lemma create_head_Temp: "create_head h \<Longrightarrow> create_head (h @ [tkTEMP])"
proof -
  assume "create_head h"
  then obtain es ts where "h = es @ tkCREATE # ts" "explain_head es" "set ts \<subseteq> {tkTEMP}"
    by (auto simp: create_head.simps)
  then show ?thesis using create_head.intros [of es "ts @ [tkTEMP]"] by simp
qed

text \<open>What is known about the tokens of the current statement in each state.\<close>

lemma run_head:
  assumes "tkSEMI \<notin> set ts" and "tkWS \<notin> set ts"
  shows "run ts = 1 \<and> ts = [] \<or> run ts = 2 \<or> run ts = 3 \<and> ts \<noteq> [] \<and> explain_head ts \<or>
    run ts = 4 \<and> create_head ts \<or> run ts = 5 \<and> (\<exists>h b. create_head h \<and> ts = h @ tkTRIGGER # b)"
  using assms
proof (induction ts rule: rev_induct)
  case (snoc t ts)
  have t: "t \<noteq> tkSEMI" "t \<noteq> tkWS" using snoc.prems by auto
  consider "run ts = 1" "ts = []" | "run ts = 2" | "run ts = 3" "ts \<noteq> []" "explain_head ts"
    | "run ts = 4" "create_head ts" | h b where "run ts = 5" "create_head h" "ts = h @ tkTRIGGER # b"
    using snoc by auto
  then show ?case
  proof cases
    case 1
    then show ?thesis using t create_head.intros [OF no_explain, of "[]"]
      by (cases t) (auto simp: explain_head.simps)
  next
    case 2
    then show ?thesis using t by (cases t) auto
  next
    case 3
    then obtain os where os: "ts = tkEXPLAIN # os" "set os \<subseteq> {tkOTHER}" by (auto simp: explain_head.simps)
    have "explain_head (tkEXPLAIN # os @ [tkOTHER])" using os(2) by (auto simp: explain_head.simps)
    then show ?thesis using 3 t os(1) create_head.intros [OF 3(3), of "[]"] by (cases t) auto
  next
    case 4
    then show ?thesis using t create_head_Temp [OF 4(2)] by (cases t) auto
  next
    case 5
    then show ?thesis using t by (cases t) auto
  qed
qed simp

lemma run_body:
  assumes "\<And>b' c. b = b' @ c \<Longrightarrow> \<not> trigger_end b'" and "tkWS \<notin> set b"
  shows "foldl next_state 5 b =
    (if \<exists>u. b = u @ [tkSEMI, tkEND] then 7 else if \<exists>u. b = u @ [tkSEMI] then 6 else 5)"
  using assms
proof (induction b rule: rev_induct)
  case (snoc t b)
  have "\<And>b' c. b = b' @ c \<Longrightarrow> \<not> trigger_end b'" using snoc.prems(1) by (metis append.assoc)
  then have IH: "foldl next_state 5 b =
      (if \<exists>u. b = u @ [tkSEMI, tkEND] then 7 else if \<exists>u. b = u @ [tkSEMI] then 6 else 5)"
    using snoc by simp
  have "\<not> trigger_end (b @ [t])" using snoc.prems(1) [of "b @ [t]" "[]"] by simp
  then have "t \<noteq> tkSEMI \<or> (\<nexists>u. b = u @ [tkSEMI, tkEND])" by (auto simp: trigger_end_def)
  moreover have "(\<exists>u. b @ [t] = u @ [tkSEMI, tkEND]) \<longleftrightarrow> t = tkEND \<and> (\<exists>u. b = u @ [tkSEMI])"
    by (metis append.assoc append_Cons append_Nil last_snoc butlast_snoc)
  moreover have "(\<exists>u. b @ [t] = u @ [tkSEMI]) \<longleftrightarrow> t = tkSEMI" by auto
  moreover have "t \<noteq> tkWS" using snoc.prems(2) by auto
  ultimately show ?case using IH by (cases t) auto
qed auto

lemma run_statement:
  assumes "statement s" and "tkWS \<notin> set s"
  shows "run s = 1"
  using assms(1)
proof cases
  case (simple ts)
  have ws: "tkWS \<notin> set ts" using assms(2) simple(1) by simp
  show ?thesis using run_head [OF simple(2) ws] simple(3) by (auto simp: simple(1))
next
  case (trigger h b)
  obtain u where b: "b = u @ [tkSEMI, tkEND, tkSEMI]" using trigger(3) by (auto simp: trigger_end_def)
  have "\<not> trigger_end b'" if "u @ [tkSEMI, tkEND] = b' @ c" for b' c
  proof -
    have "b = b' @ (c @ [tkSEMI])" using that b by (metis append.assoc append_Cons append_Nil)
    then show ?thesis using trigger(4) by blast
  qed
  then have "foldl next_state 5 (u @ [tkSEMI, tkEND]) = 7"
    using run_body [of "u @ [tkSEMI, tkEND]"] assms(2) trigger(1) b by auto
  moreover have "foldl next_state 5 b = next_state (foldl next_state 5 (u @ [tkSEMI, tkEND])) tkSEMI"
    by (simp add: b)
  ultimately show ?thesis using run_create_head [OF trigger(2)] by (simp add: trigger(1))
qed

text \<open>Inside a statement that has not ended yet.\<close>

lemma run_open:
  assumes "\<And>p c. ts = p @ c \<Longrightarrow> p \<noteq> [] \<Longrightarrow> run p \<noteq> 1" and "tkWS \<notin> set ts"
  shows "tkSEMI \<notin> set ts \<or>
    (\<exists>h b. create_head h \<and> ts = h @ tkTRIGGER # b \<and> (\<forall>b' c. b = b' @ c \<longrightarrow> \<not> trigger_end b'))"
  using assms
proof (induction ts rule: rev_induct)
  case (snoc t ts)
  have "\<And>p c. ts = p @ c \<Longrightarrow> p \<noteq> [] \<Longrightarrow> run p \<noteq> 1" using snoc.prems(1) by (metis append.assoc)
  then consider "tkSEMI \<notin> set ts"
    | h b where "create_head h" "ts = h @ tkTRIGGER # b" "\<forall>b' c. b = b' @ c \<longrightarrow> \<not> trigger_end b'"
    using snoc by auto
  then show ?case
  proof cases
    case 1
    have "run (ts @ [t]) \<noteq> 1" using snoc.prems(1) [of "ts @ [t]" "[]"] by simp
    then have r: "run ts = 5" if "t = tkSEMI" using that run_head [OF 1] snoc.prems(2) by auto
    show ?thesis
    proof (cases "t = tkSEMI")
      case True
      obtain h b where hb: "create_head h" "ts = h @ tkTRIGGER # b"
        using run_head [OF 1] snoc.prems(2) r [OF True] by auto
      have "\<not> trigger_end b'" if "b @ [t] = b' @ c" for b' c
      proof
        assume "trigger_end b'"
        then obtain u where "b' = u @ [tkSEMI, tkEND, tkSEMI]" by (auto simp: trigger_end_def)
        then have "b @ [t] = u @ [tkSEMI] @ [tkEND] @ ([tkSEMI] @ c)" using that by simp
        then have "tkSEMI \<in> set b" by (metis (no_types, lifting) append.assoc append_is_Nil_conv butlast_append
          butlast_snoc in_set_conv_decomp not_Cons_self2 append_Cons append_Nil)
        then show False using 1 hb(2) by simp
      qed
      then have "create_head h \<and> ts @ [t] = h @ tkTRIGGER # (b @ [t]) \<and> (\<forall>b' c. b @ [t] = b' @ c \<longrightarrow> \<not> trigger_end b')"
        using hb by simp
      then show ?thesis by blast
    qed (use 1 in auto)
  next
    case (2 h b)
    have "\<not> trigger_end (b @ [t])"
    proof
      assume e: "trigger_end (b @ [t])"
      have "statement (h @ tkTRIGGER # b @ [t])"
      proof (rule statement.trigger [OF 2(1) e])
        show "\<not> trigger_end b'" if "b @ [t] = b' @ c" "c \<noteq> []" for b' c
          using that 2(3) by (metis append_butlast_last_id append.assoc butlast_snoc)
      qed
      then have "run (ts @ [t]) = 1" using run_statement [of "ts @ [t]"] snoc.prems(2) 2(2) by simp
      then show False using snoc.prems(1) [of "ts @ [t]" "[]"] by simp
    qed
    moreover have "\<not> trigger_end b'" if "b @ [t] = b' @ c" "c \<noteq> []" for b' c
      using that 2(3) by (metis append_butlast_last_id append.assoc butlast_snoc)
    ultimately have "\<forall>b' c. b @ [t] = b' @ c \<longrightarrow> \<not> trigger_end b'" by (metis append_Nil2)
    then have "create_head h \<and> ts @ [t] = h @ tkTRIGGER # (b @ [t]) \<and> (\<forall>b' c. b @ [t] = b' @ c \<longrightarrow> \<not> trigger_end b')"
      using 2 by simp
    then show ?thesis by blast
  qed
qed simp

lemma run_close:
  assumes "\<And>p c. ts = p @ c \<Longrightarrow> p \<noteq> [] \<Longrightarrow> run p \<noteq> 1" and "tkWS \<notin> set (ts @ [t])" and "run (ts @ [t]) = 1"
  shows "statement (ts @ [t])"
proof -
  have "tkWS \<notin> set ts" using assms(2) by simp
  with assms(1) have "tkSEMI \<notin> set ts \<or>
    (\<exists>h b. create_head h \<and> ts = h @ tkTRIGGER # b \<and> (\<forall>b' c. b = b' @ c \<longrightarrow> \<not> trigger_end b'))"
    by (rule run_open)
  then consider "tkSEMI \<notin> set ts"
    | h b where "create_head h" "ts = h @ tkTRIGGER # b" "\<forall>b' c. b = b' @ c \<longrightarrow> \<not> trigger_end b'" by blast
  then show ?thesis
  proof cases
    case 1
    then have r: "run ts \<noteq> 5 \<and> t = tkSEMI" using run_head [OF 1] assms(2,3) by (cases t) auto
    have "foldl next_state 5 b = 5" if "tkSEMI \<notin> set b" for b using that by (induction b) (auto split: ctoken.split)
    then have "\<nexists>h b. create_head h \<and> ts = h @ tkTRIGGER # b" using r 1 by (auto simp: run_create_head)
    then show ?thesis using statement.simple [OF 1] r by simp
  next
    case (2 h b)
    have r: "run ts = foldl next_state 5 b" using 2 by (simp add: run_create_head)
    have ws: "tkWS \<notin> set b" using assms(2) 2(2) by simp
    have "foldl next_state 5 b \<in> {5, 6, 7}" using run_body [OF _ ws] 2(3) by auto
    then have t: "foldl next_state 5 b = 7" "t = tkSEMI" using assms(2,3) r by (cases t; auto)+
    then obtain u where "b = u @ [tkSEMI, tkEND]" using run_body [OF _ ws] 2(3) by (auto split: if_splits)
    then have e: "trigger_end (b @ [t])" using t(2) by (simp add: trigger_end_def)
    have "statement (h @ tkTRIGGER # b @ [t])"
    proof (rule statement.trigger [OF 2(1) e])
      show "\<not> trigger_end b'" if "b @ [t] = b' @ c" "c \<noteq> []" for b' c
        using that 2(3) by (metis append_butlast_last_id append.assoc butlast_snoc)
    qed
    then show ?thesis by (simp add: 2(2))
  qed
qed

lemma run_statements: "tkWS \<notin> set ts \<Longrightarrow> run ts = 1 \<longleftrightarrow> statements ts"
proof
  show "statements ts \<Longrightarrow> tkWS \<notin> set ts \<Longrightarrow> run ts = 1"
    by (induction ts rule: statements.induct) (auto simp: run_statement)
  show "tkWS \<notin> set ts \<Longrightarrow> run ts = 1 \<Longrightarrow> statements ts"
  proof (induction ts rule: length_induct)
    case (1 ts)
    show ?case
    proof (cases "ts = []")
      case False
      define n where "n = (LEAST n. 0 < n \<and> n \<le> length ts \<and> run (take n ts) = 1)"
      have n: "0 < n \<and> n \<le> length ts \<and> run (take n ts) = 1"
        unfolding n_def by (rule LeastI [of _ "length ts"]) (use False 1(3) in simp)
      obtain p t where pt: "take n ts = p @ [t]" using n False by (metis append_butlast_last_id take_eq_Nil2 not_less0)
      have "run q \<noteq> 1" if "p = q @ c" "q \<noteq> []" for q c
      proof
        assume r: "run q = 1"
        have l: "length q < n" using pt that n by (metis length_append length_take min.absorb2 add.assoc le_add1
          length_Cons list.size(3) less_Suc_eq_le add_Suc_right Nat.add_0_right)
        have "take (length q) ts = take (length q) (take n ts)" using l by (simp add: min_def)
        then have "take (length q) ts = q" using pt that(1) by simp
        then show False using not_less_Least [of "length q" "\<lambda>n. 0 < n \<and> n \<le> length ts \<and> run (take n ts) = 1"]
            l r that(2) n unfolding n_def [symmetric] by simp
      qed
      moreover have ws: "tkWS \<notin> set (take n ts)" "tkWS \<notin> set (drop n ts)"
        using 1(2) by (auto dest: in_set_takeD in_set_dropD)
      ultimately have s: "statement (take n ts)" using run_close [of p t] n pt by simp
      have "run ts = foldl next_state (run (take n ts)) (drop n ts)" by (metis append_take_drop_id foldl_append)
      then have "run (drop n ts) = 1" using 1(3) n by simp
      then have "statements (drop n ts)" using 1(1) ws(2) n False by simp
      then show ?thesis using statements.Cons [OF s, of "drop n ts"] by simp
    qed (simp add: statements.Nil)
  qed
qed

section \<open>Properties\<close>

text \<open>C8. \<open>sqlite3_complete\<close> accepts a text exactly when no comment or quoted name is left open
  and its tokens are a non-empty sequence of statements: each ends at its first semicolon, or, when
  it begins with \<open>[EXPLAIN ...] CREATE [TEMP] TRIGGER\<close>, at its first \<open>; END ;\<close>.\<close>
theorem sqlite3_complete_correct:
  "sqlite3_complete zSql \<longleftrightarrow> (\<exists>ts. sql_tokens zSql = Some ts \<and> ts \<noteq> [] \<and> statements ts)"
proof (cases "sql_tokens zSql")
  case (Some ts)
  have "foldl next_state 0 ts = 1 \<longleftrightarrow> ts \<noteq> [] \<and> run ts = 1"
    using tokens_no_WS [OF Some] by (cases ts) (auto split: ctoken.split)
  then show ?thesis using complete_loop_tokens [of 0 zSql] run_statements [OF tokens_no_WS [OF Some]] Some
    by (simp add: sqlite3_complete_def)
qed (simp add: sqlite3_complete_def complete_loop_tokens)

end
