(* ===== verification/Like.thy ===== *)
theory Like
  imports Utf
begin

text \<open>
  LIKE and GLOB of \<open>func.c\<close>. \<open>patternCompare\<close> reads pattern and text byte by byte, with an
  early exit that stops the search of an outer wildcard when an inner one has failed. The reference
  is a pattern as a list of wildcards, characters and character sets, and the plain definition of
  when it matches a list of characters. Texts are the bytes before the terminating zero.
\<close>

section \<open>Comparison\<close>

record compareInfo =
  matchAll :: u8
  matchOne :: u8
  matchSet :: u8
  noCase :: bool

definition globInfo :: compareInfo where
  "globInfo = \<lparr>matchAll = 0x2a, matchOne = 0x3f, matchSet = 0x5b, noCase = False\<rparr>"

definition likeInfoNorm :: compareInfo where
  "likeInfoNorm = \<lparr>matchAll = 0x25, matchOne = 0x5f, matchSet = 0, noCase = True\<rparr>"

definition likeInfoAlt :: compareInfo where
  "likeInfoAlt = \<lparr>matchAll = 0x25, matchOne = 0x5f, matchSet = 0, noCase = False\<rparr>"

definition SQLITE_MATCH :: nat where "SQLITE_MATCH = 0"
definition SQLITE_NOMATCH :: nat where "SQLITE_NOMATCH = 1"
definition SQLITE_NOWILDCARDMATCH :: nat where "SQLITE_NOWILDCARDMATCH = 2"

definition Utf8Read :: "cstring \<Rightarrow> u32 \<times> cstring" where
  "Utf8Read A = (if hd0 A < 0x80 then (ucast (hd0 A), tl A) else sqlite3Utf8Read A)"

lemma Utf8Read_eq: "Utf8Read z = sqlite3Utf8Read z"
proof -
  have "ucast (hd0 z) < (0xc0 :: u32)" if "hd0 z < 0x80"
    using that by (simp add: word_less_nat_alt unat_ucast_u8_u32)
  then show ?thesis by (auto simp: Utf8Read_def sqlite3Utf8Read_def Let_def not_le)
qed

lemma Utf8Read_shorter: "fst (sqlite3Utf8Read z) \<noteq> 0 \<Longrightarrow> length (snd (sqlite3Utf8Read z)) < length z"
  using read_cont_length [of "sqlite3Utf8Trans1 ! unat (ucast (hd0 z) - 0xc0 :: u32)" "tl z"]
  by (cases z) (auto simp: sqlite3Utf8Read_def Let_def split: prod.splits if_splits)

lemma Utf8Read_less: "(c, z') = sqlite3Utf8Read z \<Longrightarrow> c \<noteq> 0 \<Longrightarrow> length z' < length z"
  using Utf8Read_shorter [of z] by (cases "sqlite3Utf8Read z") auto

lemma Utf8Read_le: "(c, z') = sqlite3Utf8Read z \<Longrightarrow> length z' \<le> length z"
  using read_cont_length [of "sqlite3Utf8Trans1 ! unat (ucast (hd0 z) - 0xc0 :: u32)" "tl z"]
  by (auto simp: sqlite3Utf8Read_def Let_def split: prod.splits if_splits)

text \<open>Skipping wildcards behind \<open>*\<close>. The result is the next character and what is behind it in the
  pattern, with the rest of the text; there is none if the text is too short for the \<open>?\<close> skipped.\<close>

function skip_wild :: "compareInfo \<Rightarrow> cstring \<Rightarrow> cstring \<Rightarrow> (u32 \<times> cstring \<times> cstring) option" where
  "skip_wild pInfo zPattern zString =
     (let (c, zPattern') = Utf8Read zPattern
      in if c \<noteq> 0 \<and> (c = ucast (matchAll pInfo) \<or> (c = ucast (matchOne pInfo) \<and> matchOne pInfo \<noteq> 0)) then
           (if c = ucast (matchOne pInfo) then
              (let (d, zString) = sqlite3Utf8Read zString
               in if d = 0 then None else skip_wild pInfo zPattern' zString)
            else skip_wild pInfo zPattern' zString)
         else Some (c, zPattern', zString))"
  by pat_completeness auto
termination
  by (relation "measure (\<lambda>(i, z, s). length z)") (auto simp: Utf8Read_eq intro: Utf8Read_less)

declare skip_wild.simps [simp del]

text \<open>The three searches for the place where the pattern behind \<open>*\<close> goes on; \<open>k\<close> is the comparison
  of the rest of the pattern.\<close>

lemma SKIP_UTF8_shorter: "hd0 z \<noteq> 0 \<Longrightarrow> length (SQLITE_SKIP_UTF8 z) < length z"
proof -
  have "length (SQLITE_SKIP_UTF8_cont z) \<le> length z" for z by (induction z) auto
  then show "hd0 z \<noteq> 0 \<Longrightarrow> length (SQLITE_SKIP_UTF8 z) < length z"
    by (cases z) (auto simp: SQLITE_SKIP_UTF8_def le_imp_less_Suc)
qed

function search_set :: "(cstring \<Rightarrow> nat) \<Rightarrow> cstring \<Rightarrow> nat" where
  "search_set k zString =
     (if hd0 zString \<noteq> 0 then
        (let bMatch = k zString
         in if bMatch \<noteq> SQLITE_NOMATCH then bMatch else search_set k (SQLITE_SKIP_UTF8 zString))
      else SQLITE_NOWILDCARDMATCH)"
  by pat_completeness auto
termination
  by (relation "measure (\<lambda>(k, s). length s)") (auto simp: SKIP_UTF8_shorter)

function search_ascii :: "(cstring \<Rightarrow> nat) \<Rightarrow> u8 list \<Rightarrow> cstring \<Rightarrow> nat" where
  "search_ascii k zStop zString =
     (let zString = dropWhile (\<lambda>b. b \<noteq> 0 \<and> b \<notin> set zStop) zString
      in if hd0 zString = 0 then SQLITE_NOWILDCARDMATCH
         else let bMatch = k (tl zString)
              in if bMatch \<noteq> SQLITE_NOMATCH then bMatch else search_ascii k zStop (tl zString))"
  by pat_completeness auto
termination
proof (relation "measure (\<lambda>(k, z, s). length s)")
  fix k :: "cstring \<Rightarrow> nat" and zStop zString x b
  assume "x = dropWhile (\<lambda>b. b \<noteq> 0 \<and> b \<notin> set zStop) zString" "hd0 x \<noteq> 0"
  moreover have "length x \<le> length zString" using calculation(1) by (simp add: length_dropWhile_le)
  moreover have "x \<noteq> []" using calculation(2) by auto
  then have "length (tl x) < length x" by simp
  ultimately show "((k, zStop, tl x), k, zStop, zString) \<in> measure (\<lambda>(k, z, s). length s)" by auto
qed simp

function search_char :: "(cstring \<Rightarrow> nat) \<Rightarrow> u32 \<Rightarrow> cstring \<Rightarrow> nat" where
  "search_char k c zString =
     (let (c2, zString') = Utf8Read zString
      in if c2 = 0 then SQLITE_NOWILDCARDMATCH
         else if c2 \<noteq> c then search_char k c zString'
         else let bMatch = k zString'
              in if bMatch \<noteq> SQLITE_NOMATCH then bMatch else search_char k c zString')"
  by pat_completeness auto
termination
  by (relation "measure (\<lambda>(k, c, s). length s)") (auto simp: Utf8Read_eq intro: Utf8Read_less split: prod.splits)

declare search_set.simps [simp del] search_ascii.simps [simp del] search_char.simps [simp del]

text \<open>The character set behind \<open>[\<close>, compared with the character \<open>c\<close>: the pattern behind the set if
  \<open>c\<close> is accepted.\<close>

function set_loop :: "u32 \<Rightarrow> u32 \<Rightarrow> bool \<Rightarrow> u32 \<Rightarrow> cstring \<Rightarrow> u32 \<times> bool \<times> cstring" where
  "set_loop c prior_c seen c2 zPattern =
     (if c2 \<noteq> 0 \<and> c2 \<noteq> 0x5d then
        (if c2 = 0x2d \<and> hd0 zPattern \<noteq> 0x5d \<and> hd0 zPattern \<noteq> 0 \<and> prior_c > 0 then
           (let (c2, zPattern') = sqlite3Utf8Read zPattern;
                (c2', zPattern'') = sqlite3Utf8Read zPattern'
            in set_loop c 0 (seen \<or> (c \<ge> prior_c \<and> c \<le> c2)) c2' zPattern'')
         else
           (let (c2', zPattern') = sqlite3Utf8Read zPattern
            in set_loop c c2 (seen \<or> c = c2) c2' zPattern'))
      else (c2, seen, zPattern))"
  by pat_completeness auto
termination
proof (relation "measure (\<lambda>(c, p, s, c2, z). length z + (if c2 = 0 then 0 else 1))")
  have *: "length z' + (if c = 0 then 0 else 1) < length z + (1::nat)" if "(c, z') = sqlite3Utf8Read z" for z c z'
    using Utf8Read_less [OF that] Utf8Read_le [OF that] by auto
  show "((c, 0, d, c2', z''), c, prior_c, seen, c2, z) \<in> measure (\<lambda>(c, p, s, c2, z). length z + (if c2 = 0 then 0 else 1))"
    if h: "c2 \<noteq> 0 \<and> c2 \<noteq> 0x5d" "x = sqlite3Utf8Read z" "(e, z') = x" "y = sqlite3Utf8Read z'" "(c2', z'') = y"
    for c prior_c :: u32 and seen d c2 z x e z' y c2' z''
  proof -
    have "length z'' + (if c2' = 0 then 0 else 1) < length z' + (1::nat)" by (rule *) (use h in simp)
    moreover have "length z' \<le> length z" by (rule Utf8Read_le [of e]) (use h in simp)
    ultimately show ?thesis using h(1) by simp
  qed
  show "((c, c2, d, c2', z'), c, prior_c, seen, c2, z) \<in> measure (\<lambda>(c, p, s, c2, z). length z + (if c2 = 0 then 0 else 1))"
    if h: "c2 \<noteq> 0 \<and> c2 \<noteq> 0x5d" "x = sqlite3Utf8Read z" "(c2', z') = x" for c prior_c :: u32 and seen d c2 z x c2' z'
  proof -
    have "length z' + (if c2' = 0 then 0 else 1) < length z + (1::nat)" by (rule *) (use h in simp)
    then show ?thesis using h(1) by simp
  qed
qed simp

declare set_loop.simps [simp del]

definition match_set :: "u32 \<Rightarrow> cstring \<Rightarrow> cstring option" where
  "match_set c zPattern =
     (let (c2, zPattern) = sqlite3Utf8Read zPattern;
          invert = (c2 = 0x5e);
          (c2, zPattern) = (if invert then sqlite3Utf8Read zPattern else (c2, zPattern));
          seen = (c2 = 0x5d \<and> c = 0x5d);
          (c2, zPattern) = (if c2 = 0x5d then sqlite3Utf8Read zPattern else (c2, zPattern));
          (c2, seen, zPattern) = set_loop c 0 seen c2 zPattern
      in if c2 = 0 \<or> seen = invert then None else Some zPattern)"

lemma skip_wild_le: "skip_wild i z s = Some (c, z', s') \<Longrightarrow> length z' \<le> length z \<and> (c \<noteq> 0 \<longrightarrow> length z' < length z)"
proof (induction i z s rule: skip_wild.induct)
  case (1 i z s)
  obtain d w where d: "sqlite3Utf8Read z = (d, w)" by fastforce
  obtain e t where e: "sqlite3Utf8Read s = (e, t)" by fastforce
  note lt = Utf8Read_less [OF d [symmetric]] Utf8Read_le [OF d [symmetric]]
  show ?case using "1.prems" "1.IH" d e lt
    by (subst (asm) skip_wild.simps) (fastforce simp: Utf8Read_eq split: if_splits)
qed

lemma set_loop_le: "set_loop c p s c2 z = (d, e, z') \<Longrightarrow> length z' \<le> length z"
proof (induction c p s c2 z rule: set_loop.induct)
  case (1 c p s c2 z)
  obtain d1 w1 where d1: "sqlite3Utf8Read z = (d1, w1)" by fastforce
  obtain d2 w2 where d2: "sqlite3Utf8Read w1 = (d2, w2)" by fastforce
  note le = Utf8Read_le [OF d1 [symmetric]] Utf8Read_le [OF d2 [symmetric]]
  show ?case using "1.prems" "1.IH" d1 d2 le
    by (subst (asm) set_loop.simps) (fastforce split: if_splits)
qed

lemma match_set_le: "match_set c z = Some z' \<Longrightarrow> length z' \<le> length z"
proof -
  assume m: "match_set c z = Some z'"
  obtain d1 w1 where d1: "sqlite3Utf8Read z = (d1, w1)" by fastforce
  obtain d2 w2 where d2: "sqlite3Utf8Read w1 = (d2, w2)" by fastforce
  obtain d3 w3 where d3: "sqlite3Utf8Read w2 = (d3, w3)" by fastforce
  show ?thesis
    using m d1 d2 d3 set_loop_le Utf8Read_le [OF d1 [symmetric]] Utf8Read_le [OF d2 [symmetric]] Utf8Read_le [OF d3 [symmetric]]
    by (fastforce simp: match_set_def Let_def split: prod.splits if_splits)
qed

text \<open>\<open>zPattern[-1]\<close> is the byte \<open>[\<close>.\<close>

function patternCompare :: "compareInfo \<Rightarrow> u32 \<Rightarrow> cstring \<Rightarrow> cstring \<Rightarrow> nat" where
  "patternCompare pInfo matchOther zPattern zString =
     (let (c, zPattern') = Utf8Read zPattern
      in if c = 0 then (if hd0 zString = 0 then SQLITE_MATCH else SQLITE_NOMATCH)
         else if c = ucast (matchAll pInfo) then
           (case skip_wild pInfo zPattern' zString of
              None \<Rightarrow> SQLITE_NOWILDCARDMATCH
            | Some (c, zRest, zString) \<Rightarrow>
                if c = 0 then SQLITE_MATCH
                else if c = matchOther \<and> matchSet pInfo \<noteq> 0 then
                  search_set (\<lambda>z. patternCompare pInfo matchOther (ucast c # zRest) z) zString
                else
                  (let (c, zRest') = (if c = matchOther then sqlite3Utf8Read zRest else (c, zRest))
                   in if c = 0 then SQLITE_NOWILDCARDMATCH
                      else if c < 0x80 then
                        search_ascii (\<lambda>z. patternCompare pInfo matchOther zRest' z)
                          (if noCase pInfo then [sqlite3Toupper (ucast c), sqlite3Tolower (ucast c)] else [ucast c]) zString
                      else search_char (\<lambda>z. patternCompare pInfo matchOther zRest' z) c zString))
         else if c = matchOther \<and> matchSet pInfo \<noteq> 0 then
           (let (c, zString) = sqlite3Utf8Read zString
            in if c = 0 then SQLITE_NOMATCH
               else (case match_set c zPattern' of
                       None \<Rightarrow> SQLITE_NOMATCH
                     | Some zPattern \<Rightarrow> patternCompare pInfo matchOther zPattern zString))
         else
           (let escaped = (c = matchOther);
                (c, zPattern'') = (if escaped then sqlite3Utf8Read zPattern' else (c, zPattern'))
            in if c = 0 then SQLITE_NOMATCH
               else
                 (let (c2, zString) = Utf8Read zString
                  in if c = c2
                        \<or> (noCase pInfo \<and> sqlite3Tolower (ucast c) = sqlite3Tolower (ucast c2) \<and> c < 0x80 \<and> c2 < 0x80)
                        \<or> (c = ucast (matchOne pInfo) \<and> \<not> escaped \<and> c2 \<noteq> 0)
                     then patternCompare pInfo matchOther zPattern'' zString
                     else SQLITE_NOMATCH)))"
  by pat_completeness auto
termination
proof (relation "measure (\<lambda>(i, m, z, s). length z)", goal_cases)
  case 1
  show ?case by simp
next
  case (2 i m z s x c z1 x2 c2 x4 w t x5)
  then show ?case using skip_wild_le [of i z1 s c2 w t] Utf8Read_less [of c z1 z] by (simp add: Utf8Read_eq)
next
  case (3 i m z s x c z1 x2 c2 x4 w t y c3 w3 x5)
  then show ?case using skip_wild_le [of i z1 s c2 w t] Utf8Read_less [of c z1 z] Utf8Read_le [of c3 w3 w]
    by (auto simp: Utf8Read_eq split: if_splits)
next
  case (4 i m z s x c z1 x2 c2 x4 w t y c3 w3 x5)
  then show ?case using skip_wild_le [of i z1 s c2 w t] Utf8Read_less [of c z1 z] Utf8Read_le [of c3 w3 w]
    by (auto simp: Utf8Read_eq split: if_splits)
next
  case (5 i m z s x c z1 y c2 t w)
  then show ?case using match_set_le [of c2 z1 w] Utf8Read_less [of c z1 z] by (simp add: Utf8Read_eq)
next
  case (6 i m z s x c z1 e y c2 z2 y2 c3 t)
  then show ?case using Utf8Read_less [of c z1 z] Utf8Read_le [of c2 z2 z1] Utf8Read_less [of c2 z2 z] by (auto simp: Utf8Read_eq split: if_splits)
qed

declare patternCompare.simps [simp del]

section \<open>The functions\<close>

definition sqlite3_strglob :: "cstring option \<Rightarrow> cstring option \<Rightarrow> nat" where
  "sqlite3_strglob zGlobPattern zString =
     (case zString of
        None \<Rightarrow> (if zGlobPattern \<noteq> None then 1 else 0)
      | Some z \<Rightarrow> (case zGlobPattern of None \<Rightarrow> 1 | Some p \<Rightarrow> patternCompare globInfo 0x5b p z))"

definition sqlite3_strlike :: "cstring option \<Rightarrow> cstring option \<Rightarrow> u32 \<Rightarrow> nat" where
  "sqlite3_strlike zPattern zStr esc =
     (case zStr of
        None \<Rightarrow> (if zPattern \<noteq> None then 1 else 0)
      | Some z \<Rightarrow> (case zPattern of None \<Rightarrow> 1 | Some p \<Rightarrow> patternCompare likeInfoNorm esc p z))"

text \<open>The SQL function: \<open>zB\<close> and \<open>zA\<close> are the texts of the first two arguments, \<open>zEsc\<close> of the third if
  there is one, and \<open>nLimit\<close> is the limit on the length of a pattern.\<close>

datatype like_result = TooComplex | BadEscape | LikeNull | LikeInt bool

definition likeFunc :: "compareInfo \<Rightarrow> nat \<Rightarrow> cstring option \<Rightarrow> cstring option \<Rightarrow> cstring option option \<Rightarrow> like_result" where
  "likeFunc pInfo nLimit zB zA zEsc =
     (let nPat = (case zB of None \<Rightarrow> 0 | Some z \<Rightarrow> length z);
          finish = (\<lambda>pInfo escape. case zA of
              None \<Rightarrow> LikeNull
            | Some a \<Rightarrow> (case zB of None \<Rightarrow> LikeNull | Some b \<Rightarrow> LikeInt (patternCompare pInfo escape b a = SQLITE_MATCH)))
      in if nPat > nLimit then TooComplex
         else (case zEsc of
                 None \<Rightarrow> finish pInfo (ucast (matchSet pInfo))
               | Some None \<Rightarrow> LikeNull
               | Some (Some z) \<Rightarrow>
                   if sqlite3Utf8CharLen z (-1) \<noteq> 1 then BadEscape
                   else
                     let escape = fst (sqlite3Utf8Read z);
                         pInfo = (if escape = ucast (matchAll pInfo) then pInfo\<lparr>matchAll := 0\<rparr> else pInfo);
                         pInfo = (if escape = ucast (matchOne pInfo) then pInfo\<lparr>matchOne := 0\<rparr> else pInfo)
                     in finish pInfo escape))"

section \<open>Bytes as characters\<close>

function chars :: "cstring \<Rightarrow> u32 list" where
  "chars z = (let (c, z') = sqlite3Utf8Read z in if c = 0 then [] else c # chars z')"
  by pat_completeness auto
termination
  by (relation "measure length") (auto intro: Utf8Read_less)

declare chars.simps [simp del]

lemma chars_read: "sqlite3Utf8Read z = (c, z') \<Longrightarrow> chars z = (if c = 0 then [] else c # chars z')"
  by (subst chars.simps) simp

lemma read_low: "hd0 z < 0x80 \<Longrightarrow> sqlite3Utf8Read z = (ucast (hd0 z), tl z)"
  using Utf8Read_eq [of z] by (simp add: Utf8Read_def)

lemma utf8_check_high: "utf8_check c \<ge> 0x80"
  by (auto simp: utf8_check_def not_less)

lemma read_high: "0x80 \<le> hd0 z \<Longrightarrow> 0x80 \<le> fst (sqlite3Utf8Read z)"
  using utf8_check_high by (auto simp: sqlite3Utf8Read_def Let_def word_le_nat_alt split: prod.split)

lemma read_zero: "fst (sqlite3Utf8Read z) = 0 \<longleftrightarrow> hd0 z = 0"
proof (cases "hd0 z < 0x80")
  case True
  have "(ucast (hd0 z) :: u32) = 0 \<longleftrightarrow> hd0 z = 0" by (simp add: unat_eq_zero [symmetric] del: unat_eq_zero)
  then show ?thesis using True by (simp add: read_low)
next
  case False
  then have "0x80 \<le> fst (sqlite3Utf8Read z)" by (intro read_high) simp
  then show ?thesis using False by (auto simp: word_le_nat_alt not_less)
qed

lemma chars_Nil_iff: "chars z = [] \<longleftrightarrow> hd0 z = 0"
  using read_zero [of z] by (subst chars.simps) (auto split: prod.split)

lemma chars_nonzero: "0 \<notin> set (chars z)"
  by (induction z rule: chars.induct) (subst chars.simps, auto split: prod.split)

lemma read_cont_SKIP: "snd (read_cont c z) = SQLITE_SKIP_UTF8_cont z"
  by (induction c z rule: read_cont.induct) auto

lemma chars_SKIP: "hd0 z \<noteq> 0 \<Longrightarrow> chars (SQLITE_SKIP_UTF8 z) = tl (chars z)"
proof -
  assume nz: "hd0 z \<noteq> 0"
  have ge: "(ucast (hd0 z) \<ge> (0xc0 :: u32)) = (hd0 z \<ge> 0xc0)" by (simp add: word_le_nat_alt)
  have "snd (sqlite3Utf8Read z) = SQLITE_SKIP_UTF8 z"
    using read_cont_SKIP [of _ "tl z"] by (auto simp: sqlite3Utf8Read_def SQLITE_SKIP_UTF8_def Let_def ge split: prod.split) (metis snd_conv)
  then have "chars z = fst (sqlite3Utf8Read z) # chars (SQLITE_SKIP_UTF8 z)"
    using chars_read [of z] read_zero [of z] nz by (cases "sqlite3Utf8Read z") auto
  then show ?thesis by simp
qed

text \<open>Looking for bytes below 128 is looking for characters.\<close>

lemma dropWhile_cont:
  assumes "\<And>b. 0x80 \<le> b \<Longrightarrow> P b"
  shows "dropWhile P (SQLITE_SKIP_UTF8_cont z) = dropWhile P z"
proof (induction z)
  case (Cons b z)
  have "P b" if "b AND 0xc0 = 0x80" using that assms cont_byte_iff [of b] by (auto simp: word_le_nat_alt)
  then show ?case using Cons by auto
qed simp

lemma ucast_u8_inj: "inj (ucast :: u8 \<Rightarrow> u32)"
proof (rule injI)
  fix a b :: u8 assume "(ucast a :: u32) = ucast b"
  then have "unat (ucast a :: u32) = unat (ucast b :: u32)" by simp
  then have "unat a = unat b" by (simp only: unat_ucast_u8_u32)
  then show "a = b" by (rule unsigned_word_eqI)
qed

lemma chars_dropWhile:
  assumes st: "\<forall>b\<in>set st. b < 0x80"
  shows "chars (dropWhile (\<lambda>b. b \<noteq> 0 \<and> b \<notin> set st) z) = dropWhile (\<lambda>c. c \<notin> ucast ` set st) (chars z)"
proof (induction z rule: chars.induct)
  case (1 z)
  let ?P = "\<lambda>b. b \<noteq> 0 \<and> b \<notin> set st"
  obtain c z' where r: "sqlite3Utf8Read z = (c, z')" by fastforce
  show ?case
  proof (cases "hd0 z < 0x80")
    case True
    then have rd: "c = ucast (hd0 z)" "z' = tl z" using r read_low [of z] by auto
    have inj: "(ucast (hd0 z) :: u32) \<in> ucast ` set st \<longleftrightarrow> hd0 z \<in> set st"
      by (rule inj_image_mem_iff [OF ucast_u8_inj])
    show ?thesis
    proof (cases "hd0 z = 0")
      case z0: True
      then have "chars z = []" by (simp add: chars_Nil_iff)
      moreover have "dropWhile ?P z = z" using z0 by (cases z) auto
      ultimately show ?thesis by simp
    next
      case False
      then have nz: "c \<noteq> 0" using rd by (simp add: unat_eq_zero [symmetric] del: unat_eq_zero)
      have cz: "chars z = c # chars z'" using chars_read [OF r] nz by simp
      have IH: "chars (dropWhile ?P z') = dropWhile (\<lambda>c. c \<notin> ucast ` set st) (chars z')"
        using 1 r nz by (metis (no_types, lifting))
      obtain b w where z: "z = b # w" using False by (cases z) auto
      show ?thesis using IH cz inj rd False z by (auto simp: cz)
    qed
  next
    case False
    then have hi: "0x80 \<le> hd0 z" by simp
    have nz: "c \<noteq> 0" "0x80 \<le> c" using read_high [OF hi] r by (auto simp: word_le_nat_alt)
    have cz: "chars z = c # chars z'" using chars_read [OF r] nz by simp
    have P: "?P b" if "0x80 \<le> b" for b using that st by (auto simp: word_le_nat_alt word_less_nat_alt)
    have out: "c \<notin> ucast ` set st" using nz(2) st by (fastforce simp: word_le_nat_alt word_less_nat_alt)
    have IH: "chars (dropWhile ?P z') = dropWhile (\<lambda>c. c \<notin> ucast ` set st) (chars z')"
      using 1 r nz by (metis (no_types, lifting))
    obtain b w where z: "z = b # w" using hi by (cases z) auto
    have "z' = w \<or> z' = SQLITE_SKIP_UTF8_cont w"
      using r read_cont_SKIP [of _ w] unfolding z by (auto simp: sqlite3Utf8Read_def Let_def split: prod.splits if_splits) (metis snd_conv)
    then have "dropWhile ?P z' = dropWhile ?P w" using dropWhile_cont [of ?P w, OF P] by auto
    moreover have "dropWhile ?P z = dropWhile ?P w" using P hi z by simp
    ultimately show ?thesis using IH cz out by simp
  qed
qed

section \<open>Patterns and what they match\<close>

datatype set_item = Single u32 | Range u32 u32

datatype pat = All | One | Lit u32 | CharSet bool "set_item list"

fun item_has :: "u32 \<Rightarrow> set_item \<Rightarrow> bool" where
  "item_has c (Single d) \<longleftrightarrow> c = d"
| "item_has c (Range a b) \<longleftrightarrow> a \<le> c \<and> c \<le> b"

definition set_has :: "u32 \<Rightarrow> set_item list \<Rightarrow> bool" where
  "set_has c is \<longleftrightarrow> (\<exists>i\<in>set is. item_has c i)"

text \<open>Upper and lower case letters are the same where case is ignored.\<close>

definition same_char :: "bool \<Rightarrow> u32 \<Rightarrow> u32 \<Rightarrow> bool" where
  "same_char nc c d \<longleftrightarrow> c = d \<or> (nc \<and> c < 0x80 \<and> d < 0x80 \<and> sqlite3Tolower (ucast c) = sqlite3Tolower (ucast d))"

fun matches :: "bool \<Rightarrow> pat list \<Rightarrow> u32 list \<Rightarrow> bool" where
  "matches nc [] s \<longleftrightarrow> s = []"
| "matches nc (All # ps) [] \<longleftrightarrow> matches nc ps []"
| "matches nc (All # ps) (c # s) \<longleftrightarrow> matches nc ps (c # s) \<or> matches nc (All # ps) s"
| "matches nc (One # ps) s \<longleftrightarrow> s \<noteq> [] \<and> matches nc ps (tl s)"
| "matches nc (Lit c # ps) s \<longleftrightarrow> s \<noteq> [] \<and> same_char nc c (hd s) \<and> matches nc ps (tl s)"
| "matches nc (CharSet neg is # ps) s \<longleftrightarrow> s \<noteq> [] \<and> set_has (hd s) is \<noteq> neg \<and> matches nc ps (tl s)"

text \<open>How a pattern is written. \<open>prior\<close> is the character a range may start from.\<close>

function parse_items :: "u32 \<Rightarrow> u32 list \<Rightarrow> (set_item list \<times> u32 list) option" where
  "parse_items prior [] = None"
| "parse_items prior (c # p) =
     (if c = 0x5d then Some ([], p)
      else if c = 0x2d \<and> p \<noteq> [] \<and> hd p \<noteq> 0x5d \<and> prior > 0 then
        map_option (apfst (Cons (Range prior (hd p)))) (parse_items 0 (tl p))
      else map_option (apfst (Cons (Single c))) (parse_items c p))"
  by pat_completeness auto
termination
  by (relation "measure (\<lambda>(c, p). length p)") auto

definition parse_set :: "u32 list \<Rightarrow> (bool \<times> set_item list \<times> u32 list) option" where
  "parse_set p =
     (let neg = (p \<noteq> [] \<and> hd p = 0x5e); p = (if neg then tl p else p);
          first = (p \<noteq> [] \<and> hd p = 0x5d); p = (if first then tl p else p)
      in map_option (\<lambda>(is, r). (neg, (if first then [Single 0x5d] else []) @ is, r)) (parse_items 0 p))"

lemma parse_items_shorter: "parse_items prior p = Some (is, r) \<Longrightarrow> length r < length p"
proof (induction prior p arbitrary: "is" rule: parse_items.induct)
  case (2 prior c p)
  then show ?case by (cases p) (fastforce split: if_splits)+
qed simp

lemma parse_set_shorter: "parse_set p = Some (neg, is, r) \<Longrightarrow> length r < length p"
  using parse_items_shorter by (cases p) (fastforce simp: parse_set_def Let_def split: if_splits)+

function parse :: "compareInfo \<Rightarrow> u32 \<Rightarrow> u32 list \<Rightarrow> pat list option" where
  "parse i m [] = Some []"
| "parse i m (c # p) =
     (if c = ucast (matchAll i) then map_option (Cons All) (parse i m p)
      else if c = m \<and> matchSet i \<noteq> 0 then
        (case parse_set p of None \<Rightarrow> None | Some (neg, is, r) \<Rightarrow> map_option (Cons (CharSet neg is)) (parse i m r))
      else if c = m then (case p of [] \<Rightarrow> None | d # p \<Rightarrow> map_option (Cons (Lit d)) (parse i m p))
      else map_option (Cons (if c = ucast (matchOne i) then One else Lit c)) (parse i m p))"
  by pat_completeness auto
termination
  by (relation "measure (\<lambda>(i, m, p). length p)") (auto dest: parse_set_shorter)

declare parse.simps(2) [simp del]

definition pattern_matches :: "compareInfo \<Rightarrow> u32 \<Rightarrow> u32 list \<Rightarrow> u32 list \<Rightarrow> bool" where
  "pattern_matches i m p s \<longleftrightarrow> (case parse i m p of None \<Rightarrow> False | Some ps \<Rightarrow> matches (noCase i) ps s)"

lemma matches_All: "matches nc (All # ps) s \<longleftrightarrow> (\<exists>k. matches nc ps (drop k s))"
proof (induction s)
  case (Cons c s)
  have "(\<exists>k. matches nc ps (drop k (c # s))) \<longleftrightarrow> matches nc ps (c # s) \<or> (\<exists>k. matches nc ps (drop k s))"
    by (metis drop_0 drop_Suc_Cons not0_implies_Suc)
  then show ?case using Cons by simp
qed simp

lemma pm_Nil [simp]: "pattern_matches i m [] s \<longleftrightarrow> s = []"
  by (simp add: pattern_matches_def)

lemma pm_All:
  "c = ucast (matchAll i) \<Longrightarrow> pattern_matches i m (c # p) s \<longleftrightarrow> (\<exists>k. pattern_matches i m p (drop k s))"
  by (auto simp: pattern_matches_def parse.simps matches_All split: option.splits)

lemma pm_set:
  "c \<noteq> ucast (matchAll i) \<Longrightarrow> c = m \<Longrightarrow> matchSet i \<noteq> 0 \<Longrightarrow> pattern_matches i m (c # p) s \<longleftrightarrow>
     s \<noteq> [] \<and> (\<exists>neg is r. parse_set p = Some (neg, is, r) \<and> set_has (hd s) is \<noteq> neg \<and> pattern_matches i m r (tl s))"
  by (auto simp: pattern_matches_def parse.simps split: option.splits)

lemma pm_escape:
  "c \<noteq> ucast (matchAll i) \<Longrightarrow> c = m \<Longrightarrow> matchSet i = 0 \<Longrightarrow> pattern_matches i m (c # p) s \<longleftrightarrow>
     p \<noteq> [] \<and> s \<noteq> [] \<and> same_char (noCase i) (hd p) (hd s) \<and> pattern_matches i m (tl p) (tl s)"
  by (auto simp: pattern_matches_def parse.simps split: option.splits list.splits)

lemma pm_char:
  "c \<noteq> ucast (matchAll i) \<Longrightarrow> c \<noteq> m \<Longrightarrow> pattern_matches i m (c # p) s \<longleftrightarrow>
     s \<noteq> [] \<and> (c = ucast (matchOne i) \<or> same_char (noCase i) c (hd s)) \<and> pattern_matches i m p (tl s)"
  by (auto simp: pattern_matches_def parse.simps split: option.splits)

section \<open>Sets\<close>

lemma chars_hd: "chars z \<noteq> [] \<and> hd (chars z) = c \<longleftrightarrow> fst (sqlite3Utf8Read z) = c \<and> c \<noteq> 0"
  by (cases "sqlite3Utf8Read z") (auto simp: chars_read)

lemma hd_ascii:
  assumes "b < 0x80" "b \<noteq> 0"
  shows "hd0 z = b \<longleftrightarrow> chars z \<noteq> [] \<and> hd (chars z) = ucast b"
proof (cases "hd0 z < 0x80")
  case True
  have "(ucast (hd0 z) :: u32) = ucast b \<longleftrightarrow> hd0 z = b" using ucast_u8_inj by (simp add: inj_eq)
  moreover have "(ucast b :: u32) \<noteq> 0" using assms(2) by (simp add: unat_eq_zero [symmetric] del: unat_eq_zero)
  ultimately show ?thesis unfolding chars_hd using True by (simp add: read_low)
next
  case False
  then have "0x80 \<le> fst (sqlite3Utf8Read z)" by (intro read_high) simp
  moreover have "(ucast b :: u32) < 0x80" using assms(1) by (simp add: word_less_nat_alt)
  ultimately show ?thesis unfolding chars_hd using False assms(1) by auto
qed

lemma set_loop_spec:
  "set_loop c prior seen c2 z = (d, seen', z') \<Longrightarrow>
   (case parse_items prior (if c2 = 0 then [] else c2 # chars z) of
      None \<Rightarrow> d = 0
    | Some (is, r) \<Rightarrow> d = 0x5d \<and> r = chars z' \<and> seen' = (seen \<or> set_has c is))"
proof (induction c prior seen c2 z rule: set_loop.induct)
  case (1 c prior seen c2 z)
  obtain d1 w1 where d1: "sqlite3Utf8Read z = (d1, w1)" by fastforce
  obtain d2 w2 where d2: "sqlite3Utf8Read w1 = (d2, w2)" by fastforce
  have b5d: "hd0 z = 0x5d \<longleftrightarrow> chars z \<noteq> [] \<and> hd (chars z) = 0x5d" using hd_ascii [of "0x5d" z] by simp
  have b0: "hd0 z = 0 \<longleftrightarrow> chars z = []" by (simp add: chars_Nil_iff)
  consider "c2 = 0 \<or> c2 = 0x5d" | "c2 \<noteq> 0" "c2 \<noteq> 0x5d" "c2 = 0x2d \<and> hd0 z \<noteq> 0x5d \<and> hd0 z \<noteq> 0 \<and> prior > 0"
    | "c2 \<noteq> 0" "c2 \<noteq> 0x5d" "\<not> (c2 = 0x2d \<and> hd0 z \<noteq> 0x5d \<and> hd0 z \<noteq> 0 \<and> prior > 0)" by blast
  then show ?case
  proof cases
    case a: 1
    then show ?thesis using "1.prems" by (subst (asm) set_loop.simps) (auto simp: set_has_def)
  next
    case a: 2
    have nz: "d1 \<noteq> 0" using a(3) d1 read_zero [of z] by auto
    have cz: "chars z = d1 # chars w1" using chars_read [OF d1] nz by simp
    have "set_loop c prior seen c2 z = set_loop c 0 (seen \<or> (c \<ge> prior \<and> c \<le> d1)) d2 w2"
      using a by (subst set_loop.simps) (simp add: d1 d2)
    then have e: "set_loop c 0 (seen \<or> (c \<ge> prior \<and> c \<le> d1)) d2 w2 = (d, seen', z')" using "1.prems" by simp
    have "case parse_items 0 (if d2 = 0 then [] else d2 # chars w2) of None \<Rightarrow> d = 0
      | Some (is, r) \<Rightarrow> d = 0x5d \<and> r = chars z' \<and> seen' = ((seen \<or> (c \<ge> prior \<and> c \<le> d1)) \<or> set_has c is)"
      by (rule "1.IH"(1) [OF conjI [OF a(1,2)] a(3) refl d1 [symmetric] refl d2 [symmetric] e])
    moreover have pi: "parse_items prior (c2 # chars z) = map_option (apfst (Cons (Range prior d1))) (parse_items 0 (chars w1))"
      using a b5d b0 cz by simp
    moreover have "chars w1 = (if d2 = 0 then [] else d2 # chars w2)" using chars_read [OF d2] by simp
    ultimately show ?thesis unfolding if_not_P [OF a(1)] pi by (cases "parse_items 0 (chars w1)") (simp, auto simp: set_has_def)
  next
    case a: 3
    have "set_loop c prior seen c2 z = set_loop c c2 (seen \<or> c = c2) d1 w1"
      by (subst set_loop.simps) (simp only: if_P [OF conjI [OF a(1,2)]] if_not_P [OF a(3)] d1 Let_def case_prod_conv)
    then have e: "set_loop c c2 (seen \<or> c = c2) d1 w1 = (d, seen', z')" using "1.prems" by simp
    have "case parse_items c2 (if d1 = 0 then [] else d1 # chars w1) of None \<Rightarrow> d = 0
      | Some (is, r) \<Rightarrow> d = 0x5d \<and> r = chars z' \<and> seen' = ((seen \<or> c = c2) \<or> set_has c is)"
      by (rule "1.IH"(2) [OF conjI [OF a(1,2)] a(3) refl d1 [symmetric] e])
    moreover have pi: "parse_items prior (c2 # chars z) = map_option (apfst (Cons (Single c2))) (parse_items c2 (chars z))"
      using a b5d b0 by auto
    moreover have "chars z = (if d1 = 0 then [] else d1 # chars w1)" using chars_read [OF d1] by simp
    ultimately show ?thesis unfolding if_not_P [OF a(1)] pi by (cases "parse_items c2 (chars z)") (simp, auto simp: set_has_def)
  qed
qed

lemma match_set_spec:
  "case match_set c z of
     Some z' \<Rightarrow> \<exists>neg is. parse_set (chars z) = Some (neg, is, chars z') \<and> set_has c is \<noteq> neg
   | None \<Rightarrow> \<forall>neg is r. parse_set (chars z) = Some (neg, is, r) \<longrightarrow> set_has c is = neg"
proof -
  obtain c1 z1 where r1: "sqlite3Utf8Read z = (c1, z1)" by fastforce
  define neg where "neg \<longleftrightarrow> c1 = 0x5e"
  obtain c2 z2 where r2: "(if neg then sqlite3Utf8Read z1 else (c1, z1)) = (c2, z2)" by fastforce
  define lead where "lead \<longleftrightarrow> c2 = 0x5d"
  obtain c3 z3 where r3: "(if lead then sqlite3Utf8Read z2 else (c2, z2)) = (c3, z3)" by fastforce
  obtain d seen z4 where l: "set_loop c 0 (lead \<and> c = 0x5d) c3 z3 = (d, seen, z4)" by (metis prod_cases3)
  have m: "match_set c z = (if d = 0 \<or> seen = neg then None else Some z4)"
    using l unfolding match_set_def Let_def r1 case_prod_conv neg_def [symmetric] r2 lead_def [symmetric] r3 by simp
  let ?p = "\<lambda>c z. if c = 0 then [] else c # chars z"
  have p1: "chars z = ?p c1 z1" using chars_read [OF r1] by simp
  have p2: "(if neg then tl (?p c1 z1) else ?p c1 z1) = ?p c2 z2"
    using r2 chars_read [of z1 c2 z2] by (auto simp: neg_def split: if_splits)
  have p3: "(if lead then tl (?p c2 z2) else ?p c2 z2) = ?p c3 z3"
    using r3 chars_read [of z2 c3 z3] by (auto simp: lead_def split: if_splits)
  have i: "(?p c1 z1 \<noteq> [] \<and> hd (?p c1 z1) = 0x5e) = neg" "(?p c2 z2 \<noteq> [] \<and> hd (?p c2 z2) = 0x5d) = lead"
    by (auto simp: neg_def lead_def)
  have ps: "parse_set (chars z) = map_option (\<lambda>(is, r). (neg, (if lead then [Single 0x5d] else []) @ is, r)) (parse_items 0 (?p c3 z3))"
    unfolding parse_set_def Let_def p1 i p2 p3 ..
  show ?thesis
  proof (cases "parse_items 0 (?p c3 z3)")
    case None
    then have "d = 0" using set_loop_spec [OF l] by simp
    then show ?thesis unfolding m ps None by simp
  next
    case (Some ir)
    obtain "is" r where ir: "ir = (is, r)" by fastforce
    have "d = 0x5d" "r = chars z4" "seen = ((lead \<and> c = 0x5d) \<or> set_has c is)" using set_loop_spec [OF l] Some ir by simp_all
    moreover have "set_has c ((if lead then [Single 0x5d] else []) @ is) = ((lead \<and> c = 0x5d) \<or> set_has c is)" by (auto simp: set_has_def)
    ultimately show ?thesis unfolding m ps Some ir by simp
  qed
qed

section \<open>The searches\<close>

text \<open>Some character that satisfies \<open>Q\<close> is followed by a match of the rest.\<close>

fun hits :: "(u32 \<Rightarrow> bool) \<Rightarrow> (u32 list \<Rightarrow> bool) \<Rightarrow> u32 list \<Rightarrow> bool" where
  "hits Q M [] = False"
| "hits Q M (c # s) \<longleftrightarrow> (Q c \<and> M s) \<or> hits Q M s"

text \<open>What the result of a comparison says.\<close>

definition verdict :: "nat \<Rightarrow> (u32 list \<Rightarrow> bool) \<Rightarrow> u32 list \<Rightarrow> bool" where
  "verdict r M s \<longleftrightarrow> (r = SQLITE_MATCH \<and> M s) \<or> (r = SQLITE_NOMATCH \<and> \<not> M s) \<or>
     (r = SQLITE_NOWILDCARDMATCH \<and> (\<forall>k. \<not> M (drop k s)))"

lemmas codes = SQLITE_MATCH_def SQLITE_NOMATCH_def SQLITE_NOWILDCARDMATCH_def

lemma hits_none: "\<forall>k. \<not> M (drop k s) \<Longrightarrow> \<not> hits Q M s"
proof (induction s)
  case (Cons c s)
  have "\<forall>k. \<not> M (drop k s)" using Cons.prems by (metis drop_Suc_Cons)
  then show ?case using Cons.IH by (auto dest: spec [of _ 0])
qed simp

lemma none_here: "\<forall>k. \<not> M (drop k s) \<Longrightarrow> \<not> M s"
  by (auto dest: spec [of _ 0])

lemma hits_dropWhile: "hits Q M (dropWhile (\<lambda>c. \<not> Q c) s) = hits Q M s"
  by (induction s) auto

lemma search_char_spec:
  assumes k: "\<forall>s. verdict (k s) M (chars s)"
  shows "search_char k c s = (if hits ((=) c) M (chars s) then SQLITE_MATCH else SQLITE_NOWILDCARDMATCH)"
  using k
proof (induction k c s rule: search_char.induct)
  case (1 k c s)
  obtain d t where r: "sqlite3Utf8Read s = (d, t)" by fastforce
  then have u: "Utf8Read s = (d, t)" by (simp add: Utf8Read_eq)
  note ch = chars_read [OF r]
  show ?case
  proof (cases "d = 0")
    case True
    then show ?thesis using u ch by (subst search_char.simps) simp
  next
    case False
    have IH: "search_char k c t = (if hits ((=) c) M (chars t) then SQLITE_MATCH else SQLITE_NOWILDCARDMATCH)"
      if n: "d = c \<Longrightarrow> k t = SQLITE_NOMATCH"
    proof (cases "d = c")
      case True
      show ?thesis by (rule "1.IH"(2) [OF u [symmetric] refl False _ refl _ "1.prems"]) (use True n in simp_all)
    next
      case f: False
      show ?thesis by (rule "1.IH"(1) [OF u [symmetric] refl False f "1.prems"])
    qed
    have v: "verdict (k t) M (chars t)" using "1.prems" by blast
    show ?thesis
    proof (cases "d = c \<and> k t \<noteq> SQLITE_NOMATCH")
      case True
      then have "search_char k c s = k t" using u False by (subst search_char.simps) simp
      then show ?thesis using True v ch False hits_none [of M "chars t"] none_here [of M "chars t"] by (auto simp: verdict_def)
    next
      case f: False
      then have "search_char k c s = search_char k c t" using u False by (subst search_char.simps) (auto simp: Let_def)
      moreover have "\<not> (c = d \<and> M (chars t))" using f v by (auto simp: verdict_def codes)
      ultimately show ?thesis using IH f ch False by auto
    qed
  qed
qed

lemma search_ascii_spec:
  assumes k: "\<forall>s. verdict (k s) M (chars s)" and st: "\<forall>b\<in>set st. b < 0x80"
  shows "search_ascii k st s = (if hits (\<lambda>c. c \<in> ucast ` set st) M (chars s) then SQLITE_MATCH else SQLITE_NOWILDCARDMATCH)"
  using k st
proof (induction k st s rule: search_ascii.induct)
  case (1 k st s)
  let ?Q = "\<lambda>c. c \<in> (ucast ` set st :: u32 set)"
  define t where "t = dropWhile (\<lambda>b. b \<noteq> 0 \<and> b \<notin> set st) s"
  have ht: "hits ?Q M (chars s) = hits ?Q M (chars t)"
    unfolding t_def chars_dropWhile [OF "1.prems"(2)] hits_dropWhile ..
  show ?case
  proof (cases "hd0 t = 0")
    case True
    then have "chars t = []" by (simp add: chars_Nil_iff)
    then show ?thesis using True ht by (subst search_ascii.simps) (simp flip: t_def)
  next
    case False
    obtain b w where tb: "t = b # w" using False by (cases t) auto
    have b: "b \<in> set st" "b \<noteq> 0"
      using False tb hd_dropWhile [of "\<lambda>b. b \<noteq> 0 \<and> b \<notin> set st" s] by (auto simp flip: t_def)
    then have "b < 0x80" using "1.prems"(2) by blast
    then have "sqlite3Utf8Read t = (ucast b, w)" using read_low [of t] tb by simp
    moreover have "(ucast b :: u32) \<noteq> 0" using b(2) by (simp add: unat_eq_zero [symmetric] del: unat_eq_zero)
    ultimately have ct: "chars t = ucast b # chars w" using chars_read by auto
    have v: "verdict (k w) M (chars w)" using "1.prems"(1) by blast
    show ?thesis
    proof (cases "k w = SQLITE_NOMATCH")
      case True
      have "search_ascii k st w = (if hits ?Q M (chars w) then SQLITE_MATCH else SQLITE_NOWILDCARDMATCH)"
        using "1.IH" [OF t_def False refl] True tb "1.prems" by simp
      moreover have "search_ascii k st s = search_ascii k st w"
        using True tb False by (subst search_ascii.simps) (simp flip: t_def)
      moreover have "\<not> M (chars w)" using v True by (auto simp: verdict_def codes)
      ultimately show ?thesis using ht ct by simp
    next
      case f: False
      then have "search_ascii k st s = k w" using tb False by (subst search_ascii.simps) (simp flip: t_def add: Let_def)
      then show ?thesis using f v ht ct b(1) hits_none [of M "chars w" ?Q] none_here [of M "chars w"] by (auto simp: verdict_def)
    qed
  qed
qed

lemma ex_drop_Cons: "(\<exists>j<length (c # s). M (drop j (c # s))) \<longleftrightarrow> M (c # s) \<or> (\<exists>j<length s. M (drop j s))"
  by (metis drop_0 drop_Suc_Cons length_Cons less_Suc_eq_0_disj not_less_eq zero_less_Suc)

lemma search_set_spec:
  assumes k: "\<forall>s. verdict (k s) M (chars s)"
  shows "search_set k s = (if \<exists>j<length (chars s). M (drop j (chars s)) then SQLITE_MATCH else SQLITE_NOWILDCARDMATCH)"
  using k
proof (induction k s rule: search_set.induct)
  case (1 k s)
  have v: "verdict (k s) M (chars s)" using "1.prems" by blast
  show ?case
  proof (cases "hd0 s = 0")
    case True
    then have "chars s = []" by (simp add: chars_Nil_iff)
    then show ?thesis using True by (subst search_set.simps) simp
  next
    case False
    then obtain c t where ct: "chars s = c # t" using chars_Nil_iff [of s] by (cases "chars s") auto
    have tl: "chars (SQLITE_SKIP_UTF8 s) = t" using chars_SKIP [OF False] ct by simp
    show ?thesis
    proof (cases "k s = SQLITE_NOMATCH")
      case True
      have "search_set k (SQLITE_SKIP_UTF8 s) = (if \<exists>j<length t. M (drop j t) then SQLITE_MATCH else SQLITE_NOWILDCARDMATCH)"
        using "1.IH" [OF False refl] True "1.prems" tl by simp
      moreover have "search_set k s = search_set k (SQLITE_SKIP_UTF8 s)" using True False by (subst search_set.simps) simp
      moreover have "\<not> M (c # t)" using v True ct by (auto simp: verdict_def codes)
      ultimately show ?thesis unfolding ct ex_drop_Cons by simp
    next
      case f: False
      then have "search_set k s = k s" using False by (subst search_set.simps) (simp add: Let_def)
      then show ?thesis using f v ct by (auto simp: verdict_def intro: exI [of _ 0])
    qed
  qed
qed

section \<open>Correctness of the comparison\<close>

text \<open>The wildcards and the character \<open>m\<close> differ where they are in use, and the character that opens a
  set is one byte.\<close>

definition info_ok :: "compareInfo \<Rightarrow> u32 \<Rightarrow> bool" where
  "info_ok i m \<longleftrightarrow> (matchOne i \<noteq> 0 \<longrightarrow> matchOne i \<noteq> matchAll i \<and> m \<noteq> ucast (matchOne i)) \<and> (matchSet i \<noteq> 0 \<longrightarrow> m < 0x80)"

definition any_match :: "compareInfo \<Rightarrow> u32 \<Rightarrow> u32 list \<Rightarrow> u32 list \<Rightarrow> bool" where
  "any_match i m p s \<longleftrightarrow> (\<exists>k. pattern_matches i m p (drop k s))"

lemma any_match_All: "c = ucast (matchAll i) \<Longrightarrow> any_match i m (c # p) s \<longleftrightarrow> any_match i m p s"
  by (auto simp: any_match_def pm_All drop_drop) (metis add_0)

lemma any_match_drop: "any_match i m p (drop k s) \<Longrightarrow> any_match i m p s"
  by (auto simp: any_match_def)

lemma any_match_One:
  assumes "c \<noteq> ucast (matchAll i)" "c \<noteq> m" "c = ucast (matchOne i)"
  shows "any_match i m (c # p) s \<longleftrightarrow> s \<noteq> [] \<and> any_match i m p (tl s)"
proof -
  have "(\<exists>k. drop k s \<noteq> [] \<and> pattern_matches i m p (drop k (tl s))) = (s \<noteq> [] \<and> (\<exists>k. pattern_matches i m p (drop k (tl s))))"
  proof
    assume R: "s \<noteq> [] \<and> (\<exists>k. pattern_matches i m p (drop k (tl s)))"
    then obtain k where k: "s \<noteq> []" "pattern_matches i m p (drop k (tl s))" by blast
    show "\<exists>k. drop k s \<noteq> [] \<and> pattern_matches i m p (drop k (tl s))"
    proof (cases "k < length s")
      case True
      then show ?thesis using k by (intro exI [of _ k]) auto
    next
      case False
      then have "drop k (tl s) = drop (length s - 1) (tl s)" by simp
      moreover have "drop (length s - 1) s \<noteq> []" using k(1) by (simp add: length_greater_0_conv [symmetric] del: length_greater_0_conv)
      ultimately show ?thesis using k(2) by metis
    qed
  qed auto
  then show ?thesis using assms by (simp add: any_match_def pm_char tl_drop [symmetric])
qed

lemma any_match_hits:
  assumes "\<forall>s. pattern_matches i m p s \<longleftrightarrow> s \<noteq> [] \<and> Q (hd s) \<and> pattern_matches i m q (tl s)"
  shows "any_match i m p s \<longleftrightarrow> hits Q (pattern_matches i m q) s"
proof (induction s)
  case Nil
  then show ?case using assms by (simp add: any_match_def)
next
  case (Cons c s)
  have "any_match i m p (c # s) \<longleftrightarrow> pattern_matches i m p (c # s) \<or> any_match i m p s"
    unfolding any_match_def by (metis drop_0 drop_Suc_Cons not0_implies_Suc)
  moreover have "pattern_matches i m p (c # s) \<longleftrightarrow> Q c \<and> pattern_matches i m q s" using assms by simp
  ultimately show ?case using Cons by simp
qed

lemma star_verdict:
  assumes "c = ucast (matchAll i)" "r = (if any_match i m p s then SQLITE_MATCH else SQLITE_NOWILDCARDMATCH)"
  shows "verdict r (pattern_matches i m (c # p)) s"
proof -
  have "pattern_matches i m (c # p) t \<longleftrightarrow> any_match i m p t" for t using assms(1) by (simp add: pm_All any_match_def)
  then show ?thesis using assms(2) any_match_drop by (auto simp: verdict_def)
qed

lemma step_verdict:
  assumes "\<forall>s. pattern_matches i m p s \<longleftrightarrow> s \<noteq> [] \<and> Q (hd s) \<and> pattern_matches i m q (tl s)"
  shows "Q c \<Longrightarrow> verdict r (pattern_matches i m q) s \<Longrightarrow> verdict r (pattern_matches i m p) (c # s)"
    and "\<not> Q c \<Longrightarrow> verdict SQLITE_NOMATCH (pattern_matches i m p) (c # s)"
    and "verdict SQLITE_NOMATCH (pattern_matches i m p) []"
proof -
  show "verdict r (pattern_matches i m p) (c # s)" if "Q c" "verdict r (pattern_matches i m q) s"
  proof -
    have "\<not> pattern_matches i m p (drop k (c # s))" if "\<forall>k. \<not> pattern_matches i m q (drop k s)" for k
    proof -
      have "tl (drop k (c # s)) = drop k s" by (simp add: tl_drop)
      then show ?thesis using that assms by simp
    qed
    then show ?thesis using that assms by (auto simp: verdict_def)
  qed
qed (use assms in \<open>auto simp: verdict_def\<close>)

lemma skip_wild_spec:
  assumes "info_ok i m"
  shows "case skip_wild i z s of
      None \<Rightarrow> \<not> any_match i m (chars z) (chars s)
    | Some (c, z', s') \<Rightarrow> any_match i m (chars z) (chars s) = any_match i m (if c = 0 then [] else c # chars z') (chars s') \<and>
        (c \<noteq> 0 \<longrightarrow> c \<noteq> ucast (matchAll i) \<and> c \<noteq> ucast (matchOne i))"
  using assms
proof (induction i z s rule: skip_wild.induct)
  case (1 i z s)
  obtain c w where r: "sqlite3Utf8Read z = (c, w)" by fastforce
  then have u: "Utf8Read z = (c, w)" by (simp add: Utf8Read_eq)
  obtain d t where rs: "sqlite3Utf8Read s = (d, t)" by fastforce
  note cz = chars_read [OF r] and cs = chars_read [OF rs]
  have one: "ucast (matchOne i) = (0::u32) \<longleftrightarrow> matchOne i = 0" by (simp add: unat_eq_zero [symmetric] del: unat_eq_zero)
  show ?case
  proof (cases "c \<noteq> 0 \<and> (c = ucast (matchAll i) \<or> (c = ucast (matchOne i) \<and> matchOne i \<noteq> 0))")
    case False
    then have "skip_wild i z s = Some (c, w, s)" using u by (subst skip_wild.simps) auto
    then show ?thesis using cz False one by auto
  next
    case w: True
    show ?thesis
    proof (cases "c = ucast (matchOne i)")
      case True
      then have ne: "c \<noteq> ucast (matchAll i)" "c \<noteq> m" using "1.prems" w one ucast_u8_inj by (auto simp: info_ok_def inj_eq)
      note am = any_match_One [OF ne True, of "chars w" "chars s"]
      show ?thesis
      proof (cases "d = 0")
        case d0: True
        have "skip_wild i z s = None" using u rs w True d0 by (subst skip_wild.simps) simp
        then show ?thesis using am cz cs w d0 by simp
      next
        case d: False
        have "skip_wild i z s = skip_wild i w t" using u rs w True d by (subst skip_wild.simps) simp
        moreover have "any_match i m (chars z) (chars s) = any_match i m (chars w) (chars t)" using am cz cs w d by simp
        ultimately show ?thesis using "1.IH"(1) [OF u [symmetric] refl w True rs [symmetric] refl d "1.prems"] by (simp cong: option.case_cong)
      qed
    next
      case f: False
      then have "skip_wild i z s = skip_wild i w s" using u w by (subst skip_wild.simps) auto
      moreover have "any_match i m (chars z) (chars s) = any_match i m (chars w) (chars s)" using any_match_All f w cz by auto
      ultimately show ?thesis using "1.IH"(2) [OF u [symmetric] refl w f "1.prems"] by (simp cong: option.case_cong)
    qed
  qed
qed

text \<open>The bytes that an ASCII character of the pattern is searched by.\<close>

lemma unat_Toupper:
  "unat (sqlite3Toupper x) = (if 97 \<le> unat x \<and> unat x \<le> 122 then unat x - 32 else unat x)"
proof (cases "97 \<le> unat x \<and> unat x \<le> 122")
  case True
  have "\<forall>n\<in>set [97..<123]. unat ((of_nat n :: u8) AND NOT 0x20) = n - 32" by code_simp
  moreover have "unat x \<in> set [97..<123]" unfolding set_upt atLeastLessThan_iff using True by simp
  ultimately have "unat ((of_nat (unat x) :: u8) AND NOT 0x20) = unat x - 32" by blast
  moreover have "ctype_of (unat x) AND 0x20 = 0x20" using True by (auto simp: ctype_of_def)
  ultimately show ?thesis using True by (simp add: sqlite3Toupper_def CtypeMap_nth)
next
  case False
  then have "ctype_of (unat x) AND 0x20 = 0" by (auto simp: ctype_of_def)
  then show ?thesis using False by (auto simp: sqlite3Toupper_def CtypeMap_nth)
qed

lemma ascii_cast:
  assumes "c < (0x80 :: u32)"
  shows "unat (ucast c :: u8) = unat c" "(ucast c :: u8) < 0x80" "(ucast (ucast c :: u8) :: u32) = c"
proof -
  show u: "unat (ucast c :: u8) = unat c" using assms unat_to_u8 [of c] by (simp add: word_less_nat_alt)
  show "(ucast c :: u8) < 0x80" using u assms by (simp add: word_less_nat_alt)
  show "(ucast (ucast c :: u8) :: u32) = c" using u by (simp add: word_unat_eq_iff)
qed

lemma stop_chars:
  assumes d: "d < (0x80 :: u32)"
  shows "\<forall>b\<in>set (if nc then [sqlite3Toupper (ucast d), sqlite3Tolower (ucast d)] else [ucast d]). b < 0x80"
    and "c \<in> ucast ` set (if nc then [sqlite3Toupper (ucast d), sqlite3Tolower (ucast d)] else [ucast d]) \<longleftrightarrow> same_char nc d c"
proof -
  let ?x = "ucast d :: u8"
  note x = ascii_cast [OF d]
  have ux: "unat d < 128" using d by (simp add: word_less_nat_alt)
  have lt: "sqlite3Toupper ?x < 0x80" "sqlite3Tolower ?x < 0x80"
    using ux x(1) by (auto simp: word_less_nat_alt unat_Toupper unat_Tolower)
  then show "\<forall>b\<in>set (if nc then [sqlite3Toupper ?x, sqlite3Tolower ?x] else [?x]). b < 0x80" using x(2) by simp
  show "c \<in> ucast ` set (if nc then [sqlite3Toupper ?x, sqlite3Tolower ?x] else [?x]) \<longleftrightarrow> same_char nc d c"
  proof (cases "c < 0x80")
    case True
    let ?y = "ucast c :: u8"
    note y = ascii_cast [OF True]
    have inj: "c = ucast b \<longleftrightarrow> ?y = b" for b :: u8 using y(3) ucast_u8_inj by (metis injD)
    have fold: "?y = sqlite3Toupper ?x \<or> ?y = sqlite3Tolower ?x \<longleftrightarrow> sqlite3Tolower ?x = sqlite3Tolower ?y"
      unfolding word_unat_eq_iff unat_Toupper unat_Tolower x(1) y(1) by auto
    have eq: "?y = ?x \<longleftrightarrow> d = c" using x(3) y(3) by metis
    show ?thesis
    proof (cases "d = c")
      case True
      then show ?thesis using fold by (auto simp: same_char_def inj)
    next
      case f: False
      then show ?thesis using True d by (auto simp: same_char_def inj fold [symmetric] eq)
    qed
  next
    case False
    have "ucast b \<noteq> c" if "b < (0x80 :: u8)" for b using that False by (auto simp: word_less_nat_alt)
    then show ?thesis using False lt x(2) d by (auto simp: same_char_def)
  qed
qed

lemma same_char_high: "\<not> d < 0x80 \<Longrightarrow> same_char nc d = (=) d"
  by (auto simp: same_char_def)

lemma chars_ascii: "c < 0x80 \<Longrightarrow> c \<noteq> 0 \<Longrightarrow> chars (ucast c # z) = c # chars z"
proof -
  assume c: "c < 0x80" "c \<noteq> 0"
  have "(ucast c :: u8) < 0x80" "(ucast (ucast c :: u8) :: u32) = c" using ascii_cast c by auto
  then have "sqlite3Utf8Read (ucast c # z) = (c, z)" using read_low [of "ucast c # z"] by simp
  then show ?thesis using chars_read c by auto
qed

lemma any_match_nonempty:
  "\<not> pattern_matches i m p [] \<Longrightarrow> any_match i m p s \<longleftrightarrow> (\<exists>j<length s. pattern_matches i m p (drop j s))"
  unfolding any_match_def by (metis drop_all not_le)

text \<open>The branch behind \<open>*\<close>.\<close>

lemma star_search:
  assumes ok: "info_ok i m" and r: "sqlite3Utf8Read z = (c, w)" and c: "c \<noteq> 0" "c = ucast (matchAll i)"
    and IH: "\<And>z' s. length z' < length z \<Longrightarrow> verdict (patternCompare i m z' s) (pattern_matches i m (chars z')) (chars s)"
  shows "patternCompare i m z s = (if any_match i m (chars w) (chars s) then SQLITE_MATCH else SQLITE_NOWILDCARDMATCH)"
proof -
  have u: "Utf8Read z = (c, w)" using r by (simp add: Utf8Read_eq)
  have wz: "length w < length z" by (rule Utf8Read_less [OF r [symmetric] c(1)])
  note spec = skip_wild_spec [OF ok, of w s]
  show ?thesis
  proof (cases "skip_wild i w s")
    case None
    then have "patternCompare i m z s = SQLITE_NOWILDCARDMATCH" using u c by (subst patternCompare.simps) simp
    then show ?thesis using spec None by simp
  next
    case (Some q)
    obtain c2 w2 s2 where q: "q = (c2, w2, s2)" using prod_cases3 by blast
    have sk: "skip_wild i w s = Some (c2, w2, s2)" using Some q by simp
    have am: "any_match i m (chars w) (chars s) = any_match i m (if c2 = 0 then [] else c2 # chars w2) (chars s2)"
      and nw: "c2 \<noteq> 0 \<Longrightarrow> c2 \<noteq> ucast (matchAll i) \<and> c2 \<noteq> ucast (matchOne i)" using spec sk by auto
    have ww: "length w2 \<le> length w" "c2 \<noteq> 0 \<Longrightarrow> length w2 < length w" using skip_wild_le [OF sk] by auto
    consider (stop) "c2 = 0" | (cset) "c2 \<noteq> 0" "c2 = m \<and> matchSet i \<noteq> 0" | (char) "c2 \<noteq> 0" "\<not> (c2 = m \<and> matchSet i \<noteq> 0)" by blast
    then show ?thesis
    proof cases
      case stop
      have "patternCompare i m z s = SQLITE_MATCH" using u c sk stop by (subst patternCompare.simps) simp
      moreover have "any_match i m [] (chars s2)" unfolding any_match_def by (intro exI [of _ "length (chars s2)"]) simp
      ultimately show ?thesis using am stop by simp
    next
      case cset
      have "m < 0x80" using cset ok by (simp add: info_ok_def)
      then have cc: "chars (ucast c2 # w2) = c2 # chars w2" using cset by (intro chars_ascii) auto
      have "\<forall>t. verdict (patternCompare i m (ucast c2 # w2) t) (pattern_matches i m (c2 # chars w2)) (chars t)"
        using IH [of "ucast c2 # w2"] ww(2) [OF cset(1)] wz cc by simp
      note ss = search_set_spec [OF this, of s2]
      have "\<not> pattern_matches i m (c2 # chars w2) []" using pm_set [of c2 i m] nw cset by simp
      note ne = any_match_nonempty [OF this, of "chars s2"]
      have "patternCompare i m z s = search_set (\<lambda>t. patternCompare i m (ucast c2 # w2) t) s2"
        using u c sk cset by (subst patternCompare.simps) simp
      then show ?thesis using ss ne am cset(1) by simp
    next
      case char
      obtain c3 w3 where c3: "(if c2 = m then sqlite3Utf8Read w2 else (c2, w2)) = (c3, w3)" by fastforce
      have w3: "length w3 \<le> length w2" using c3 Utf8Read_le [of c3 w3 w2] by (auto split: if_splits)
      have pc: "patternCompare i m z s = (if c3 = 0 then SQLITE_NOWILDCARDMATCH
          else if c3 < 0x80 then search_ascii (\<lambda>t. patternCompare i m w3 t)
            (if noCase i then [sqlite3Toupper (ucast c3), sqlite3Tolower (ucast c3)] else [ucast c3]) s2
          else search_char (\<lambda>t. patternCompare i m w3 t) c3 s2)"
        using u c sk char c3 by (subst patternCompare.simps) (simp only: case_prod_conv Let_def option.case if_False if_True simp_thms)
      show ?thesis
      proof (cases "c3 = 0")
        case True
        then have e: "c2 = m" "matchSet i = 0" "chars w2 = []" using c3 char chars_read [of w2 c3 w3] by (auto split: if_splits)
        then have "\<not> any_match i m (c2 # chars w2) (chars s2)" using pm_escape [of c2 i m] nw char(1) by (simp add: any_match_def)
        then show ?thesis using pc True am char(1) by simp
      next
        case False
        have step: "\<forall>t. pattern_matches i m (c2 # chars w2) t \<longleftrightarrow>
            t \<noteq> [] \<and> same_char (noCase i) c3 (hd t) \<and> pattern_matches i m (chars w3) (tl t)"
        proof (cases "c2 = m")
          case True
          then have "chars w2 = c3 # chars w3" "matchSet i = 0" using c3 False char chars_read [of w2 c3 w3] by auto
          then show ?thesis using pm_escape [of c2 i m] True nw char(1) by simp
        next
          case f: False
          then show ?thesis using pm_char [of c2 i m] c3 nw char(1) by auto
        qed
        note hits = any_match_hits [OF step, of "chars s2"]
        have v: "\<forall>t. verdict (patternCompare i m w3 t) (pattern_matches i m (chars w3)) (chars t)"
          using IH [of w3] w3 ww wz by simp
        show ?thesis
        proof (cases "c3 < 0x80")
          case True
          note st = stop_chars [OF True, where nc = "noCase i"]
          have "(\<lambda>c. c \<in> ucast ` set (if noCase i then [sqlite3Toupper (ucast c3), sqlite3Tolower (ucast c3)] else [ucast c3])) = same_char (noCase i) c3"
            by (intro ext) (rule st(2))
          then show ?thesis using pc False True search_ascii_spec [OF v st(1), of s2] hits am char(1) by simp
        next
          case f: False
          then show ?thesis using pc False search_char_spec [OF v, of c3 s2] hits am char(1) same_char_high [OF f] by simp
        qed
      qed
    qed
  qed
qed

lemma patternCompare_verdict:
  assumes "info_ok i m"
  shows "verdict (patternCompare i m z s) (pattern_matches i m (chars z)) (chars s)"
proof (induction "length z" arbitrary: z s rule: less_induct)
  case (less z s)
  obtain c w where r: "sqlite3Utf8Read z = (c, w)" by fastforce
  then have u: "Utf8Read z = (c, w)" by (simp add: Utf8Read_eq)
  obtain e t where rs: "sqlite3Utf8Read s = (e, t)" by fastforce
  then have us: "Utf8Read s = (e, t)" by (simp add: Utf8Read_eq)
  note cz = chars_read [OF r] and cs = chars_read [OF rs]
  let ?pc = "patternCompare i m"
  consider (nil) "c = 0" | (star) "c \<noteq> 0" "c = ucast (matchAll i)"
    | (cset) "c \<noteq> 0" "c \<noteq> ucast (matchAll i)" "c = m \<and> matchSet i \<noteq> 0"
    | (char) "c \<noteq> 0" "c \<noteq> ucast (matchAll i)" "\<not> (c = m \<and> matchSet i \<noteq> 0)" by blast
  then show ?case
  proof cases
    case nil
    then have "?pc z s = (if hd0 s = 0 then SQLITE_MATCH else SQLITE_NOMATCH)" using u by (subst patternCompare.simps) simp
    then show ?thesis using cz nil chars_Nil_iff [of s] by (simp add: verdict_def)
  next
    case star
    have "?pc z s = (if any_match i m (chars w) (chars s) then SQLITE_MATCH else SQLITE_NOWILDCARDMATCH)"
      by (rule star_search [OF assms r star less.hyps])
    from star_verdict [OF star(2) this] show ?thesis using cz star(1) by simp
  next
    case cset
    have wz: "length w < length z" by (rule Utf8Read_less [OF r [symmetric] cset(1)])
    have pc: "?pc z s = (if e = 0 then SQLITE_NOMATCH else case match_set e w of None \<Rightarrow> SQLITE_NOMATCH | Some w' \<Rightarrow> ?pc w' t)"
      using u cset rs by (subst patternCompare.simps) simp
    have pm: "pattern_matches i m (chars z) S \<longleftrightarrow>
        S \<noteq> [] \<and> (\<exists>neg is r. parse_set (chars w) = Some (neg, is, r) \<and> set_has (hd S) is \<noteq> neg \<and> pattern_matches i m r (tl S))" for S
      using pm_set [of c i m] cset cz by simp
    show ?thesis
    proof (cases "e = 0")
      case True
      then show ?thesis using pc cs pm by (simp add: verdict_def)
    next
      case False
      note ms = match_set_spec [where c = e and z = w]
      show ?thesis
      proof (cases "match_set e w")
        case None
        then have "\<not> pattern_matches i m (chars z) (chars s)" using ms pm cs False by auto
        then show ?thesis using pc None False by (simp add: verdict_def)
      next
        case (Some w')
        then obtain neg "is" where p: "parse_set (chars w) = Some (neg, is, chars w')" "set_has e is \<noteq> neg" using ms by auto
        have st: "\<forall>S. pattern_matches i m (chars z) S \<longleftrightarrow> S \<noteq> [] \<and> set_has (hd S) is \<noteq> neg \<and> pattern_matches i m (chars w') (tl S)"
          using pm p(1) by auto
        have "verdict (?pc w' t) (pattern_matches i m (chars w')) (chars t)"
          using less.hyps [of w' t] match_set_le [OF Some] wz by simp
        from step_verdict(1) [OF st, of e, OF p(2) this] show ?thesis using pc Some False cs by simp
      qed
    qed
  next
    case char
    have wz: "length w < length z" by (rule Utf8Read_less [OF r [symmetric] char(1)])
    define escaped where "escaped \<longleftrightarrow> c = m"
    obtain d v where d: "(if escaped then sqlite3Utf8Read w else (c, w)) = (d, v)" by fastforce
    have vz: "length v < length z" using d wz Utf8Read_le [of d v w] by (auto split: if_splits)
    have pc: "?pc z s = (if d = 0 then SQLITE_NOMATCH
        else if d = e \<or> (noCase i \<and> sqlite3Tolower (ucast d) = sqlite3Tolower (ucast e) \<and> d < 0x80 \<and> e < 0x80)
          \<or> (d = ucast (matchOne i) \<and> \<not> escaped \<and> e \<noteq> 0) then ?pc v t else SQLITE_NOMATCH)"
      using u char us d unfolding escaped_def by (subst patternCompare.simps) (simp only: case_prod_conv Let_def if_False if_True simp_thms)
    show ?thesis
    proof (cases "d = 0")
      case True
      then have "c = m" "chars w = []" using d char(1) chars_read [of w d v] by (auto simp: escaped_def split: if_splits)
      then have "\<not> pattern_matches i m (chars z) S" for S using pm_escape [of c i m] char cz by simp
      then show ?thesis using pc True by (simp add: verdict_def)
    next
      case False
      let ?Q = "\<lambda>x. (d = ucast (matchOne i) \<and> \<not> escaped) \<or> same_char (noCase i) d x"
      have st: "\<forall>S. pattern_matches i m (chars z) S \<longleftrightarrow> S \<noteq> [] \<and> ?Q (hd S) \<and> pattern_matches i m (chars v) (tl S)"
      proof (cases escaped)
        case True
        then have "chars w = d # chars v" "matchSet i = 0" using d False char chars_read [of w d v] by (auto simp: escaped_def)
        then show ?thesis using pm_escape [of c i m] True char cz by (simp add: escaped_def)
      next
        case f: False
        then have "d = c" "v = w" using d by auto
        then show ?thesis using pm_char [of c i m] f char cz by (auto simp: escaped_def)
      qed
      have v: "verdict (?pc v t) (pattern_matches i m (chars v)) (chars t)" by (rule less.hyps [OF vz])
      show ?thesis
      proof (cases "e = 0")
        case True
        have "\<not> (d < 0x80 \<and> sqlite3Tolower (ucast d) = 0)"
        proof
          assume a: "d < 0x80 \<and> sqlite3Tolower (ucast d) = 0"
          then have "unat d = 0" using ascii_cast(1) [of d] by simp
          then have "d = 0" by (simp add: word_unat_eq_iff)
          then show False using False by simp
        qed
        then have "?pc z s = SQLITE_NOMATCH" using pc True False by auto
        then show ?thesis using step_verdict(3) [OF st] cs True by simp
      next
        case e: False
        have "?pc z s = (if ?Q e then ?pc v t else SQLITE_NOMATCH)" using pc False e by (auto simp: same_char_def)
        then show ?thesis using step_verdict(1) [OF st, of e, OF _ v] step_verdict(2) [OF st, of e] cs e by auto
      qed
    qed
  qed
qed

lemma patternCompare_MATCH:
  "info_ok i m \<Longrightarrow> patternCompare i m z s = SQLITE_MATCH \<longleftrightarrow> pattern_matches i m (chars z) (chars s)"
  using patternCompare_verdict [of i m z s] none_here [of "pattern_matches i m (chars z)" "chars s"]
  by (auto simp: verdict_def codes)

lemma Utf8CharLen_loop_chars: "Utf8CharLen_loop z r = r + length (chars z)"
proof (induction z r rule: Utf8CharLen_loop.induct)
  case (1 z r)
  show ?case
  proof (cases "hd0 z = 0")
    case True
    then have "chars z = []" by (simp add: chars_Nil_iff)
    then show ?thesis using True by (subst Utf8CharLen_loop.simps) simp
  next
    case False
    then have "z \<noteq> []" by auto
    then have "Utf8CharLen_loop z r = Utf8CharLen_loop (SQLITE_SKIP_UTF8 z) (r + 1)" using False by (subst Utf8CharLen_loop.simps) simp
    moreover have "chars z \<noteq> []" using False by (simp add: chars_Nil_iff)
    ultimately show ?thesis using 1 False \<open>z \<noteq> []\<close> chars_SKIP [OF False] by (cases "chars z") auto
  qed
qed

lemma info_ok_like:
  "info_ok likeInfoNorm m \<longleftrightarrow> m \<noteq> 0x5f" "info_ok likeInfoAlt m \<longleftrightarrow> m \<noteq> 0x5f" "info_ok globInfo 0x5b"
  by (simp_all add: info_ok_def likeInfoNorm_def likeInfoAlt_def globInfo_def)

text \<open>C7. GLOB. \<open>sqlite3_strglob\<close> returns zero exactly if the text is matched by the pattern in the plain
  sense: \<open>*\<close> stands for any characters, \<open>?\<close> for one, a set in brackets for one of its members. In
  particular the result \<open>SQLITE_NOWILDCARDMATCH\<close>, which ends the search of the wildcards further out,
  never hides a match, on well-formed and ill-formed UTF-8 alike.\<close>

theorem sqlite3_strglob_correct:
  "sqlite3_strglob (Some p) (Some s) = 0 \<longleftrightarrow> pattern_matches globInfo 0x5b (chars p) (chars s)"
  using patternCompare_MATCH [OF info_ok_like(3)] by (simp add: sqlite3_strglob_def SQLITE_MATCH_def)

text \<open>C14. LIKE. With and without ESCAPE the SQL function decides the plain definition of a match, where
  the escape character makes the next one literal and is no wildcard itself; a pattern that is too long
  and an escape that is not one character are reported.\<close>

theorem likeFunc_correct:
  assumes "i = likeInfoNorm \<or> i = likeInfoAlt"
  shows "likeFunc i nLimit (Some p) (Some s) zEsc =
    (if length p > nLimit then TooComplex
     else case zEsc of
       None \<Rightarrow> LikeInt (pattern_matches i 0 (chars p) (chars s))
     | Some None \<Rightarrow> LikeNull
     | Some (Some z) \<Rightarrow>
         (case chars z of
            [e] \<Rightarrow> LikeInt (pattern_matches (i\<lparr>matchAll := if e = 0x25 then 0 else 0x25, matchOne := if e = 0x5f then 0 else 0x5f\<rparr>)
                     e (chars p) (chars s))
          | _ \<Rightarrow> BadEscape))"
proof (cases "length p > nLimit")
  case False
  have f: "matchAll i = 0x25" "matchOne i = 0x5f" "matchSet i = 0" using assms by (auto simp: likeInfoNorm_def likeInfoAlt_def)
  have i: "i\<lparr>matchAll := 0x25, matchOne := 0x5f\<rparr> = i" using f by (cases i) simp
  show ?thesis
  proof (cases zEsc)
    case None
    have "info_ok i 0" using f by (simp add: info_ok_def)
    then show ?thesis using None False f patternCompare_MATCH [of i 0 p s] by (simp add: likeFunc_def)
  next
    case (Some opt)
    show ?thesis
    proof (cases opt)
      case None
      then show ?thesis using False Some by (simp add: likeFunc_def)
    next
      case z: (Some z)
      have len: "sqlite3Utf8CharLen z (-1) = length (chars z)" by (simp add: sqlite3Utf8CharLen_def Utf8CharLen_loop_chars)
      obtain e w where r: "sqlite3Utf8Read z = (e, w)" by fastforce
      note cz = chars_read [OF r]
      show ?thesis
      proof (cases "length (chars z) = 1")
        case True
        then have e: "chars z = [e]" "e \<noteq> 0" using cz by (auto split: if_splits)
        let ?i = "i\<lparr>matchAll := if e = 0x25 then 0 else 0x25, matchOne := if e = 0x5f then 0 else 0x5f\<rparr>"
        have "(if e = ucast (matchOne (if e = ucast (matchAll i) then i\<lparr>matchAll := 0\<rparr> else i))
            then (if e = ucast (matchAll i) then i\<lparr>matchAll := 0\<rparr> else i)\<lparr>matchOne := 0\<rparr>
            else (if e = ucast (matchAll i) then i\<lparr>matchAll := 0\<rparr> else i)) = ?i"
          using f e(2) by (cases i) auto
        then have "likeFunc i nLimit (Some p) (Some s) zEsc = LikeInt (patternCompare ?i e p s = SQLITE_MATCH)"
          using False Some z len True r by (simp add: likeFunc_def Let_def)
        moreover have "info_ok ?i e" using f by (auto simp: info_ok_def)
        ultimately show ?thesis using False Some z e patternCompare_MATCH [of ?i e p s] by simp
      next
        case f: False
        then have "likeFunc i nLimit (Some p) (Some s) zEsc = BadEscape" using False Some z len by (simp add: likeFunc_def)
        then show ?thesis using False Some z f by (auto split: list.splits)
      qed
    qed
  qed
qed (simp add: likeFunc_def)

theorem likeFunc_correct_witness:
  "likeFunc likeInfoNorm 1000 (Some [0x25, 0x42]) (Some [0x61, 0x62]) None = LikeInt (pattern_matches likeInfoNorm 0 (chars [0x25, 0x42]) (chars [0x61, 0x62]))"
  using likeFunc_correct [of likeInfoNorm 1000 "[0x25, 0x42]" "[0x61, 0x62]" None] by simp

text \<open>C36. \<open>sqlite3_strlike\<close> agrees with LIKE and LIKE ESCAPE for every escape character other than the two
  wildcards. With \<open>_\<close> as the escape character the pattern \<open>%__\<close>, which stands for a text that ends in an
  underscore, also matches \<open>ab\<close>; with \<open>%\<close> the pattern \<open>%%\<close>, which stands for a percent sign, also
  matches \<open>a\<close>.\<close>

theorem sqlite3_strlike_escape:
  "(chars z = [e] \<and> e \<noteq> 0x25 \<and> e \<noteq> 0x5f \<and> length p \<le> nLimit \<longrightarrow>
     likeFunc likeInfoNorm nLimit (Some p) (Some s) (Some (Some z)) = LikeInt (sqlite3_strlike (Some p) (Some s) e = 0)) \<and>
   sqlite3_strlike (Some [0x25, 0x5f, 0x5f]) (Some [0x61, 0x62]) 0x5f = 0 \<and>
   likeFunc likeInfoNorm 1000 (Some [0x25, 0x5f, 0x5f]) (Some [0x61, 0x62]) (Some (Some [0x5f])) = LikeInt False \<and>
   sqlite3_strlike (Some [0x25, 0x25]) (Some [0x61]) 0x25 = 0 \<and>
   likeFunc likeInfoNorm 1000 (Some [0x25, 0x25]) (Some [0x61]) (Some (Some [0x25])) = LikeInt False"
proof (intro conjI impI)
  assume z: "chars z = [e] \<and> e \<noteq> 0x25 \<and> e \<noteq> 0x5f \<and> length p \<le> nLimit"
  obtain d w where r: "sqlite3Utf8Read z = (d, w)" by fastforce
  then have "d = e" using z chars_read [OF r] by (auto split: if_splits)
  moreover have "sqlite3Utf8CharLen z (-1) = 1" using z by (simp add: sqlite3Utf8CharLen_def Utf8CharLen_loop_chars)
  ultimately show "likeFunc likeInfoNorm nLimit (Some p) (Some s) (Some (Some z)) = LikeInt (sqlite3_strlike (Some p) (Some s) e = 0)"
    using z r by (simp add: likeFunc_def sqlite3_strlike_def likeInfoNorm_def SQLITE_MATCH_def)
qed code_simp+

theorem sqlite3_strlike_escape_witness:
  "likeFunc likeInfoNorm 1000 (Some [0x61]) (Some [0x61]) (Some (Some [0x5c])) = LikeInt (sqlite3_strlike (Some [0x61]) (Some [0x61]) 0x5c = 0)"
proof -
  have "chars [0x5c] = [0x5c]" by code_simp
  then show ?thesis using sqlite3_strlike_escape [of "[0x5c]" "0x5c" "[0x61]" 1000 "[0x61]"] by simp
qed

end
