(* ===== verification/Files.thy ===== *)
theory Files
  imports Prelude
begin

text \<open>
  Files and buffers of bytes: \<open>memcpy\<close> and \<open>memset\<close> on a buffer of known size, where an access
  outside the buffer has no value, and the interface of a file that can be read and written at
  an offset. The in-memory database file and the in-memory journal implement it.
\<close>

section \<open>Result codes of file operations\<close>

definition SQLITE_BUSY :: nat where "SQLITE_BUSY = 5"
definition SQLITE_READONLY :: nat where "SQLITE_READONLY = 8"
definition SQLITE_NOTFOUND :: nat where "SQLITE_NOTFOUND = 12"
definition SQLITE_FULL :: nat where "SQLITE_FULL = 13"
definition SQLITE_IOERR_SHORT_READ :: nat where "SQLITE_IOERR_SHORT_READ = SQLITE_IOERR OR (push_bit 8 2)"
definition SQLITE_IOERR_WRITE :: nat where "SQLITE_IOERR_WRITE = SQLITE_IOERR OR (push_bit 8 3)"
definition SQLITE_IOERR_NOMEM :: nat where "SQLITE_IOERR_NOMEM = SQLITE_IOERR OR (push_bit 8 12)"

lemma file_codes [simp]:
  "SQLITE_BUSY \<noteq> SQLITE_OK" "SQLITE_READONLY \<noteq> SQLITE_OK" "SQLITE_NOTFOUND \<noteq> SQLITE_OK"
  "SQLITE_FULL \<noteq> SQLITE_OK" "SQLITE_IOERR_SHORT_READ \<noteq> SQLITE_OK" "SQLITE_IOERR_WRITE \<noteq> SQLITE_OK"
  "SQLITE_IOERR_NOMEM \<noteq> SQLITE_OK"
  by (simp_all add: SQLITE_BUSY_def SQLITE_READONLY_def SQLITE_NOTFOUND_def SQLITE_FULL_def SQLITE_OK_def
    SQLITE_IOERR_SHORT_READ_def SQLITE_IOERR_WRITE_def SQLITE_IOERR_NOMEM_def SQLITE_IOERR_def)

section \<open>Buffers\<close>

definition get_bytes :: "u8 list \<Rightarrow> nat \<Rightarrow> nat \<Rightarrow> u8 list option" where
  "get_bytes a ofs n = (if ofs + n \<le> length a then Some (take n (drop ofs a)) else None)"

definition put_bytes :: "u8 list \<Rightarrow> nat \<Rightarrow> u8 list \<Rightarrow> u8 list option" where
  "put_bytes a ofs bs =
     (if ofs + length bs \<le> length a then Some (take ofs a @ bs @ drop (ofs + length bs) a) else None)"

lemma put_bytes_length: "put_bytes a ofs bs = Some a' \<Longrightarrow> length a' = length a"
  by (auto simp: put_bytes_def split: if_splits)

lemma put_bytes_Some: "ofs + length bs \<le> length a \<Longrightarrow>
    put_bytes a ofs bs = Some (take ofs a @ bs @ drop (ofs + length bs) a)"
  by (simp add: put_bytes_def)

lemma get_bytes_Some: "ofs + n \<le> length a \<Longrightarrow> get_bytes a ofs n = Some (take n (drop ofs a))"
  by (simp add: get_bytes_def)

section \<open>The content of a file\<close>

text \<open>Writing \<open>bs\<close> at an offset; a gap behind the end of the file is filled with zeros.\<close>

definition overwrite :: "u8 list \<Rightarrow> nat \<Rightarrow> u8 list \<Rightarrow> u8 list" where
  "overwrite f ofs bs = take ofs f @ replicate (ofs - length f) 0 @ bs @ drop (ofs + length bs) f"

text \<open>Reading up to \<open>n\<close> bytes; what lies behind the end reads as zeros.\<close>

definition read_zeros :: "u8 list \<Rightarrow> nat \<Rightarrow> nat \<Rightarrow> u8 list" where
  "read_zeros f ofs n = take n (drop ofs f @ replicate n 0)"

lemma overwrite_length [simp]: "length (overwrite f ofs bs) = max (length f) (ofs + length bs)"
  by (auto simp: overwrite_def)

lemma overwrite_nth:
  "i < max (length f) (ofs + length bs) \<Longrightarrow>
   overwrite f ofs bs ! i =
     (if ofs \<le> i \<and> i < ofs + length bs then bs ! (i - ofs) else if i < length f then f ! i else 0)"
  by (auto simp: overwrite_def nth_append min_def)

lemma overwrite_append: "overwrite f (length f) bs = f @ bs"
  by (simp add: overwrite_def)

lemma overwrite_same_read [simp]: "take (length bs) (drop ofs (overwrite f ofs bs)) = bs"
  by (simp add: overwrite_def)

lemma overwrite_other_read:
  assumes "ofs' + n \<le> ofs \<or> ofs + length bs \<le> ofs'" and "ofs' + n \<le> length f"
  shows "take n (drop ofs' (overwrite f ofs bs)) = take n (drop ofs' f)"
  using assms by (intro nth_equalityI) (auto simp: overwrite_nth)

lemma overwrite_twice [simp]: "length bs = length bs' \<Longrightarrow> overwrite (overwrite f ofs bs) ofs bs' = overwrite f ofs bs'"
  by (intro nth_equalityI) (auto simp: overwrite_nth)

section \<open>The interface\<close>

text \<open>A file whose operations may fail: a write changes the content as \<open>overwrite\<close> does when it
  returns \<open>SQLITE_OK\<close>; otherwise the content is unchanged or some of the first bytes are written. \<open>fits\<close> is the use of the file that the
  provider supports; \<open>'m\<close> is what the operation gets from the allocator.\<close>

locale byte_file =
  fixes ok :: "'s \<Rightarrow> bool"
    and content :: "'s \<Rightarrow> u8 list"
    and fits :: "'s \<Rightarrow> nat \<Rightarrow> u8 list \<Rightarrow> bool"
    and xWrite :: "'m \<Rightarrow> 's \<Rightarrow> u8 list \<Rightarrow> nat \<Rightarrow> (nat \<times> 's) option"
    and xRead :: "'s \<Rightarrow> nat \<Rightarrow> nat \<Rightarrow> (nat \<times> u8 list \<times> 's) option"
  assumes write_total: "ok s \<Longrightarrow> fits s ofs bs \<Longrightarrow> \<exists>rc s'. xWrite m s bs ofs = Some (rc, s')"
    and write_law: "ok s \<Longrightarrow> fits s ofs bs \<Longrightarrow> xWrite m s bs ofs = Some (rc, s') \<Longrightarrow>
      ok s' \<and> (if rc = SQLITE_OK then content s' = overwrite (content s) ofs bs
        else content s' = content s \<or> (\<exists>k. content s' = overwrite (content s) ofs (take k bs)))"
    and read_law: "ok s \<Longrightarrow> 0 < n \<Longrightarrow> ofs + n \<le> length (content s) \<Longrightarrow>
      \<exists>s'. xRead s n ofs = Some (SQLITE_OK, take n (drop ofs (content s)), s') \<and> ok s' \<and> content s' = content s"
begin

lemma read_after_write:
  assumes "ok s" and "fits s ofs bs" and "bs \<noteq> []" and "xWrite m s bs ofs = Some (SQLITE_OK, s')"
  shows "\<exists>s''. xRead s' (length bs) ofs = Some (SQLITE_OK, bs, s'')"
proof -
  have s': "ok s'" "content s' = overwrite (content s) ofs bs" using write_law [OF assms(1,2,4)] by simp_all
  have "0 < length bs" "ofs + length bs \<le> length (content s')" using assms(3) s'(2) by auto
  then show ?thesis using read_law [OF s'(1), of "length bs" ofs] s'(2) by auto
qed

lemma read_other_after_write:
  assumes "ok s" and "fits s ofs bs" and "xWrite m s bs ofs = Some (rc, s')" and "0 < n"
    and "ofs' + n \<le> ofs \<or> ofs + length bs \<le> ofs'" and "ofs' + n \<le> length (content s)"
  shows "\<exists>s1 s2 z. xRead s' n ofs' = Some (SQLITE_OK, z, s1) \<and> xRead s n ofs' = Some (SQLITE_OK, z, s2)"
proof -
  have s': "ok s'" and "content s' = content s \<or> (\<exists>k. content s' = overwrite (content s) ofs (take k bs))"
    using write_law [OF assms(1-3)] by (auto split: if_splits intro: exI [of _ "length bs"])
  moreover have "take n (drop ofs' (overwrite (content s) ofs (take k bs))) = take n (drop ofs' (content s))" for k
    using assms(5,6) by (intro overwrite_other_read) auto
  ultimately have c: "take n (drop ofs' (content s')) = take n (drop ofs' (content s))" "ofs' + n \<le> length (content s')"
    using assms(6) by auto
  then show ?thesis using read_law [OF s' assms(4) c(2)] read_law [OF assms(1,4,6)] by fastforce
qed

end

end
