(* ===== verification/Tokenize.thy ===== *)
theory Tokenize
  imports Numbers Files
begin

text \<open>
  The SQL tokenizer of \<open>tokenize.c\<close>. A text is the list of its bytes up to the terminating zero, which
  \<open>char_at\<close> reads behind the end. Token codes are the names of the source; the codes of the keywords
  are those of the generated parser, and what the generated \<open>keywordCode\<close> finds for a word is the
  parameter \<open>kw\<close>, \<open>sqlite3ParserFallback\<close> the parameter \<open>fallback\<close>, and the generated parser itself the
  parameter \<open>parser\<close> of the driver.
\<close>

section \<open>Character classes\<close>

definition CC_X :: nat where "CC_X = 0"
definition CC_KYWD0 :: nat where "CC_KYWD0 = 1"
definition CC_KYWD :: nat where "CC_KYWD = 2"
definition CC_DIGIT :: nat where "CC_DIGIT = 3"
definition CC_DOLLAR :: nat where "CC_DOLLAR = 4"
definition CC_VARALPHA :: nat where "CC_VARALPHA = 5"
definition CC_VARNUM :: nat where "CC_VARNUM = 6"
definition CC_SPACE :: nat where "CC_SPACE = 7"
definition CC_QUOTE :: nat where "CC_QUOTE = 8"
definition CC_QUOTE2 :: nat where "CC_QUOTE2 = 9"
definition CC_PIPE :: nat where "CC_PIPE = 10"
definition CC_MINUS :: nat where "CC_MINUS = 11"
definition CC_LT :: nat where "CC_LT = 12"
definition CC_GT :: nat where "CC_GT = 13"
definition CC_EQ :: nat where "CC_EQ = 14"
definition CC_BANG :: nat where "CC_BANG = 15"
definition CC_SLASH :: nat where "CC_SLASH = 16"
definition CC_LP :: nat where "CC_LP = 17"
definition CC_RP :: nat where "CC_RP = 18"
definition CC_SEMI :: nat where "CC_SEMI = 19"
definition CC_PLUS :: nat where "CC_PLUS = 20"
definition CC_STAR :: nat where "CC_STAR = 21"
definition CC_PERCENT :: nat where "CC_PERCENT = 22"
definition CC_COMMA :: nat where "CC_COMMA = 23"
definition CC_AND :: nat where "CC_AND = 24"
definition CC_TILDA :: nat where "CC_TILDA = 25"
definition CC_DOT :: nat where "CC_DOT = 26"
definition CC_ID :: nat where "CC_ID = 27"
definition CC_ILLEGAL :: nat where "CC_ILLEGAL = 28"
definition CC_NUL :: nat where "CC_NUL = 29"
definition CC_BOM :: nat where "CC_BOM = 30"

lemmas CC_defs = CC_X_def CC_KYWD0_def CC_KYWD_def CC_DIGIT_def CC_DOLLAR_def CC_VARALPHA_def CC_VARNUM_def CC_SPACE_def
  CC_QUOTE_def CC_QUOTE2_def CC_PIPE_def CC_MINUS_def CC_LT_def CC_GT_def CC_EQ_def CC_BANG_def CC_SLASH_def CC_LP_def
  CC_RP_def CC_SEMI_def CC_PLUS_def CC_STAR_def CC_PERCENT_def CC_COMMA_def CC_AND_def CC_TILDA_def CC_DOT_def CC_ID_def
  CC_ILLEGAL_def CC_NUL_def CC_BOM_def

definition aiClass_table :: "nat list" where
  "aiClass_table = [
     29, 28, 28, 28, 28, 28, 28, 28, 28,  7,  7, 28,  7,  7, 28, 28,
     28, 28, 28, 28, 28, 28, 28, 28, 28, 28, 28, 28, 28, 28, 28, 28,
      7, 15,  8,  5,  4, 22, 24,  8, 17, 18, 21, 20, 23, 11, 26, 16,
      3,  3,  3,  3,  3,  3,  3,  3,  3,  3,  5, 19, 12, 14, 13,  6,
      5,  1,  1,  1,  1,  1,  1,  1,  1,  1,  1,  1,  1,  1,  1,  1,
      1,  1,  1,  1,  1,  1,  1,  1,  0,  2,  2,  9, 28, 28, 28,  2,
      8,  1,  1,  1,  1,  1,  1,  1,  1,  1,  1,  1,  1,  1,  1,  1,
      1,  1,  1,  1,  1,  1,  1,  1,  0,  2,  2, 28, 10, 28, 25, 28,
     27, 27, 27, 27, 27, 27, 27, 27, 27, 27, 27, 27, 27, 27, 27, 27,
     27, 27, 27, 27, 27, 27, 27, 27, 27, 27, 27, 27, 27, 27, 27, 27,
     27, 27, 27, 27, 27, 27, 27, 27, 27, 27, 27, 27, 27, 27, 27, 27,
     27, 27, 27, 27, 27, 27, 27, 27, 27, 27, 27, 27, 27, 27, 27, 27,
     27, 27, 27, 27, 27, 27, 27, 27, 27, 27, 27, 27, 27, 27, 27, 27,
     27, 27, 27, 27, 27, 27, 27, 27, 27, 27, 27, 27, 27, 27, 27, 27,
     27, 27, 27, 27, 27, 27, 27, 27, 27, 27, 27, 27, 27, 27, 27, 30,
     27, 27, 27, 27, 27, 27, 27, 27, 27, 27, 27, 27, 27, 27, 27, 27]"

definition aiClass :: "u8 \<Rightarrow> nat" where
  "aiClass c = aiClass_table ! unat c"

datatype tk = TK_EOF | TK_SEMI | TK_SPACE | TK_PTR | TK_MINUS | TK_LP | TK_RP | TK_PLUS | TK_STAR | TK_SLASH | TK_REM
  | TK_EQ | TK_LE | TK_NE | TK_LSHIFT | TK_LT | TK_GE | TK_RSHIFT | TK_GT | TK_ILLEGAL | TK_BITOR | TK_CONCAT
  | TK_COMMA | TK_BITAND | TK_BITNOT | TK_STRING | TK_ID | TK_DOT | TK_INTEGER | TK_FLOAT | TK_QNUMBER | TK_VARIABLE
  | TK_BLOB | TK_AS | TK_JOIN_KW | TK_WINDOW | TK_OVER | TK_FILTER | TK_keyword nat

section \<open>Scanning loops\<close>

function scan_while :: "(u8 \<Rightarrow> bool) \<Rightarrow> cstring \<Rightarrow> nat \<Rightarrow> nat" where
  "scan_while P z i = (if char_at z i \<noteq> 0 \<and> P (char_at z i) then scan_while P z (i + 1) else i)"
  by pat_completeness auto
termination
  by (relation "measure (\<lambda>(P, z, i). length z - i)") (auto simp: char_at_def split: if_splits)

text \<open>To the end of a C comment; the result is the last character read and the index.\<close>

function comment_loop :: "cstring \<Rightarrow> u8 \<Rightarrow> nat \<Rightarrow> u8 \<times> nat" where
  "comment_loop z c i =
     (if c \<noteq> 0x2a \<or> char_at z i \<noteq> 0x2f then
        (let c = char_at z i in if c \<noteq> 0 then comment_loop z c (i + 1) else (c, i))
      else (c, i))"
  by pat_completeness auto
termination
  by (relation "measure (\<lambda>(z, c, i). length z - i)") (auto simp: char_at_def split: if_splits)

function quote_loop :: "cstring \<Rightarrow> u8 \<Rightarrow> nat \<Rightarrow> u8 \<times> nat" where
  "quote_loop z delim i =
     (if char_at z i = 0 then (char_at z i, i)
      else if char_at z i = delim then
        (if char_at z (i + 1) = delim then quote_loop z delim (i + 2) else (char_at z i, i))
      else quote_loop z delim (i + 1))"
  by pat_completeness auto
termination
  by (relation "measure (\<lambda>(z, d, i). length z - i)") (auto simp: char_at_def split: if_splits)

definition SQLITE_DIGIT_SEPARATOR :: u8 where "SQLITE_DIGIT_SEPARATOR = 0x5f"

function digit_loop :: "(u8 \<Rightarrow> bool) \<Rightarrow> cstring \<Rightarrow> nat \<Rightarrow> tk \<Rightarrow> nat \<times> tk" where
  "digit_loop isdigit z i t =
     (if char_at z i = 0 then (i, t)
      else if \<not> isdigit (char_at z i) then
        (if char_at z i = SQLITE_DIGIT_SEPARATOR then digit_loop isdigit z (i + 1) TK_QNUMBER else (i, t))
      else digit_loop isdigit z (i + 1) t)"
  by pat_completeness auto
termination
  by (relation "measure (\<lambda>(P, z, i, t). length z - i)") (auto simp: char_at_def split: if_splits)

function bracket_loop :: "cstring \<Rightarrow> u8 \<Rightarrow> nat \<Rightarrow> u8 \<times> nat" where
  "bracket_loop z c i =
     (if c \<noteq> 0x5d then (let c = char_at z i in if c \<noteq> 0 then bracket_loop z c (i + 1) else (c, i))
      else (c, i))"
  by pat_completeness auto
termination
  by (relation "measure (\<lambda>(z, c, i). length z - i)") (auto simp: char_at_def split: if_splits)

text \<open>A variable; \<open>n\<close> counts the characters of its name.\<close>

function var_loop :: "cstring \<Rightarrow> nat \<Rightarrow> nat \<Rightarrow> nat \<times> nat \<times> tk" where
  "var_loop z n i =
     (let c = char_at z i
      in if c = 0 then (n, i, TK_VARIABLE)
         else if IdChar c then var_loop z (n + 1) (i + 1)
         else if c = 0x28 \<and> n > 0 then
           (let j = scan_while (\<lambda>c. \<not> sqlite3Isspace c \<and> c \<noteq> 0x29) z (i + 1)
            in if char_at z j = 0x29 then (n, j + 1, TK_VARIABLE) else (n, j, TK_ILLEGAL))
         else if c = 0x3a \<and> char_at z (i + 1) = 0x3a then var_loop z n (i + 2)
         else (n, i, TK_VARIABLE))"
  by pat_completeness auto
termination
  by (relation "measure (\<lambda>(z, n, i). length z - i)") (auto simp: char_at_def split: if_splits)

declare scan_while.simps [simp del] comment_loop.simps [simp del] quote_loop.simps [simp del] digit_loop.simps [simp del]
  bracket_loop.simps [simp del] var_loop.simps [simp del]

section \<open>The tokenizer\<close>

text \<open>A number, from its first digit or dot.\<close>

definition get_number :: "cstring \<Rightarrow> nat \<times> tk" where
  "get_number z =
     (let (i, t) =
        (if char_at z 0 = 0x30 \<and> (char_at z 1 = 0x78 \<or> char_at z 1 = 0x58) \<and> sqlite3Isxdigit (char_at z 2)
         then digit_loop sqlite3Isxdigit z 3 TK_INTEGER
         else
           let (i, t) = digit_loop sqlite3Isdigit z 0 TK_INTEGER;
               (i, t) = (if char_at z i = 0x2e
                         then digit_loop sqlite3Isdigit z (i + 1) (if t = TK_INTEGER then TK_FLOAT else t) else (i, t));
               e = (char_at z i = 0x65 \<or> char_at z i = 0x45) \<and>
                   (sqlite3Isdigit (char_at z (i + 1)) \<or>
                    ((char_at z (i + 1) = 0x2b \<or> char_at z (i + 1) = 0x2d) \<and> sqlite3Isdigit (char_at z (i + 2))))
           in if e then digit_loop sqlite3Isdigit z (i + 2) (if t = TK_INTEGER then TK_FLOAT else t) else (i, t));
          j = scan_while IdChar z i
      in (j, if j > i then TK_ILLEGAL else t))"

definition get_blob :: "cstring \<Rightarrow> nat \<times> tk" where
  "get_blob z =
     (let i = scan_while sqlite3Isxdigit z 2;
          bad = (char_at z i \<noteq> 0x27 \<or> i mod 2 \<noteq> 0);
          i = (if bad then scan_while (\<lambda>c. c \<noteq> 0x27) z i else i)
      in (if char_at z i \<noteq> 0 then i + 1 else i, if bad then TK_ILLEGAL else TK_BLOB))"

definition get_id :: "cstring \<Rightarrow> nat \<Rightarrow> nat \<times> tk" where
  "get_id z i = (scan_while IdChar z i, TK_ID)"

definition sqlite3GetToken :: "(cstring \<Rightarrow> tk option) \<Rightarrow> cstring \<Rightarrow> nat \<times> tk" where
  "sqlite3GetToken kw z =
     (let cc = aiClass (char_at z 0); c1 = char_at z 1
      in if cc = CC_SPACE then (scan_while sqlite3Isspace z 1, TK_SPACE)
         else if cc = CC_MINUS then
           (if c1 = 0x2d then (scan_while (\<lambda>c. c \<noteq> 0x0a) z 2, TK_SPACE)
            else if c1 = 0x3e then (if char_at z 2 = 0x3e then 3 else 2, TK_PTR)
            else (1, TK_MINUS))
         else if cc = CC_LP then (1, TK_LP)
         else if cc = CC_RP then (1, TK_RP)
         else if cc = CC_SEMI then (1, TK_SEMI)
         else if cc = CC_PLUS then (1, TK_PLUS)
         else if cc = CC_STAR then (1, TK_STAR)
         else if cc = CC_SLASH then
           (if c1 \<noteq> 0x2a \<or> char_at z 2 = 0 then (1, TK_SLASH)
            else let (c, i) = comment_loop z (char_at z 2) 3 in (if c \<noteq> 0 then i + 1 else i, TK_SPACE))
         else if cc = CC_PERCENT then (1, TK_REM)
         else if cc = CC_EQ then (if c1 = 0x3d then 2 else 1, TK_EQ)
         else if cc = CC_LT then
           (if c1 = 0x3d then (2, TK_LE) else if c1 = 0x3e then (2, TK_NE)
            else if c1 = 0x3c then (2, TK_LSHIFT) else (1, TK_LT))
         else if cc = CC_GT then
           (if c1 = 0x3d then (2, TK_GE) else if c1 = 0x3e then (2, TK_RSHIFT) else (1, TK_GT))
         else if cc = CC_BANG then (if c1 \<noteq> 0x3d then (1, TK_ILLEGAL) else (2, TK_NE))
         else if cc = CC_PIPE then (if c1 \<noteq> 0x7c then (1, TK_BITOR) else (2, TK_CONCAT))
         else if cc = CC_COMMA then (1, TK_COMMA)
         else if cc = CC_AND then (1, TK_BITAND)
         else if cc = CC_TILDA then (1, TK_BITNOT)
         else if cc = CC_QUOTE then
           (let (c, i) = quote_loop z (char_at z 0) 1
            in if c = 0x27 then (i + 1, TK_STRING) else if c \<noteq> 0 then (i + 1, TK_ID) else (i, TK_ILLEGAL))
         else if cc = CC_DOT \<and> \<not> sqlite3Isdigit c1 then (1, TK_DOT)
         else if cc = CC_DOT \<or> cc = CC_DIGIT then get_number z
         else if cc = CC_QUOTE2 then
           (let (c, i) = bracket_loop z (char_at z 0) 1 in (i, if c = 0x5d then TK_ID else TK_ILLEGAL))
         else if cc = CC_VARNUM then (scan_while sqlite3Isdigit z 1, TK_VARIABLE)
         else if cc = CC_DOLLAR \<or> cc = CC_VARALPHA then
           (let (n, i, t) = var_loop z 0 1 in (i, if n = 0 then TK_ILLEGAL else t))
         else if cc = CC_KYWD0 then
           (if aiClass c1 > CC_KYWD then get_id z 1
            else
              let i = scan_while (\<lambda>c. aiClass c \<le> CC_KYWD) z 2
              in if IdChar (char_at z i) then get_id z (i + 1)
                 else (i, case kw (take i z) of None \<Rightarrow> TK_ID | Some t \<Rightarrow> t))
         else if cc = CC_X \<and> c1 = 0x27 then get_blob z
         else if cc = CC_X \<or> cc = CC_KYWD \<or> cc = CC_ID then get_id z 1
         else if cc = CC_BOM then
           (if c1 = 0xbb \<and> char_at z 2 = 0xbf then (3, TK_SPACE) else get_id z 1)
         else if cc = CC_NUL then (0, TK_ILLEGAL)
         else (1, TK_ILLEGAL))"

section \<open>Lengths\<close>

text \<open>The length of the text before its terminating zero.\<close>

definition zlen :: "cstring \<Rightarrow> nat" where
  "zlen z = length (takeWhile (\<lambda>c. c \<noteq> 0) z)"

lemma zlen_le: "zlen z \<le> length z"
  by (simp add: zlen_def length_takeWhile_le)

lemma zlen_step: "i \<le> zlen z \<Longrightarrow> char_at z i \<noteq> 0 \<Longrightarrow> i + 1 \<le> zlen z"
proof -
  assume i: "i \<le> zlen z" "char_at z i \<noteq> 0"
  have "i \<noteq> zlen z"
  proof
    assume e: "i = zlen z"
    show False
    proof (cases "zlen z < length z")
      case True
      then have "z ! zlen z = 0" unfolding zlen_def using nth_length_takeWhile by fastforce
      then show False using i e True by (simp add: char_at_def)
    next
      case False
      then show False using i e by (simp add: char_at_def)
    qed
  qed
  then show ?thesis using i by simp
qed

lemma zlen_nonempty: "char_at z 0 \<noteq> 0 \<Longrightarrow> 1 \<le> zlen z"
  using zlen_step [of 0 z] by simp

lemma scan_while_bounds: "i \<le> zlen z \<Longrightarrow> i \<le> scan_while P z i \<and> scan_while P z i \<le> zlen z"
proof (induction P z i rule: scan_while.induct)
  case (1 P z i)
  then show ?case using zlen_step [of i z] by (subst scan_while.simps, subst (2) scan_while.simps) auto
qed

lemma comment_loop_bounds:
  "i \<le> zlen z \<Longrightarrow> comment_loop z c i = (d, j) \<Longrightarrow> i \<le> j \<and> j \<le> zlen z \<and> (d \<noteq> 0 \<longrightarrow> d = 0x2a \<and> char_at z j = 0x2f)"
proof (induction z c i rule: comment_loop.induct)
  case (1 z c i)
  show ?case
  proof (cases "c \<noteq> 0x2a \<or> char_at z i \<noteq> 0x2f")
    case True
    then show ?thesis using 1 zlen_step [of i z] by (subst (asm) comment_loop.simps) (fastforce simp: Let_def split: if_splits)
  next
    case False
    then show ?thesis using 1(2,3) by (subst (asm) comment_loop.simps) auto
  qed
qed

lemma quote_loop_bounds:
  "i \<le> zlen z \<Longrightarrow> delim \<noteq> 0 \<Longrightarrow> quote_loop z delim i = (c, j) \<Longrightarrow> i \<le> j \<and> j \<le> zlen z \<and> (c \<noteq> 0 \<longrightarrow> c = delim \<and> char_at z j = delim)"
proof (induction z delim i rule: quote_loop.induct)
  case (1 z delim i)
  have s2: "i + 2 \<le> zlen z" if "char_at z i \<noteq> 0" "char_at z (i + 1) \<noteq> 0"
    using that zlen_step [of i z] zlen_step [of "i + 1" z] "1.prems"(1) by simp
  note e = quote_loop.simps [of z delim i]
  consider "char_at z i = 0" | "char_at z i = delim" "char_at z (i + 1) = delim"
    | "char_at z i = delim" "char_at z (i + 1) \<noteq> delim" | "char_at z i \<noteq> 0" "char_at z i \<noteq> delim" by blast
  then show ?case
  proof cases
    case 2
    then have "quote_loop z delim (i + 2) = (c, j)" using e "1.prems" by simp
    then show ?thesis using "1.IH"(1) [OF _ _ _ s2] 2 "1.prems"(2) by simp
  next
    case 4
    then have "quote_loop z delim (i + 1) = (c, j)" using e "1.prems" by simp
    then show ?thesis using "1.IH"(2) [OF _ _ zlen_step] 4 "1.prems"(1,2) by fastforce
  qed (use e "1.prems" in auto)
qed

lemma digit_loop_bounds: "i \<le> zlen z \<Longrightarrow> digit_loop P z i t = (j, t') \<Longrightarrow> i \<le> j \<and> j \<le> zlen z"
proof (induction P z i t rule: digit_loop.induct)
  case (1 P z i t)
  then show ?case using zlen_step [of i z] by (subst (asm) (3) digit_loop.simps) (fastforce split: if_splits)
qed

lemma bracket_loop_bounds: "i \<le> zlen z \<Longrightarrow> bracket_loop z c i = (d, j) \<Longrightarrow> i \<le> j \<and> j \<le> zlen z"
proof (induction z c i rule: bracket_loop.induct)
  case (1 z c i)
  then show ?case using zlen_step [of i z] by (subst (asm) (2) bracket_loop.simps) (fastforce simp: Let_def split: if_splits)
qed

lemma var_loop_bounds: "i \<le> zlen z \<Longrightarrow> var_loop z n i = (m, j, t) \<Longrightarrow> i \<le> j \<and> j \<le> zlen z"
proof (induction z n i rule: var_loop.induct)
  case (1 z n i)
  let ?j = "scan_while (\<lambda>c. \<not> sqlite3Isspace c \<and> c \<noteq> 0x29) z (i + 1)"
  have s1: "i + 1 \<le> zlen z" if "char_at z i \<noteq> 0" using zlen_step [OF "1.prems"(1) that] .
  have s2: "i + 2 \<le> zlen z" if "char_at z i \<noteq> 0" "char_at z (i + 1) \<noteq> 0"
    using that s1 zlen_step [of "i + 1" z] by simp
  have j: "i + 1 \<le> ?j \<and> ?j \<le> zlen z" if "char_at z i \<noteq> 0" using scan_while_bounds [OF s1 [OF that]] .
  have j1: "?j + 1 \<le> zlen z" if "char_at z i \<noteq> 0" "char_at z ?j = 0x29" using zlen_step [of ?j z] j that by simp
  note e = var_loop.simps [of z n i]
  consider "char_at z i \<noteq> 0" "IdChar (char_at z i)"
    | "char_at z i \<noteq> 0" "\<not> IdChar (char_at z i)" "\<not> (char_at z i = 0x28 \<and> n > 0)" "char_at z i = 0x3a \<and> char_at z (i + 1) = 0x3a"
    | "char_at z i \<noteq> 0" "\<not> IdChar (char_at z i)" "char_at z i = 0x28 \<and> n > 0"
    | "char_at z i = 0 \<or> \<not> IdChar (char_at z i) \<and> \<not> (char_at z i = 0x28 \<and> n > 0) \<and> \<not> (char_at z i = 0x3a \<and> char_at z (i + 1) = 0x3a)" by blast
  then show ?case
  proof cases
    case 1
    then have "var_loop z (n + 1) (i + 1) = (m, j, t)" using e "1.prems"(2) by simp
    then show ?thesis using "1.IH"(1) [OF refl 1 s1] 1(1) by simp
  next
    case 2
    then have "var_loop z n (i + 2) = (m, j, t)" using e "1.prems"(2) by simp
    then show ?thesis using "1.IH"(2) [OF refl 2 s2] 2 by simp
  next
    case 3
    then show ?thesis using e "1.prems"(2) j j1 by (auto simp: Let_def split: if_splits)
  next
    case 4
    then have "j = i" using e "1.prems"(2) by (auto simp: Let_def split: if_splits)
    then show ?thesis using "1.prems"(1) by simp
  qed
qed

section \<open>What the loops pass over\<close>

text \<open>The bytes of \<open>z\<close> from index \<open>i\<close> up to index \<open>j\<close>.\<close>

definition seg :: "cstring \<Rightarrow> nat \<Rightarrow> nat \<Rightarrow> cstring" where
  "seg z i j = take (j - i) (drop i z)"

lemma seg_empty [simp]: "seg z i i = []"
  by (simp add: seg_def)

lemma seg_length: "i \<le> j \<Longrightarrow> j \<le> length z \<Longrightarrow> length (seg z i j) = j - i"
  by (simp add: seg_def)

lemma seg_Cons: "i < j \<Longrightarrow> i < length z \<Longrightarrow> seg z i j = z ! i # seg z (i + 1) j"
proof -
  assume ij: "i < j" "i < length z"
  then have "drop i z = z ! i # drop (Suc i) z" by (simp add: Cons_nth_drop_Suc)
  moreover obtain d where "j = Suc (i + d)" using less_imp_Suc_add [OF ij(1)] by blast
  ultimately show ?thesis by (simp add: seg_def)
qed

lemma seg_append: "i \<le> j \<Longrightarrow> j \<le> k \<Longrightarrow> seg z i k = seg z i j @ seg z j k"
proof -
  assume ij: "i \<le> j" "j \<le> k"
  obtain a where a: "j = i + a" using le_Suc_ex [OF ij(1)] by blast
  obtain b where b: "k = i + a + b" using le_Suc_ex [OF ij(2)] a by blast
  show ?thesis by (simp add: seg_def a b take_add add.commute)
qed

lemma seg_take: "seg z 0 n = take n z"
  by (simp add: seg_def)

lemma char_at_nz: "char_at z i \<noteq> 0 \<Longrightarrow> i < length z \<and> char_at z i = z ! i"
  by (auto simp: char_at_def split: if_splits)

lemma char_step: "char_at z i \<noteq> 0 \<Longrightarrow> i + 1 \<le> j \<Longrightarrow> seg z i j = char_at z i # seg z (i + 1) j"
  using char_at_nz [of z i] seg_Cons [of i j z] by simp

lemma lead1: "char_at z 0 \<noteq> 0 \<Longrightarrow> 1 \<le> n \<Longrightarrow> take n z = char_at z 0 # seg z 1 n"
  using char_step [of z 0 n] by (simp add: seg_take)

lemma lead2: "char_at z 0 \<noteq> 0 \<Longrightarrow> char_at z 1 \<noteq> 0 \<Longrightarrow> 2 \<le> n \<Longrightarrow> take n z = char_at z 0 # char_at z 1 # seg z 2 n"
  using lead1 [of z n] char_step [of z 1 n, unfolded one_add_one] by simp

lemma lead3:
  "char_at z 0 \<noteq> 0 \<Longrightarrow> char_at z 1 \<noteq> 0 \<Longrightarrow> char_at z 2 \<noteq> 0 \<Longrightarrow> 3 \<le> n \<Longrightarrow>
     take n z = char_at z 0 # char_at z 1 # char_at z 2 # seg z 3 n"
  using lead2 [of z n] char_step [of z 2 n] by simp

lemma zlen_lead:
  "char_at z 0 \<noteq> 0 \<Longrightarrow> 1 \<le> zlen z"
  "char_at z 0 \<noteq> 0 \<Longrightarrow> char_at z 1 \<noteq> 0 \<Longrightarrow> 2 \<le> zlen z"
  "char_at z 0 \<noteq> 0 \<Longrightarrow> char_at z 1 \<noteq> 0 \<Longrightarrow> char_at z 2 \<noteq> 0 \<Longrightarrow> 3 \<le> zlen z"
  using zlen_step [of 0 z] zlen_step [of 1 z] zlen_step [of 2 z] by simp_all

lemma scan_while_seg: "i \<le> zlen z \<Longrightarrow> \<forall>c\<in>set (seg z i (scan_while P z i)). P c"
proof (induction P z i rule: scan_while.induct)
  case (1 P z i)
  show ?case
  proof (cases "char_at z i \<noteq> 0 \<and> P (char_at z i)")
    case True
    have z1: "i + 1 \<le> zlen z" using zlen_step [of i z] True "1.prems" by simp
    have e: "scan_while P z i = scan_while P z (i + 1)" using True by (subst scan_while.simps) simp
    then show ?thesis using 1 True z1 char_step [of z i "scan_while P z (i + 1)"] scan_while_bounds [OF z1, of P] by simp
  next
    case False
    then have "scan_while P z i = i" by (subst scan_while.simps) (rule if_not_P)
    then show ?thesis by simp
  qed
qed

lemma scan_while_stop: "char_at z (scan_while P z i) = 0 \<or> \<not> P (char_at z (scan_while P z i))"
proof (induction P z i rule: scan_while.induct)
  case (1 P z i)
  then show ?case by (subst (1 2) scan_while.simps) auto
qed

lemma digit_loop_seg:
  assumes "i \<le> zlen z" "digit_loop P z i t = (j, t')"
  shows "(\<forall>c\<in>set (seg z i j). P c \<or> c = SQLITE_DIGIT_SEPARATOR) \<and>
    (t' = t \<and> (\<forall>c\<in>set (seg z i j). P c) \<or> t' = TK_QNUMBER \<and> SQLITE_DIGIT_SEPARATOR \<in> set (seg z i j))"
  using assms
proof (induction P z i t rule: digit_loop.induct)
  case (1 P z i t)
  note e = digit_loop.simps [of P z i t]
  consider "char_at z i = 0 \<or> \<not> P (char_at z i) \<and> char_at z i \<noteq> SQLITE_DIGIT_SEPARATOR"
    | "char_at z i \<noteq> 0" "\<not> P (char_at z i)" "char_at z i = SQLITE_DIGIT_SEPARATOR" | "char_at z i \<noteq> 0" "P (char_at z i)" by blast
  then show ?case
  proof cases
    case 1
    then have "j = i" "t' = t" using e "1.prems"(2) by (auto split: if_splits)
    then show ?thesis by simp
  next
    case 2
    have z1: "i + 1 \<le> zlen z" using zlen_step 2 "1.prems" by simp
    have l: "digit_loop P z (i + 1) TK_QNUMBER = (j, t')" using e "1.prems"(2) 2 by simp
    note IH = "1.IH"(1) [OF 2 z1 l]
    show ?thesis using IH 2 char_step [of z i j] digit_loop_bounds [OF z1 l] by auto
  next
    case 3
    have z1: "i + 1 \<le> zlen z" using zlen_step 3 "1.prems" by simp
    have l: "digit_loop P z (i + 1) t = (j, t')" using e "1.prems"(2) 3 by simp
    have "\<not> \<not> P (char_at z i)" using 3 by simp
    note IH = "1.IH"(2) [OF 3(1) this z1 l]
    show ?thesis using IH 3 char_step [of z i j] digit_loop_bounds [OF z1 l] by auto
  qed
qed

text \<open>No end of a comment is passed over.\<close>

lemma comment_loop_seg:
  assumes "i \<le> zlen z" "comment_loop z (char_at z (i - 1)) i = (d, j)" "1 \<le> i"
  shows "\<forall>k. i \<le> k \<and> k < j \<longrightarrow> \<not> (char_at z (k - 1) = 0x2a \<and> char_at z k = 0x2f)"
  using assms
proof (induction z "char_at z (i - 1)" i rule: comment_loop.induct)
  case (1 z i)
  note e = comment_loop.simps [of z "char_at z (i - 1)" i]
  show ?case
  proof (cases "(char_at z (i - 1) \<noteq> 0x2a \<or> char_at z i \<noteq> 0x2f) \<and> char_at z i \<noteq> 0")
    case True
    have z1: "i + 1 \<le> zlen z" using zlen_step True "1.prems" by simp
    have l: "comment_loop z (char_at z (i + 1 - 1)) (i + 1) = (d, j)" using e "1.prems"(2) True by (simp add: Let_def)
    have IH: "\<forall>k. i + 1 \<le> k \<and> k < j \<longrightarrow> \<not> (char_at z (k - 1) = 0x2a \<and> char_at z k = 0x2f)"
      by (rule "1.hyps" [OF _ _ _ z1 l]) (use True in auto)
    show ?thesis
    proof (intro allI impI)
      fix k assume "i \<le> k \<and> k < j"
      then show "\<not> (char_at z (k - 1) = 0x2a \<and> char_at z k = 0x2f)" using IH True by (cases "k = i") auto
    qed
  next
    case False
    then have "j = i" using e "1.prems"(2) by (auto simp: Let_def split: if_splits)
    then show ?thesis by auto
  qed
qed

lemma quote_loop_seg:
  assumes "i \<le> zlen z" "delim \<noteq> 0" "quote_loop z delim i = (c, j)" "c \<noteq> 0"
  shows "\<exists>s. seg z i j = concat (map (\<lambda>c. if c = delim then [delim, delim] else [c]) s)"
  using assms
proof (induction z delim i rule: quote_loop.induct)
  case (1 z delim i)
  note e = quote_loop.simps [of z delim i]
  consider "char_at z i = 0" | "char_at z i = delim" "char_at z (i + 1) = delim"
    | "char_at z i = delim" "char_at z (i + 1) \<noteq> delim" | "char_at z i \<noteq> 0" "char_at z i \<noteq> delim" by blast
  then show ?case
  proof cases
    case 1
    then show ?thesis using e "1.prems"(3,4) by simp
  next
    case 2
    have nz: "char_at z i \<noteq> 0" "char_at z (i + 1) \<noteq> 0" using 2 "1.prems"(2) by auto
    have z2: "i + 2 \<le> zlen z" using nz zlen_step [of i z] zlen_step [of "i + 1" z] "1.prems"(1) by simp
    have l: "quote_loop z delim (i + 2) = (c, j)" using e "1.prems"(2,3) 2 by simp
    obtain s where s: "seg z (i + 2) j = concat (map (\<lambda>c. if c = delim then [delim, delim] else [c]) s)"
      using "1.IH"(1) [OF nz(1) 2 z2 "1.prems"(2) l "1.prems"(4)] by blast
    have "i + 2 \<le> j" using quote_loop_bounds [OF z2 "1.prems"(2) l] by simp
    then have "seg z i j = delim # delim # seg z (i + 2) j"
      using char_step [OF nz(1), of j] char_step [OF nz(2), of j] 2 by simp
    then show ?thesis using s by (intro exI [of _ "delim # s"]) simp
  next
    case 3
    then have "j = i" using e "1.prems"(2,3) by simp
    then show ?thesis by (intro exI [of _ "[]"]) simp
  next
    case 4
    have z1: "i + 1 \<le> zlen z" using 4 zlen_step "1.prems"(1) by simp
    have l: "quote_loop z delim (i + 1) = (c, j)" using e "1.prems"(3) 4 by simp
    obtain s where s: "seg z (i + 1) j = concat (map (\<lambda>c. if c = delim then [delim, delim] else [c]) s)"
      using "1.IH"(2) [OF 4 z1 "1.prems"(2) l "1.prems"(4)] by blast
    have "i + 1 \<le> j" using quote_loop_bounds [OF z1 "1.prems"(2) l] by simp
    then have "seg z i j = char_at z i # seg z (i + 1) j" by (rule char_step [OF 4(1)])
    then show ?thesis using s 4 by (intro exI [of _ "char_at z i # s"]) simp
  qed
qed

lemma bracket_loop_seg:
  assumes "i \<le> zlen z" "bracket_loop z c i = (0x5d, j)" "c \<noteq> 0x5d"
  shows "\<exists>k. j = k + 1 \<and> i \<le> k \<and> char_at z k = 0x5d \<and> 0x5d \<notin> set (seg z i k)"
  using assms
proof (induction z c i rule: bracket_loop.induct)
  case (1 z c i)
  note e = bracket_loop.simps [of z c i]
  have nz: "char_at z i \<noteq> 0" using e "1.prems"(2,3) by (auto simp: Let_def split: if_splits)
  have z1: "i + 1 \<le> zlen z" using nz zlen_step "1.prems"(1) by simp
  have l: "bracket_loop z (char_at z i) (i + 1) = (0x5d, j)" using e "1.prems"(2,3) nz by (simp add: Let_def)
  show ?case
  proof (cases "char_at z i = 0x5d")
    case True
    then have "j = i + 1" using l by (subst (asm) bracket_loop.simps) simp
    then show ?thesis using True by auto
  next
    case False
    obtain k where k: "j = k + 1" "i + 1 \<le> k" "char_at z k = 0x5d" "0x5d \<notin> set (seg z (i + 1) k)"
      using "1.IH" [OF "1.prems"(3) refl nz z1 l False] by blast
    then have "seg z i k = char_at z i # seg z (i + 1) k" by (intro char_step [OF nz])
    then show ?thesis using k False by (intro exI [of _ k]) auto
  qed
qed

lemma IdChar_not_space: "IdChar c \<Longrightarrow> \<not> sqlite3Isspace c"
  using unat_u8_less [of c] by (auto simp: IdChar_def sqlite3Isspace_iff CtypeMap_nth ctype_of_def split: if_splits)

lemma var_loop_seg:
  assumes "i \<le> zlen z" "var_loop z n i = (m, j, t)"
  shows "n \<le> m \<and> (n < m \<longrightarrow> (\<exists>c\<in>set (seg z i j). IdChar c)) \<and> (t = TK_VARIABLE \<longrightarrow> (\<forall>c\<in>set (seg z i j). \<not> sqlite3Isspace c)) \<and>
    (t = TK_VARIABLE \<or> t = TK_ILLEGAL)"
  using assms
proof (induction z n i rule: var_loop.induct)
  case (1 z n i)
  let ?j = "scan_while (\<lambda>c. \<not> sqlite3Isspace c \<and> c \<noteq> 0x29) z (i + 1)"
  have s1: "i + 1 \<le> zlen z" if "char_at z i \<noteq> 0" using zlen_step [OF "1.prems"(1) that] .
  have s2: "i + 2 \<le> zlen z" if "char_at z i \<noteq> 0" "char_at z (i + 1) \<noteq> 0"
    using that s1 zlen_step [of "i + 1" z] by simp
  note e = var_loop.simps [of z n i]
  have sp: "\<not> sqlite3Isspace 0x28" "\<not> sqlite3Isspace 0x29" "\<not> sqlite3Isspace 0x3a" by (simp_all add: sqlite3Isspace_iff)
  consider "char_at z i \<noteq> 0" "IdChar (char_at z i)"
    | "char_at z i \<noteq> 0" "\<not> IdChar (char_at z i)" "\<not> (char_at z i = 0x28 \<and> n > 0)" "char_at z i = 0x3a \<and> char_at z (i + 1) = 0x3a"
    | "char_at z i \<noteq> 0" "\<not> IdChar (char_at z i)" "char_at z i = 0x28 \<and> n > 0"
    | "char_at z i = 0 \<or> \<not> IdChar (char_at z i) \<and> \<not> (char_at z i = 0x28 \<and> n > 0) \<and> \<not> (char_at z i = 0x3a \<and> char_at z (i + 1) = 0x3a)" by blast
  then show ?case
  proof cases
    case 1
    have l: "var_loop z (n + 1) (i + 1) = (m, j, t)" using e "1.prems"(2) 1 by simp
    have "i + 1 \<le> j" using var_loop_bounds [OF s1 [OF 1(1)] l] by simp
    then have "seg z i j = char_at z i # seg z (i + 1) j" by (rule char_step [OF 1(1)])
    then show ?thesis using "1.IH"(1) [OF refl 1 s1 [OF 1(1)] l] 1 IdChar_not_space by auto
  next
    case 2
    have nz: "char_at z (i + 1) \<noteq> 0" using 2 by simp
    have z2: "i + 2 \<le> zlen z" by (rule s2 [OF 2(1) nz])
    have l: "var_loop z n (i + 2) = (m, j, t)" using e "1.prems"(2) 2 by simp
    have "i + 2 \<le> j" using var_loop_bounds [OF z2 l] by simp
    then have "seg z i j = 0x3a # 0x3a # seg z (i + 2) j"
      using char_step [OF 2(1), of j] char_step [OF nz, of j] 2(4) by simp
    then show ?thesis using "1.IH"(2) [OF refl 2 z2 l] sp by auto
  next
    case 3
    have b: "i + 1 \<le> ?j" using scan_while_bounds [OF s1 [OF 3(1)]] by simp
    have m: "m = n" using e "1.prems"(2) 3 by (auto simp: Let_def split: if_splits)
    show ?thesis
    proof (cases "char_at z ?j = 0x29")
      case True
      then have jt: "j = ?j + 1" "t = TK_VARIABLE" using e "1.prems"(2) 3 by (auto simp: Let_def)
      have "seg z i j = seg z i ?j @ seg z ?j j" using b jt by (intro seg_append) auto
      moreover have "seg z i ?j = 0x28 # seg z (i + 1) ?j" using char_step [OF 3(1) b] 3 by simp
      moreover have "seg z ?j j = [0x29]" using char_step [of z ?j j] True jt by simp
      ultimately have sg: "seg z i j = 0x28 # seg z (i + 1) ?j @ [0x29]" by simp
      have "\<forall>c\<in>set (seg z (i + 1) ?j). \<not> sqlite3Isspace c"
        using scan_while_seg [OF s1 [OF 3(1)], of "\<lambda>c. \<not> sqlite3Isspace c \<and> c \<noteq> 0x29"] by blast
      then show ?thesis using m jt(2) sp sg by simp
    next
      case False
      then have "t = TK_ILLEGAL" using e "1.prems"(2) 3 by (auto simp: Let_def)
      then show ?thesis using m by simp
    qed
  next
    case 4
    then have "j = i" "m = n" "t = TK_VARIABLE" using e "1.prems"(2) by (auto simp: Let_def split: if_splits)
    then show ?thesis by simp
  qed
qed

section \<open>The language of each token\<close>

definition blank :: "cstring \<Rightarrow> bool" where
  "blank x \<longleftrightarrow> x \<noteq> [] \<and> (\<forall>c\<in>set x. sqlite3Isspace c)"

definition line_comment :: "cstring \<Rightarrow> bool" where
  "line_comment x \<longleftrightarrow> (\<exists>y. x = [0x2d, 0x2d] @ y \<and> 0x0a \<notin> set y)"

text \<open>A C comment ends at the first \<open>*/\<close>, or with the text.\<close>

definition block_comment :: "cstring \<Rightarrow> bool" where
  "block_comment x \<longleftrightarrow> (\<exists>y. x = [0x2f, 0x2a] @ y \<and> (\<forall>u v. y = u @ [0x2a, 0x2f] @ v \<longrightarrow> v = []))"

definition word_lex :: "cstring \<Rightarrow> bool" where
  "word_lex x \<longleftrightarrow> x \<noteq> [] \<and> (\<forall>c\<in>set x. IdChar c) \<and> \<not> sqlite3Isdigit (hd x) \<and> hd x \<noteq> 0x24"

definition int_lex :: "cstring \<Rightarrow> bool" where
  "int_lex x \<longleftrightarrow> x \<noteq> [] \<and> (\<forall>c\<in>set x. sqlite3Isdigit c) \<or>
     (\<exists>p h. x = [0x30, p] @ h \<and> (p = 0x78 \<or> p = 0x58) \<and> h \<noteq> [] \<and> (\<forall>c\<in>set h. sqlite3Isxdigit c))"

definition exponent_lex :: "cstring \<Rightarrow> bool" where
  "exponent_lex x \<longleftrightarrow> (\<exists>e sg g. x = [e] @ sg @ g \<and> (e = 0x65 \<or> e = 0x45) \<and> sg \<in> {[], [0x2b], [0x2d]} \<and> g \<noteq> [] \<and> (\<forall>c\<in>set g. sqlite3Isdigit c))"

definition float_lex :: "cstring \<Rightarrow> bool" where
  "float_lex x \<longleftrightarrow> (\<exists>a f e. x = a @ f @ e \<and> (\<forall>c\<in>set a. sqlite3Isdigit c) \<and>
     (f = [] \<or> hd f = 0x2e \<and> (\<forall>c\<in>set (tl f). sqlite3Isdigit c)) \<and> (e = [] \<or> exponent_lex e) \<and>
     (f \<noteq> [] \<or> e \<noteq> []) \<and> (a \<noteq> [] \<or> length f > 1))"

definition separated_lex :: "cstring \<Rightarrow> bool" where
  "separated_lex x \<longleftrightarrow> SQLITE_DIGIT_SEPARATOR \<in> set x \<and>
     (let y = filter (\<lambda>c. c \<noteq> SQLITE_DIGIT_SEPARATOR) x in int_lex y \<or> float_lex y)"

definition blob_lex :: "cstring \<Rightarrow> bool" where
  "blob_lex x \<longleftrightarrow> (\<exists>p h. x = [p, 0x27] @ h @ [0x27] \<and> (p = 0x78 \<or> p = 0x58) \<and> (\<forall>c\<in>set h. sqlite3Isxdigit c) \<and> even (length h))"

definition variable_lex :: "cstring \<Rightarrow> bool" where
  "variable_lex x \<longleftrightarrow> x \<noteq> [] \<and> (hd x = 0x3f \<and> (\<forall>c\<in>set (tl x). sqlite3Isdigit c) \<or>
     hd x \<in> {0x24, 0x40, 0x23, 0x3a} \<and> (\<exists>c\<in>set (tl x). IdChar c) \<and> (\<forall>c\<in>set x. \<not> sqlite3Isspace c))"

fun lexeme :: "tk \<Rightarrow> cstring \<Rightarrow> bool" where
  "lexeme TK_SPACE x \<longleftrightarrow> blank x \<or> line_comment x \<or> block_comment x \<or> x = [0xef, 0xbb, 0xbf]"
| "lexeme TK_PTR x \<longleftrightarrow> x = [0x2d, 0x3e] \<or> x = [0x2d, 0x3e, 0x3e]"
| "lexeme TK_MINUS x \<longleftrightarrow> x = [0x2d]"
| "lexeme TK_LP x \<longleftrightarrow> x = [0x28]"
| "lexeme TK_RP x \<longleftrightarrow> x = [0x29]"
| "lexeme TK_SEMI x \<longleftrightarrow> x = [0x3b]"
| "lexeme TK_PLUS x \<longleftrightarrow> x = [0x2b]"
| "lexeme TK_STAR x \<longleftrightarrow> x = [0x2a]"
| "lexeme TK_SLASH x \<longleftrightarrow> x = [0x2f]"
| "lexeme TK_REM x \<longleftrightarrow> x = [0x25]"
| "lexeme TK_EQ x \<longleftrightarrow> x = [0x3d] \<or> x = [0x3d, 0x3d]"
| "lexeme TK_LE x \<longleftrightarrow> x = [0x3c, 0x3d]"
| "lexeme TK_NE x \<longleftrightarrow> x = [0x3c, 0x3e] \<or> x = [0x21, 0x3d]"
| "lexeme TK_LSHIFT x \<longleftrightarrow> x = [0x3c, 0x3c]"
| "lexeme TK_LT x \<longleftrightarrow> x = [0x3c]"
| "lexeme TK_GE x \<longleftrightarrow> x = [0x3e, 0x3d]"
| "lexeme TK_RSHIFT x \<longleftrightarrow> x = [0x3e, 0x3e]"
| "lexeme TK_GT x \<longleftrightarrow> x = [0x3e]"
| "lexeme TK_BITOR x \<longleftrightarrow> x = [0x7c]"
| "lexeme TK_CONCAT x \<longleftrightarrow> x = [0x7c, 0x7c]"
| "lexeme TK_COMMA x \<longleftrightarrow> x = [0x2c]"
| "lexeme TK_BITAND x \<longleftrightarrow> x = [0x26]"
| "lexeme TK_BITNOT x \<longleftrightarrow> x = [0x7e]"
| "lexeme TK_DOT x \<longleftrightarrow> x = [0x2e]"
| "lexeme TK_STRING x \<longleftrightarrow> (\<exists>s. x = quoted 0x27 s)"
| "lexeme TK_ID x \<longleftrightarrow> word_lex x \<or> (\<exists>s. x = quoted 0x22 s \<or> x = quoted 0x60 s \<or> x = quoted 0x5b s)"
| "lexeme TK_INTEGER x \<longleftrightarrow> int_lex x"
| "lexeme TK_FLOAT x \<longleftrightarrow> float_lex x"
| "lexeme TK_QNUMBER x \<longleftrightarrow> separated_lex x"
| "lexeme TK_BLOB x \<longleftrightarrow> blob_lex x"
| "lexeme TK_VARIABLE x \<longleftrightarrow> variable_lex x"
| "lexeme TK_ILLEGAL x \<longleftrightarrow> True"
| "lexeme t x \<longleftrightarrow> False"

text \<open>A token found at the start of \<open>z\<close>.\<close>

definition tok_ok :: "(cstring \<Rightarrow> tk option) \<Rightarrow> cstring \<Rightarrow> nat \<times> tk \<Rightarrow> bool" where
  "tok_ok kw z r \<longleftrightarrow> 1 \<le> fst r \<and> fst r \<le> zlen z \<and>
     (lexeme (snd r) (take (fst r) z) \<or> word_lex (take (fst r) z) \<and> kw (take (fst r) z) = Some (snd r))"

lemma tok_okI: "1 \<le> n \<Longrightarrow> n \<le> zlen z \<Longrightarrow> lexeme t (take n z) \<Longrightarrow> tok_ok kw z (n, t)"
  by (simp add: tok_ok_def)

text \<open>The table as a search tree on the character, which the proofs below split.\<close>

definition class_of :: "nat \<Rightarrow> nat" where
  "class_of n = (if n < 59 then (if n < 38 then (if n < 32 then (if n < 11 then (if n < 1 then 29 else (if n < 9 then 28 else 7))
          else (if n < 12 then 28 else (if n < 14 then 7 else 28)))
        else (if n < 35 then (if n < 33 then 7 else (if n < 34 then 15 else 8))
          else (if n < 36 then 5 else (if n < 37 then 4 else 22))))
      else (if n < 44 then (if n < 41 then (if n < 39 then 24 else (if n < 40 then 8 else 17))
          else (if n < 42 then 18 else (if n < 43 then 21 else 20)))
        else (if n < 47 then (if n < 45 then 23 else (if n < 46 then 11 else 26))
          else (if n < 48 then 16 else (if n < 58 then 3 else 5)))))
    else (if n < 96 then (if n < 65 then (if n < 62 then (if n < 60 then 19 else (if n < 61 then 12 else 14))
          else (if n < 63 then 13 else (if n < 64 then 6 else 5)))
        else (if n < 91 then (if n < 88 then 1 else (if n < 89 then 0 else 2))
          else (if n < 92 then 9 else (if n < 95 then 28 else 2))))
      else (if n < 125 then (if n < 121 then (if n < 97 then 8 else (if n < 120 then 1 else 0))
          else (if n < 123 then 2 else (if n < 124 then 28 else 10)))
        else (if n < 128 then (if n < 126 then 28 else (if n < 127 then 25 else 28))
          else (if n < 239 then 27 else (if n < 240 then 30 else 27))))))"

lemma class_of_upper: "map class_of [128..<256] = drop 128 aiClass_table"
  by (simp add: aiClass_table_def class_of_def upt_conv_Cons)

lemma class_of_lower: "map class_of [0..<64] = take 64 aiClass_table"
  by (simp add: aiClass_table_def class_of_def upt_conv_Cons)

lemma class_of_middle: "map class_of [64..<128] = take 64 (drop 64 aiClass_table)"
  by (simp add: aiClass_table_def class_of_def upt_conv_Cons)

lemma take_drop_three: "take a xs @ take b (drop a xs) @ drop (a + b) xs = xs"
  by (metis append_take_drop_id drop_drop add.commute)

lemma upt_three: "[0..<a] @ [a..<a + b] @ [a + b..<a + b + c] = [0..<a + b + c]"
  by (metis append.assoc upt_add_eq_append zero_le)

lemma aiClass_table_map: "aiClass_table = map class_of [0..<256]"
proof -
  have n: "64 + 64 = (128 :: nat)" "128 + 128 = (256 :: nat)" by simp_all
  note c = arg_cong [of _ _ "map class_of", OF upt_three [of 64 64 128, unfolded n]]
  show ?thesis
    using c [unfolded map_append class_of_lower class_of_middle class_of_upper] take_drop_three [of 64 aiClass_table 64, unfolded n]
    by metis
qed

lemma aiClass_eq: "aiClass c = class_of (unat c)"
  using unat_u8_less [of c] by (simp add: aiClass_def aiClass_table_map)

lemma class_of_char1:
  "class_of n = 7 \<Longrightarrow> n = 32 \<or> 9 \<le> n \<and> n \<le> 13"
  "class_of n = 11 \<Longrightarrow> n = 45"
  "class_of n = 17 \<Longrightarrow> n = 40"
  "class_of n = 18 \<Longrightarrow> n = 41"
  "class_of n = 19 \<Longrightarrow> n = 59"
  by (simp_all add: class_of_def split: if_splits)

lemma class_of_char2:
  "class_of n = 20 \<Longrightarrow> n = 43"
  "class_of n = 21 \<Longrightarrow> n = 42"
  "class_of n = 16 \<Longrightarrow> n = 47"
  "class_of n = 22 \<Longrightarrow> n = 37"
  "class_of n = 14 \<Longrightarrow> n = 61"
  by (simp_all add: class_of_def split: if_splits)

lemma class_of_char3:
  "class_of n = 12 \<Longrightarrow> n = 60"
  "class_of n = 13 \<Longrightarrow> n = 62"
  "class_of n = 15 \<Longrightarrow> n = 33"
  "class_of n = 10 \<Longrightarrow> n = 124"
  "class_of n = 23 \<Longrightarrow> n = 44"
  by (simp_all add: class_of_def split: if_splits)

lemma class_of_char4:
  "class_of n = 24 \<Longrightarrow> n = 38"
  "class_of n = 25 \<Longrightarrow> n = 126"
  "class_of n = 8 \<Longrightarrow> n = 34 \<or> n = 39 \<or> n = 96"
  "class_of n = 26 \<Longrightarrow> n = 46"
  "class_of n = 3 \<Longrightarrow> 48 \<le> n \<and> n \<le> 57"
  by (simp_all add: class_of_def split: if_splits)

lemma class_of_char5:
  "class_of n = 9 \<Longrightarrow> n = 91"
  "class_of n = 6 \<Longrightarrow> n = 63"
  "class_of n = 4 \<Longrightarrow> n = 36"
  "class_of n = 5 \<Longrightarrow> n = 64 \<or> n = 35 \<or> n = 58"
  "class_of n = 30 \<Longrightarrow> n = 239"
  "class_of n = 29 \<Longrightarrow> n = 0"
  by (simp_all add: class_of_def split: if_splits)

lemmas class_of_char = class_of_char1 class_of_char2 class_of_char3 class_of_char4 class_of_char5

lemma aiClass_char:
  "aiClass c = CC_SPACE \<Longrightarrow> sqlite3Isspace c"
  "aiClass c = CC_MINUS \<Longrightarrow> c = 0x2d"
  "aiClass c = CC_LP \<Longrightarrow> c = 0x28"
  "aiClass c = CC_RP \<Longrightarrow> c = 0x29"
  "aiClass c = CC_SEMI \<Longrightarrow> c = 0x3b"
  "aiClass c = CC_PLUS \<Longrightarrow> c = 0x2b"
  "aiClass c = CC_STAR \<Longrightarrow> c = 0x2a"
  "aiClass c = CC_SLASH \<Longrightarrow> c = 0x2f"
  "aiClass c = CC_PERCENT \<Longrightarrow> c = 0x25"
  "aiClass c = CC_EQ \<Longrightarrow> c = 0x3d"
  "aiClass c = CC_LT \<Longrightarrow> c = 0x3c"
  "aiClass c = CC_GT \<Longrightarrow> c = 0x3e"
  "aiClass c = CC_BANG \<Longrightarrow> c = 0x21"
  "aiClass c = CC_PIPE \<Longrightarrow> c = 0x7c"
  "aiClass c = CC_COMMA \<Longrightarrow> c = 0x2c"
  "aiClass c = CC_AND \<Longrightarrow> c = 0x26"
  "aiClass c = CC_TILDA \<Longrightarrow> c = 0x7e"
  "aiClass c = CC_QUOTE \<Longrightarrow> c = 0x22 \<or> c = 0x27 \<or> c = 0x60"
  "aiClass c = CC_DOT \<Longrightarrow> c = 0x2e"
  "aiClass c = CC_DIGIT \<Longrightarrow> sqlite3Isdigit c"
  "aiClass c = CC_QUOTE2 \<Longrightarrow> c = 0x5b"
  "aiClass c = CC_VARNUM \<Longrightarrow> c = 0x3f"
  "aiClass c = CC_DOLLAR \<Longrightarrow> c = 0x24"
  "aiClass c = CC_VARALPHA \<Longrightarrow> c = 0x40 \<or> c = 0x23 \<or> c = 0x3a"
  "aiClass c = CC_BOM \<Longrightarrow> c = 0xef"
  "aiClass c = CC_NUL \<Longrightarrow> c = 0"
  unfolding aiClass_eq CC_defs
  by (drule class_of_char, simp add: word_unat_eq_iff sqlite3Isspace_iff sqlite3Isdigit_iff)+

lemma class_of_x: "class_of n = 0 \<Longrightarrow> n = 88 \<or> n = 120"
  by (simp add: class_of_def split: if_splits)

lemma aiClass_x: "aiClass c = CC_X \<Longrightarrow> c = 0x78 \<or> c = 0x58"
  unfolding aiClass_eq CC_defs by (drule class_of_x) (auto simp: word_unat_eq_iff)

lemma class_of_word:
  assumes "class_of n \<le> 2 \<or> class_of n = 27 \<or> class_of n = 30"
  shows "65 \<le> n \<and> n \<le> 90 \<or> 97 \<le> n \<and> n \<le> 122 \<or> n = 95 \<or> 128 \<le> n"
  using assms unfolding class_of_def by (simp split: if_splits)

lemma ctype_word:
  assumes "65 \<le> n \<and> n \<le> 90 \<or> 97 \<le> n \<and> n \<le> 122 \<or> n = 95 \<or> 128 \<le> n"
  shows "ctype_of n AND 0x46 \<noteq> 0"
proof -
  consider "65 \<le> n" "n \<le> 70" | "71 \<le> n" "n \<le> 90" | "n = 95" | "97 \<le> n" "n \<le> 102" | "103 \<le> n" "n \<le> 122" | "128 \<le> n"
    using assms by linarith
  then show ?thesis by cases (simp_all add: ctype_of_def)
qed

lemma aiClass_word:
  assumes "aiClass c \<le> CC_KYWD \<or> aiClass c = CC_ID \<or> aiClass c = CC_BOM"
  shows "IdChar c \<and> \<not> sqlite3Isdigit c \<and> c \<noteq> 0x24"
proof -
  have u: "65 \<le> unat c \<and> unat c \<le> 90 \<or> 97 \<le> unat c \<and> unat c \<le> 122 \<or> unat c = 95 \<or> 128 \<le> unat c"
    using assms by (intro class_of_word) (simp add: aiClass_eq CC_defs)
  then have "IdChar c" using ctype_word by (simp add: IdChar_def CtypeMap_nth)
  then show ?thesis using u by (auto simp: sqlite3Isdigit_iff)
qed

section \<open>Numbers\<close>

definition strip_sep :: "cstring \<Rightarrow> cstring" where
  "strip_sep x = filter (\<lambda>c. c \<noteq> SQLITE_DIGIT_SEPARATOR) x"

lemma strip_sep_append [simp]: "strip_sep (x @ y) = strip_sep x @ strip_sep y"
  by (simp add: strip_sep_def)

lemma strip_sep_Nil [simp]: "strip_sep [] = []"
  by (simp add: strip_sep_def)

lemma strip_sep_Cons: "strip_sep (c # x) = (if c = SQLITE_DIGIT_SEPARATOR then strip_sep x else c # strip_sep x)"
  by (simp add: strip_sep_def)

definition num_type :: "bool \<Rightarrow> cstring \<Rightarrow> tk" where
  "num_type fl x = (if SQLITE_DIGIT_SEPARATOR \<in> set x then TK_QNUMBER else if fl then TK_FLOAT else TK_INTEGER)"

lemma num_type_float: "t = num_type fl x \<Longrightarrow> (if t = TK_INTEGER then TK_FLOAT else t) = num_type True x"
  by (simp add: num_type_def)

lemma num_type_more: "SQLITE_DIGIT_SEPARATOR \<notin> set y \<Longrightarrow> num_type fl (x @ y) = num_type fl x"
  by (simp add: num_type_def)

lemma lexeme_number:
  assumes "if fl then float_lex (strip_sep x) else int_lex (strip_sep x)"
  shows "lexeme (num_type fl x) x"
proof (cases "SQLITE_DIGIT_SEPARATOR \<in> set x")
  case True
  then show ?thesis using assms by (cases fl) (simp_all add: num_type_def separated_lex_def strip_sep_def)
next
  case False
  then have "strip_sep x = x" unfolding strip_sep_def by (auto intro: filter_True)
  then show ?thesis using assms False by (cases fl) (simp_all add: num_type_def)
qed

lemma digit_not_sep: "sqlite3Isdigit c \<Longrightarrow> c \<noteq> SQLITE_DIGIT_SEPARATOR" "sqlite3Isxdigit c \<Longrightarrow> c \<noteq> SQLITE_DIGIT_SEPARATOR"
  by (auto simp: sqlite3Isdigit_iff sqlite3Isxdigit_iff SQLITE_DIGIT_SEPARATOR_def)

lemma digit_not_0: "sqlite3Isdigit c \<Longrightarrow> c \<noteq> 0" "sqlite3Isxdigit c \<Longrightarrow> c \<noteq> 0"
  by (auto simp: sqlite3Isdigit_iff sqlite3Isxdigit_iff)

lemma digit_loop_type:
  assumes "i \<le> zlen z" "digit_loop P z i (num_type fl x) = (j, t)" "\<And>c. P c \<Longrightarrow> c \<noteq> SQLITE_DIGIT_SEPARATOR"
  shows "t = num_type fl (x @ seg z i j) \<and> (\<forall>c\<in>set (strip_sep (seg z i j)). P c) \<and> i \<le> j \<and> j \<le> zlen z"
  using digit_loop_seg [OF assms(1,2)] digit_loop_bounds [OF assms(1,2)] assms(3)
  unfolding num_type_def strip_sep_def by fastforce

lemma digit_loop_first:
  assumes "i \<le> zlen z" "digit_loop P z i t = (j, t')" "P (char_at z i)" "char_at z i \<noteq> 0" "\<And>c. P c \<Longrightarrow> c \<noteq> SQLITE_DIGIT_SEPARATOR"
  shows "strip_sep (seg z i j) \<noteq> []"
proof -
  have "digit_loop P z (i + 1) t = (j, t')" using assms(2-4) digit_loop.simps [of P z i t] by simp
  then have "i + 1 \<le> j" using digit_loop_bounds zlen_step [OF assms(1,4)] by blast
  then show ?thesis using char_step [OF assms(4)] assms(3,5) by (simp add: strip_sep_Cons)
qed

text \<open>The digits before the point, the fraction, and the exponent.\<close>

lemma number_fraction:
  assumes "i \<le> zlen z" "t = num_type False (take i z)"
    and "(if char_at z i = 0x2e then digit_loop sqlite3Isdigit z (i + 1) (if t = TK_INTEGER then TK_FLOAT else t) else (i, t)) = (j, t')"
  shows "i \<le> j \<and> j \<le> zlen z \<and> t' = num_type (seg z i j \<noteq> []) (take j z) \<and>
    (char_at z i \<noteq> 0x2e \<and> seg z i j = [] \<or> char_at z i = 0x2e \<and> seg z i j \<noteq> [] \<and> strip_sep (seg z i j) \<noteq> [] \<and> hd (strip_sep (seg z i j)) = 0x2e \<and> (\<forall>c\<in>set (tl (strip_sep (seg z i j))). sqlite3Isdigit c) \<and>
       (sqlite3Isdigit (char_at z (i + 1)) \<longrightarrow> length (strip_sep (seg z i j)) > 1))"
proof (cases "char_at z i = 0x2e")
  case True
  then have l: "i + 1 \<le> zlen z" using zlen_step [OF assms(1)] by simp
  have d: "digit_loop sqlite3Isdigit z (i + 1) (num_type True (take i z @ [0x2e])) = (j, t')"
    using assms(3) True num_type_more [of "[0x2e]" True "take i z"] unfolding num_type_float [OF assms(2)]
    by (simp add: SQLITE_DIGIT_SEPARATOR_def)
  note dt = digit_loop_type [OF l d digit_not_sep(1)]
  have s: "seg z i j = 0x2e # seg z (i + 1) j" using char_step [of z i j] True dt by simp
  have tk: "take j z = take i z @ [0x2e] @ seg z (i + 1) j" using seg_append [of 0 i j z] dt s by (simp add: seg_take)
  have "strip_sep (seg z (i + 1) j) \<noteq> []" if "sqlite3Isdigit (char_at z (i + 1))"
    using digit_loop_first [OF l d that digit_not_0(1) [OF that] digit_not_sep(1)] .
  then show ?thesis using dt tk True by (auto simp: s strip_sep_Cons SQLITE_DIGIT_SEPARATOR_def)
next
  case False
  then show ?thesis using assms by auto
qed

lemma number_exponent:
  assumes i: "i \<le> zlen z" "t = num_type fl (take i z)"
    and e: "char_at z i = 0x65 \<or> char_at z i = 0x45" "sqlite3Isdigit (char_at z (i + 1)) \<or>
      ((char_at z (i + 1) = 0x2b \<or> char_at z (i + 1) = 0x2d) \<and> sqlite3Isdigit (char_at z (i + 2)))"
    and d: "digit_loop sqlite3Isdigit z (i + 2) (if t = TK_INTEGER then TK_FLOAT else t) = (j, t')"
  shows "i \<le> j \<and> j \<le> zlen z \<and> t' = num_type True (take j z) \<and> exponent_lex (strip_sep (seg z i j))"
proof -
  let ?c = "char_at z (i + 1)"
  have c: "?c \<noteq> 0" "?c \<noteq> SQLITE_DIGIT_SEPARATOR" "char_at z i \<noteq> SQLITE_DIGIT_SEPARATOR"
    using e digit_not_0 digit_not_sep by (auto simp: SQLITE_DIGIT_SEPARATOR_def)
  have l: "i + 1 \<le> zlen z" using zlen_step [OF i(1)] e by auto
  then have l2: "i + 2 \<le> zlen z" using zlen_step [OF l c(1)] by simp
  have d: "digit_loop sqlite3Isdigit z (i + 2) (num_type True (take i z @ [char_at z i, ?c])) = (j, t')"
    using d num_type_more [of "[char_at z i, ?c]" True "take i z"] c unfolding num_type_float [OF i(2)] by simp
  note dt = digit_loop_type [OF l2 d digit_not_sep(1)]
  have s: "seg z i j = char_at z i # ?c # seg z (i + 2) j" using char_step [of z i j] char_step [of z "i + 1" j] e c dt by auto
  have tk: "take j z = take i z @ [char_at z i, ?c] @ seg z (i + 2) j" using seg_append [of 0 i j z] dt s by (simp add: seg_take)
  have x: "exponent_lex (strip_sep (seg z i j))"
  proof (cases "sqlite3Isdigit ?c")
    case True
    then have "strip_sep (seg z i j) = [char_at z i] @ [] @ (?c # strip_sep (seg z (i + 2) j))" using c s by (simp add: strip_sep_Cons)
    moreover have "\<forall>d\<in>set (?c # strip_sep (seg z (i + 2) j)). sqlite3Isdigit d" using True dt by simp
    ultimately show ?thesis unfolding exponent_lex_def using e(1) by blast
  next
    case False
    then have sg: "sqlite3Isdigit (char_at z (i + 2))" "?c = 0x2b \<or> ?c = 0x2d" using e(2) by auto
    have n: "strip_sep (seg z (i + 2) j) \<noteq> []" by (rule digit_loop_first [OF l2 d sg(1) digit_not_0(1) [OF sg(1)] digit_not_sep(1)])
    have "strip_sep (seg z i j) = [char_at z i] @ [?c] @ strip_sep (seg z (i + 2) j)" using c s by (simp add: strip_sep_Cons)
    then show ?thesis unfolding exponent_lex_def using e(1) sg(2) n dt by blast
  qed
  show ?thesis using dt tk x by simp
qed

lemma number_hex:
  assumes "char_at z 0 = 0x30" "char_at z 1 = 0x78 \<or> char_at z 1 = 0x58" "sqlite3Isxdigit (char_at z 2)"
    and d: "digit_loop sqlite3Isxdigit z 3 TK_INTEGER = (i, t)"
  shows "i \<le> zlen z \<and> 1 \<le> i \<and> lexeme t (take i z)"
proof -
  let ?p = "char_at z 1" let ?c = "char_at z 2"
  have n: "char_at z 0 \<noteq> 0" "?p \<noteq> 0" "?c \<noteq> 0" using assms(1-3) digit_not_0 by auto
  have l: "3 \<le> zlen z" using zlen_step [of 0 z] zlen_step [of 1 z] zlen_step [of 2 z] n by simp
  have s: "SQLITE_DIGIT_SEPARATOR \<notin> set [0x30, ?p, ?c]" using assms(2) digit_not_sep(2) [OF assms(3)]
    by (auto simp: SQLITE_DIGIT_SEPARATOR_def)
  then have d: "digit_loop sqlite3Isxdigit z 3 (num_type False [0x30, ?p, ?c]) = (i, t)" using d by (simp add: num_type_def)
  note dt = digit_loop_type [OF l d digit_not_sep(2)]
  have tk: "take i z = [0x30, ?p, ?c] @ seg z 3 i"
    using lead3 [OF n, of i] dt assms(1) by simp
  have "strip_sep (take i z) = [0x30, ?p] @ (?c # strip_sep (seg z 3 i))" using s unfolding tk by (auto simp: strip_sep_Cons)
  moreover have "\<forall>c\<in>set (?c # strip_sep (seg z 3 i)). sqlite3Isxdigit c" using dt assms(3) by simp
  ultimately have "int_lex (strip_sep (take i z))" unfolding int_lex_def using assms(2) by blast
  then show ?thesis using lexeme_number [of False "take i z"] dt tk by simp
qed

lemma number_decimal:
  assumes z: "sqlite3Isdigit (char_at z 0) \<or> char_at z 0 = 0x2e \<and> sqlite3Isdigit (char_at z 1)"
    and d1: "digit_loop sqlite3Isdigit z 0 TK_INTEGER = (i, t)"
    and d2: "(if char_at z i = 0x2e then digit_loop sqlite3Isdigit z (i + 1) (if t = TK_INTEGER then TK_FLOAT else t) else (i, t)) = (j, t')"
    and d3: "(if (char_at z j = 0x65 \<or> char_at z j = 0x45) \<and> (sqlite3Isdigit (char_at z (j + 1)) \<or>
      ((char_at z (j + 1) = 0x2b \<or> char_at z (j + 1) = 0x2d) \<and> sqlite3Isdigit (char_at z (j + 2))))
      then digit_loop sqlite3Isdigit z (j + 2) (if t' = TK_INTEGER then TK_FLOAT else t') else (j, t')) = (k, t'')"
  shows "k \<le> zlen z \<and> 1 \<le> k \<and> lexeme t'' (take k z)"
proof -
  have d1': "digit_loop sqlite3Isdigit z 0 (num_type False []) = (i, t)" using d1 by (simp add: num_type_def)
  note dt1 = digit_loop_type [OF le0 d1' digit_not_sep(1), simplified]
  have t1: "t = num_type False (take i z)" "i \<le> zlen z" using dt1 by (simp_all add: seg_take)
  note dt2 = number_fraction [OF t1(2,1) d2]
  let ?a = "take i z" let ?f = "seg z i j" let ?e = "seg z j k"
  let ?fl = "?f \<noteq> [] \<or> ?e \<noteq> []"
  have a: "\<forall>c\<in>set (strip_sep ?a). sqlite3Isdigit c" using dt1 by (simp add: seg_take)
  have a1: "strip_sep ?a \<noteq> [] \<or> length (strip_sep ?f) > 1"
  proof (cases "sqlite3Isdigit (char_at z 0)")
    case True
    then show ?thesis using digit_loop_first [OF le0 d1 True digit_not_0(1) [OF True] digit_not_sep(1)] by (simp add: seg_take)
  next
    case False
    then have "i = 0" using d1 z digit_loop.simps [of sqlite3Isdigit z 0 TK_INTEGER] by (simp add: SQLITE_DIGIT_SEPARATOR_def)
    then show ?thesis using dt2 z False by simp
  qed
  have e: "j \<le> k \<and> k \<le> zlen z \<and> t'' = num_type ?fl (take k z) \<and> (?e = [] \<or> ?e \<noteq> [] \<and> exponent_lex (strip_sep ?e))"
  proof (cases "(char_at z j = 0x65 \<or> char_at z j = 0x45) \<and> (sqlite3Isdigit (char_at z (j + 1)) \<or>
      ((char_at z (j + 1) = 0x2b \<or> char_at z (j + 1) = 0x2d) \<and> sqlite3Isdigit (char_at z (j + 2))))")
    case True
    have "j \<le> k \<and> k \<le> zlen z \<and> t'' = num_type True (take k z) \<and> exponent_lex (strip_sep ?e)"
      using number_exponent [OF _ _ conjunct1 [OF True] conjunct2 [OF True] d3 [unfolded if_P [OF True]]] dt2 by blast
    moreover have "\<not> exponent_lex []" by (simp add: exponent_lex_def)
    ultimately show ?thesis by (cases "?e = []") simp_all
  next
    case False
    then show ?thesis using d3 dt2 by auto
  qed
  have tk: "take k z = ?a @ ?f @ ?e" using seg_append [of 0 j k z] seg_append [of 0 i j z] dt2 e by (simp add: seg_take)
  have "if ?fl then float_lex (strip_sep (take k z)) else int_lex (strip_sep (take k z))"
  proof (cases ?fl)
    case True
    have "strip_sep (take k z) = strip_sep ?a @ strip_sep ?f @ strip_sep ?e" by (simp add: tk)
    moreover have "strip_sep ?f = [] \<or> hd (strip_sep ?f) = 0x2e \<and> (\<forall>c\<in>set (tl (strip_sep ?f)). sqlite3Isdigit c)" using dt2 by auto
    moreover have "strip_sep ?e = [] \<or> exponent_lex (strip_sep ?e)" using e by auto
    moreover have "strip_sep ?f \<noteq> [] \<or> strip_sep ?e \<noteq> []" using True dt2 e by (auto simp: exponent_lex_def)
    ultimately have "float_lex (strip_sep (take k z))" unfolding float_lex_def using a a1 by blast
    then show ?thesis using True by simp
  next
    case False
    then show ?thesis using a a1 unfolding tk int_lex_def by simp
  qed
  then have "lexeme t'' (take k z)" using lexeme_number e by blast
  moreover have "1 \<le> k" using a1 tk by (cases k) auto
  ultimately show ?thesis using e by blast
qed

lemma get_number_ok:
  assumes z: "sqlite3Isdigit (char_at z 0) \<or> char_at z 0 = 0x2e \<and> sqlite3Isdigit (char_at z 1)"
  shows "tok_ok kw z (get_number z)"
proof -
  have finish: "tok_ok kw z (let j = scan_while IdChar z i in (j, if j > i then TK_ILLEGAL else t))"
    if "i \<le> zlen z \<and> 1 \<le> i \<and> lexeme t (take i z)" for i t
  proof (cases "scan_while IdChar z i > i")
    case True
    then show ?thesis using scan_while_bounds [of i z IdChar] that by (simp add: Let_def tok_ok_def)
  next
    case False
    then have "scan_while IdChar z i = i" using scan_while_bounds [of i z IdChar] that by simp
    then show ?thesis using that by (simp add: Let_def tok_ok_def)
  qed
  show ?thesis
  proof (cases "char_at z 0 = 0x30 \<and> (char_at z 1 = 0x78 \<or> char_at z 1 = 0x58) \<and> sqlite3Isxdigit (char_at z 2)")
    case True
    obtain i t where d: "digit_loop sqlite3Isxdigit z 3 TK_INTEGER = (i, t)" by fastforce
    show ?thesis unfolding get_number_def if_P [OF True] d Let_def case_prod_conv
      by (rule finish [unfolded Let_def, OF number_hex [OF conjunct1 [OF True] conjunct1 [OF conjunct2 [OF True]] conjunct2 [OF conjunct2 [OF True]] d]])
  next
    case False
    obtain i t where d1: "digit_loop sqlite3Isdigit z 0 TK_INTEGER = (i, t)" by fastforce
    obtain j t' where d2: "(if char_at z i = 0x2e then digit_loop sqlite3Isdigit z (i + 1) (if t = TK_INTEGER then TK_FLOAT else t) else (i, t)) = (j, t')"
      by fastforce
    obtain k t'' where d3: "(if (char_at z j = 0x65 \<or> char_at z j = 0x45) \<and> (sqlite3Isdigit (char_at z (j + 1)) \<or>
      ((char_at z (j + 1) = 0x2b \<or> char_at z (j + 1) = 0x2d) \<and> sqlite3Isdigit (char_at z (j + 2))))
      then digit_loop sqlite3Isdigit z (j + 2) (if t' = TK_INTEGER then TK_FLOAT else t') else (j, t')) = (k, t'')"
      by fastforce
    have "get_number z = (let j = scan_while IdChar z k in (j, if j > k then TK_ILLEGAL else t''))"
      by (simp only: get_number_def if_not_P [OF False] Let_def d1 case_prod_conv d2 d3)
    then show ?thesis using finish [OF number_decimal [OF z d1 d2 d3]] by simp
  qed
qed

section \<open>The other tokens\<close>

lemma get_blob_ok:
  assumes z: "char_at z 0 = 0x78 \<or> char_at z 0 = 0x58" "char_at z 1 = 0x27"
  shows "tok_ok kw z (get_blob z)"
proof -
  let ?i = "scan_while sqlite3Isxdigit z 2"
  have n: "char_at z 0 \<noteq> 0" "char_at z 1 \<noteq> 0" using z by auto
  note b = scan_while_bounds [OF zlen_lead(2) [OF n], of sqlite3Isxdigit]
  show ?thesis
  proof (cases "char_at z ?i \<noteq> 0x27 \<or> ?i mod 2 \<noteq> 0")
    case True
    let ?j = "scan_while (\<lambda>c. c \<noteq> 0x27) z ?i"
    have "?i \<le> ?j \<and> ?j \<le> zlen z" using scan_while_bounds b by blast
    then show ?thesis unfolding get_blob_def Let_def if_P [OF True] using b zlen_step [of ?j z] by (simp add: tok_ok_def)
  next
    case False
    then have l: "?i + 1 \<le> zlen z" using zlen_step [of ?i z] b by simp
    have "seg z 2 (?i + 1) = seg z 2 ?i @ [0x27]"
      using seg_append [of 2 ?i "?i + 1" z] char_step [of z ?i "?i + 1"] False b by simp
    then have "take (?i + 1) z = [char_at z 0, 0x27] @ seg z 2 ?i @ [0x27]"
      using lead2 [OF n, of "?i + 1"] b z by simp
    moreover have "even ?i" using False by (simp add: even_iff_mod_2_eq_zero)
    then have "even (length (seg z 2 ?i))" using b zlen_le [of z] by (simp add: seg_length)
    ultimately have "blob_lex (take (?i + 1) z)"
      unfolding blob_lex_def using z(1) scan_while_seg [OF zlen_lead(2) [OF n]] by blast
    then show ?thesis unfolding get_blob_def Let_def if_not_P [OF False] using False l by (simp add: tok_ok_def)
  qed
qed

lemma line_comment_ok:
  assumes "char_at z 0 = 0x2d" "char_at z 1 = 0x2d"
  shows "tok_ok kw z (scan_while (\<lambda>c. c \<noteq> 0x0a) z 2, TK_SPACE)"
proof -
  let ?i = "scan_while (\<lambda>c. c \<noteq> 0x0a) z 2"
  have l: "2 \<le> zlen z" using zlen_lead(2) [of z] assms by simp
  note b = scan_while_bounds [OF l, of "\<lambda>c. c \<noteq> 0x0a"]
  have "take ?i z = [0x2d, 0x2d] @ seg z 2 ?i" using lead2 [of z ?i] b assms by simp
  moreover have "0x0a \<notin> set (seg z 2 ?i)" using scan_while_seg [OF l, of "\<lambda>c. c \<noteq> 0x0a"] by blast
  ultimately have "line_comment (take ?i z)" unfolding line_comment_def by blast
  then show ?thesis using b by (intro tok_okI) auto
qed

lemma char_at_seg: "k < j - i \<Longrightarrow> j \<le> length z \<Longrightarrow> char_at z (i + k) = seg z i j ! k"
proof -
  assume k: "k < j - i" "j \<le> length z"
  then have "i + k < length z" by linarith
  then show ?thesis using k by (simp add: char_at_def seg_def)
qed

lemma block_comment_ok:
  assumes z: "char_at z 0 = 0x2f" "char_at z 1 = 0x2a" "char_at z 2 \<noteq> 0" and c: "comment_loop z (char_at z 2) 3 = (d, i)"
  shows "tok_ok kw z (if d \<noteq> 0 then i + 1 else i, TK_SPACE)"
proof -
  let ?n = "if d \<noteq> 0 then i + 1 else i"
  have l: "3 \<le> zlen z" using zlen_lead(3) [of z] z by simp
  note b = comment_loop_bounds [OF l c]
  have nl: "3 \<le> ?n \<and> ?n \<le> zlen z" using b zlen_step [of i z] by auto
  have c': "comment_loop z (char_at z (3 - 1)) 3 = (d, i)" using c by simp
  have first: "v = []" if y: "seg z 2 ?n = u @ [0x2a, 0x2f] @ v" for u v
  proof -
    have len: "length u + 2 + length v = ?n - 2" using arg_cong [OF y, of length] nl zlen_le [of z] by (simp add: seg_length)
    let ?k = "2 + (length u + 1)"
    have "char_at z (2 + length u) = 0x2a" "char_at z ?k = 0x2f"
      using char_at_seg [of "length u" ?n 2 z] char_at_seg [of "length u + 1" ?n 2 z] len nl zlen_le [of z] unfolding y
      by (simp_all add: nth_append)
    then have "\<not> ?k < i" using comment_loop_seg [OF l c'] by (auto dest: spec [of _ ?k])
    moreover have "length u + 3 + length v \<le> i" using len b by (auto split: if_splits)
    ultimately have "length v = 0" by linarith
    then show ?thesis by simp
  qed
  have "take ?n z = [0x2f, 0x2a] @ seg z 2 ?n" using lead2 [of z ?n] nl z by simp
  then have "block_comment (take ?n z)" unfolding block_comment_def using first by blast
  then show ?thesis using nl by (intro tok_okI) auto
qed

lemma quote_ok:
  assumes z: "char_at z 0 = q" "q = 0x22 \<or> q = 0x27 \<or> q = 0x60" and c: "quote_loop z q 1 = (c, i)"
  shows "tok_ok kw z (if c = 0x27 then (i + 1, TK_STRING) else if c \<noteq> 0 then (i + 1, TK_ID) else (i, TK_ILLEGAL))"
proof -
  have q: "q \<noteq> 0" "q \<noteq> 91" using z by auto
  have l: "1 \<le> zlen z" using zlen_lead(1) [of z] z q by simp
  note b = quote_loop_bounds [OF l q(1) c]
  show ?thesis
  proof (cases "c = 0")
    case True
    then show ?thesis using b by (simp add: tok_ok_def)
  next
    case False
    obtain s where s: "seg z 1 i = concat (map (\<lambda>c. if c = q then [q, q] else [c]) s)" using quote_loop_seg [OF l q(1) c False] by blast
    have i: "c = q" "char_at z i = q" "i + 1 \<le> zlen z" using b False q zlen_step [of i z] by auto
    have "seg z i (i + 1) = [q]" using char_step [of z i "i + 1"] i(2) q(1) by simp
    then have "seg z 1 (i + 1) = seg z 1 i @ [q]" using seg_append [of 1 i "i + 1" z] b by simp
    then have "take (i + 1) z = q # seg z 1 i @ [q]" using lead1 [of z "i + 1"] z(1) q(1) by simp
    then have "take (i + 1) z = quoted q s" using s q by (simp add: quoted_def)
    then have "lexeme (if c = 0x27 then TK_STRING else TK_ID) (take (i + 1) z)" using i(1) z(2) by auto
    then have "tok_ok kw z (i + 1, if c = 0x27 then TK_STRING else TK_ID)" using i(3) by (intro tok_okI) simp_all
    then show ?thesis using False by (cases "c = 0x27") simp_all
  qed
qed

lemma bracket_ok:
  assumes z: "char_at z 0 = 0x5b" and b: "bracket_loop z (char_at z 0) 1 = (c, i)"
  shows "tok_ok kw z (i, if c = 0x5d then TK_ID else TK_ILLEGAL)"
proof -
  have l: "1 \<le> zlen z" using zlen_lead(1) [of z] z by simp
  have c: "bracket_loop z 0x5b 1 = (c, i)" using b z by simp
  note b = bracket_loop_bounds [OF l c]
  show ?thesis
  proof (cases "c = 0x5d")
    case False
    then show ?thesis using b by (simp add: tok_ok_def)
  next
    case True
    obtain k where k: "i = k + 1" "1 \<le> k" "char_at z k = 0x5d" "0x5d \<notin> set (seg z 1 k)"
      using bracket_loop_seg [OF l c [unfolded True]] by auto
    have "take i z = 0x5b # seg z 1 k @ [0x5d]"
      using lead1 [of z i] seg_append [of 1 k i z] char_step [of z k i] k z by simp
    moreover have "concat (map (\<lambda>c. if c = 0x5d then [0x5d, 0x5d] else [c]) x) = x" if "0x5d \<notin> set x" for x :: cstring
      using that by (induction x) auto
    ultimately have "take i z = quoted 0x5b (seg z 1 k)" using k(4) by (simp add: quoted_def)
    then have x: "lexeme TK_ID (take i z)" by auto
    show ?thesis unfolding if_P [OF True] using b by (intro tok_okI [OF _ _ x]) auto
  qed
qed

lemma varnum_ok:
  assumes "char_at z 0 = 0x3f"
  shows "tok_ok kw z (scan_while sqlite3Isdigit z 1, TK_VARIABLE)"
proof -
  have l: "1 \<le> zlen z" using zlen_lead(1) [of z] assms by simp
  note b = scan_while_bounds [OF l, of sqlite3Isdigit]
  have "take (scan_while sqlite3Isdigit z 1) z = 0x3f # seg z 1 (scan_while sqlite3Isdigit z 1)"
    using lead1 [of z] b assms by simp
  then show ?thesis using b scan_while_seg [OF l, of sqlite3Isdigit] by (intro tok_okI) (simp_all add: variable_lex_def)
qed

lemma variable_ok:
  assumes z: "char_at z 0 \<in> {0x24, 0x40, 0x23, 0x3a}" and v: "var_loop z 0 1 = (n, i, t)"
  shows "tok_ok kw z (i, if n = 0 then TK_ILLEGAL else t)"
proof -
  have c: "char_at z 0 \<noteq> 0" "\<not> sqlite3Isspace (char_at z 0)" using z by (auto simp: sqlite3Isspace_iff)
  have l: "1 \<le> zlen z" using zlen_lead(1) [OF c(1)] .
  note b = var_loop_bounds [OF l v] and s = var_loop_seg [OF l v]
  show ?thesis
  proof (cases "n = 0 \<or> t = TK_ILLEGAL")
    case True
    then show ?thesis using b by (auto simp: tok_ok_def)
  next
    case False
    then have t: "t = TK_VARIABLE" "n \<noteq> 0" using s by auto
    have "take i z = char_at z 0 # seg z 1 i" using lead1 [OF c(1)] b by simp
    then have "variable_lex (take i z)" unfolding variable_lex_def using s t z c(2) by simp
    then show ?thesis using t b by (auto intro: tok_okI)
  qed
qed

lemma get_id_ok:
  assumes c: "IdChar (char_at z 0)" "\<not> sqlite3Isdigit (char_at z 0)" "char_at z 0 \<noteq> 0x24"
    and i: "1 \<le> i" "i \<le> zlen z" "\<forall>c\<in>set (take i z). IdChar c"
  shows "tok_ok kw z (get_id z i)"
proof -
  let ?j = "scan_while IdChar z i"
  note b = scan_while_bounds [OF i(2), of IdChar]
  have n: "char_at z 0 \<noteq> 0" using c(1) by (auto simp: IdChar_def CtypeMap_nth ctype_of_def)
  have "take ?j z = take i z @ seg z i ?j" using seg_append [of 0 i ?j z] b by (simp add: seg_take)
  then have "\<forall>c\<in>set (take ?j z). IdChar c" using i(3) scan_while_seg [OF i(2), of IdChar] by auto
  moreover have "take ?j z \<noteq> [] \<and> hd (take ?j z) = char_at z 0" using lead1 [OF n, of ?j] b i(1) by simp
  ultimately have "word_lex (take ?j z)" using c unfolding word_lex_def by simp
  then show ?thesis unfolding get_id_def using b i by (intro tok_okI) auto
qed

lemma keyword_ok:
  assumes c: "aiClass (char_at z 0) = CC_KYWD0" "aiClass (char_at z 1) \<le> CC_KYWD"
  defines "i \<equiv> scan_while (\<lambda>c. aiClass c \<le> CC_KYWD) z 2"
  shows "tok_ok kw z (if IdChar (char_at z i) then get_id z (i + 1) else (i, case kw (take i z) of None \<Rightarrow> TK_ID | Some t \<Rightarrow> t))"
proof -
  have nz: "char_at z k \<noteq> 0" if "aiClass (char_at z k) \<le> CC_KYWD" for k
    using aiClass_word [of "char_at z k"] that by (auto simp: IdChar_def CtypeMap_nth ctype_of_def)
  have c0: "aiClass (char_at z 0) \<le> CC_KYWD" using c(1) by (simp add: CC_defs)
  note w = aiClass_word [OF disjI1 [OF c0]] aiClass_word [OF disjI1 [OF c(2)]]
  have l: "2 \<le> zlen z" using zlen_lead(2) nz c0 c(2) by simp
  note b = scan_while_bounds [OF l, of "\<lambda>c. aiClass c \<le> CC_KYWD", folded i_def]
  have tk: "take n z = char_at z 0 # char_at z 1 # seg z 2 n" if "2 \<le> n" for n
    using lead2 that nz c0 c(2) by simp
  have id: "\<forall>c\<in>set (take i z). IdChar c"
    using tk [of i] b w scan_while_seg [OF l, of "\<lambda>c. aiClass c \<le> CC_KYWD", folded i_def] aiClass_word by auto
  have wl: "word_lex (take i z)" using id tk [of i] b w by (auto simp: word_lex_def)
  show ?thesis
  proof (cases "IdChar (char_at z i)")
    case True
    then have n: "char_at z i \<noteq> 0" by (auto simp: IdChar_def CtypeMap_nth ctype_of_def)
    have "take (i + 1) z = take i z @ [char_at z i]"
      using seg_append [of 0 i "i + 1" z] char_step [OF n, of "i + 1"] by (simp add: seg_take)
    then have "\<forall>c\<in>set (take (i + 1) z). IdChar c" using id True by simp
    then show ?thesis using get_id_ok [of z "i + 1" kw] w zlen_step [of i z] b n True by simp
  next
    case False
    then show ?thesis using wl b by (cases "kw (take i z)") (auto simp: tok_ok_def)
  qed
qed

lemma space_ok:
  assumes "sqlite3Isspace (char_at z 0)"
  shows "tok_ok kw z (scan_while sqlite3Isspace z 1, TK_SPACE)"
proof -
  have n: "char_at z 0 \<noteq> 0" using assms by (auto simp: sqlite3Isspace_iff)
  note l = zlen_lead(1) [OF n]
  note b = scan_while_bounds [OF l, of sqlite3Isspace]
  have "blank (take (scan_while sqlite3Isspace z 1) z)"
    using lead1 [OF n] b assms scan_while_seg [OF l, of sqlite3Isspace] by (simp add: blank_def)
  then show ?thesis using b by (intro tok_okI) auto
qed

lemma operator_ok:
  "char_at z 0 \<noteq> 0 \<Longrightarrow> lexeme t [char_at z 0] \<Longrightarrow> tok_ok kw z (1, t)"
  "char_at z 0 \<noteq> 0 \<Longrightarrow> char_at z 1 \<noteq> 0 \<Longrightarrow> lexeme t [char_at z 0, char_at z 1] \<Longrightarrow> tok_ok kw z (2, t)"
  "char_at z 0 \<noteq> 0 \<Longrightarrow> char_at z 1 \<noteq> 0 \<Longrightarrow> char_at z 2 \<noteq> 0 \<Longrightarrow> lexeme t [char_at z 0, char_at z 1, char_at z 2] \<Longrightarrow> tok_ok kw z (3, t)"
  using zlen_lead lead1 [of z 1] lead2 [of z 2] lead3 [of z 3] by (simp_all add: tok_ok_def)

lemma word_ok:
  assumes "aiClass (char_at z 0) \<le> CC_KYWD \<or> aiClass (char_at z 0) = CC_ID \<or> aiClass (char_at z 0) = CC_BOM"
  shows "tok_ok kw z (get_id z 1)"
proof -
  note w = aiClass_word [OF assms]
  have n: "char_at z 0 \<noteq> 0" using w by (auto simp: IdChar_def CtypeMap_nth ctype_of_def)
  have "take 1 z = [char_at z 0]" using lead1 [OF n, of 1] by simp
  then show ?thesis using get_id_ok [of z 1 kw] w zlen_lead(1) [OF n] by simp
qed

lemma tok_ok_if: "(b \<Longrightarrow> tok_ok kw z r) \<Longrightarrow> (\<not> b \<Longrightarrow> tok_ok kw z r') \<Longrightarrow> tok_ok kw z (if b then r else r')"
  by simp

lemma single_ok:
  "aiClass (char_at z 0) = CC_LP \<Longrightarrow> tok_ok kw z (1, TK_LP)"
  "aiClass (char_at z 0) = CC_RP \<Longrightarrow> tok_ok kw z (1, TK_RP)"
  "aiClass (char_at z 0) = CC_SEMI \<Longrightarrow> tok_ok kw z (1, TK_SEMI)"
  "aiClass (char_at z 0) = CC_PLUS \<Longrightarrow> tok_ok kw z (1, TK_PLUS)"
  "aiClass (char_at z 0) = CC_STAR \<Longrightarrow> tok_ok kw z (1, TK_STAR)"
  "aiClass (char_at z 0) = CC_PERCENT \<Longrightarrow> tok_ok kw z (1, TK_REM)"
  "aiClass (char_at z 0) = CC_COMMA \<Longrightarrow> tok_ok kw z (1, TK_COMMA)"
  "aiClass (char_at z 0) = CC_AND \<Longrightarrow> tok_ok kw z (1, TK_BITAND)"
  "aiClass (char_at z 0) = CC_TILDA \<Longrightarrow> tok_ok kw z (1, TK_BITNOT)"
  "aiClass (char_at z 0) = CC_MINUS \<Longrightarrow> tok_ok kw z (1, TK_MINUS)"
  "aiClass (char_at z 0) = CC_SLASH \<Longrightarrow> tok_ok kw z (1, TK_SLASH)"
  "aiClass (char_at z 0) = CC_LT \<Longrightarrow> tok_ok kw z (1, TK_LT)"
  "aiClass (char_at z 0) = CC_GT \<Longrightarrow> tok_ok kw z (1, TK_GT)"
  "aiClass (char_at z 0) = CC_PIPE \<Longrightarrow> tok_ok kw z (1, TK_BITOR)"
  by (drule aiClass_char, simp add: operator_ok [simplified])+

lemma double_ok:
  "aiClass (char_at z 0) = CC_LT \<Longrightarrow> char_at z 1 = 0x3d \<Longrightarrow> tok_ok kw z (2, TK_LE)"
  "aiClass (char_at z 0) = CC_LT \<Longrightarrow> char_at z 1 = 0x3e \<Longrightarrow> tok_ok kw z (2, TK_NE)"
  "aiClass (char_at z 0) = CC_LT \<Longrightarrow> char_at z 1 = 0x3c \<Longrightarrow> tok_ok kw z (2, TK_LSHIFT)"
  "aiClass (char_at z 0) = CC_GT \<Longrightarrow> char_at z 1 = 0x3d \<Longrightarrow> tok_ok kw z (2, TK_GE)"
  "aiClass (char_at z 0) = CC_GT \<Longrightarrow> char_at z 1 = 0x3e \<Longrightarrow> tok_ok kw z (2, TK_RSHIFT)"
  by (drule aiClass_char, simp add: operator_ok [simplified])+

lemma optional_ok:
  "aiClass (char_at z 0) = CC_MINUS \<Longrightarrow> char_at z 1 = 0x3e \<Longrightarrow> tok_ok kw z (if char_at z 2 = 0x3e then 3 else 2, TK_PTR)"
  "aiClass (char_at z 0) = CC_EQ \<Longrightarrow> tok_ok kw z (if char_at z 1 = 0x3d then 2 else 1, TK_EQ)"
  "aiClass (char_at z 0) = CC_BANG \<Longrightarrow> \<not> char_at z 1 \<noteq> 0x3d \<Longrightarrow> tok_ok kw z (2, TK_NE)"
  "aiClass (char_at z 0) = CC_PIPE \<Longrightarrow> \<not> char_at z 1 \<noteq> 0x7c \<Longrightarrow> tok_ok kw z (2, TK_CONCAT)"
  "aiClass (char_at z 0) = CC_DOT \<and> \<not> sqlite3Isdigit (char_at z 1) \<Longrightarrow> tok_ok kw z (1, TK_DOT)"
  by (drule aiClass_char, simp add: operator_ok [simplified])+ (auto simp: operator_ok [simplified] dest: aiClass_char)

lemma scanned_ok:
  "aiClass (char_at z 0) = CC_SPACE \<Longrightarrow> tok_ok kw z (scan_while sqlite3Isspace z 1, TK_SPACE)"
  "aiClass (char_at z 0) = CC_MINUS \<Longrightarrow> char_at z 1 = 0x2d \<Longrightarrow> tok_ok kw z (scan_while (\<lambda>c. c \<noteq> 0x0a) z 2, TK_SPACE)"
  "aiClass (char_at z 0) = CC_SLASH \<Longrightarrow> \<not> (char_at z 1 \<noteq> 0x2a \<or> char_at z 2 = 0) \<Longrightarrow>
     tok_ok kw z (case comment_loop z (char_at z 2) 3 of (c, i) \<Rightarrow> (if c \<noteq> 0 then i + 1 else i, TK_SPACE))"
  "aiClass (char_at z 0) = CC_QUOTE \<Longrightarrow>
     tok_ok kw z (case quote_loop z (char_at z 0) 1 of (c, i) \<Rightarrow>
       if c = 0x27 then (i + 1, TK_STRING) else if c \<noteq> 0 then (i + 1, TK_ID) else (i, TK_ILLEGAL))"
  "\<not> (aiClass (char_at z 0) = CC_DOT \<and> \<not> sqlite3Isdigit (char_at z 1)) \<Longrightarrow>
     aiClass (char_at z 0) = CC_DOT \<or> aiClass (char_at z 0) = CC_DIGIT \<Longrightarrow> tok_ok kw z (get_number z)"
  "aiClass (char_at z 0) = CC_QUOTE2 \<Longrightarrow>
     tok_ok kw z (case bracket_loop z (char_at z 0) 1 of (c, i) \<Rightarrow> (i, if c = 0x5d then TK_ID else TK_ILLEGAL))"
  "aiClass (char_at z 0) = CC_VARNUM \<Longrightarrow> tok_ok kw z (scan_while sqlite3Isdigit z 1, TK_VARIABLE)"
  "aiClass (char_at z 0) = CC_DOLLAR \<or> aiClass (char_at z 0) = CC_VARALPHA \<Longrightarrow>
     tok_ok kw z (case var_loop z 0 1 of (n, i, t) \<Rightarrow> (i, if n = 0 then TK_ILLEGAL else t))"
  "aiClass (char_at z 0) = CC_X \<and> char_at z 1 = 0x27 \<Longrightarrow> tok_ok kw z (get_blob z)"
  "aiClass (char_at z 0) = CC_BOM \<Longrightarrow> char_at z 1 = 0xbb \<and> char_at z 2 = 0xbf \<Longrightarrow> tok_ok kw z (3, TK_SPACE)"
  subgoal by (rule space_ok) (rule aiClass_char)
  subgoal by (rule line_comment_ok) (rule aiClass_char)
  subgoal by (split prod.split) (intro allI impI block_comment_ok; auto dest: aiClass_char)
  subgoal by (split prod.split) (intro allI impI quote_ok [OF refl] aiClass_char)
  subgoal by (rule get_number_ok) (auto dest: aiClass_char)
  subgoal by (split prod.split) (intro allI impI bracket_ok aiClass_char)
  subgoal by (rule varnum_ok) (rule aiClass_char)
  subgoal using aiClass_char(23,24) [of "char_at z 0"]
    by (cases "var_loop z 0 1") (simp only: prod.case, rule variable_ok, auto)
  subgoal by (rule get_blob_ok) (auto dest: aiClass_x)
  subgoal by (drule aiClass_char, simp add: operator_ok)
  done

lemma words_ok:
  "aiClass (char_at z 0) = CC_KYWD0 \<Longrightarrow> tok_ok kw z (get_id z 1)"
  "aiClass (char_at z 0) = CC_X \<or> aiClass (char_at z 0) = CC_KYWD \<or> aiClass (char_at z 0) = CC_ID \<Longrightarrow> tok_ok kw z (get_id z 1)"
  "aiClass (char_at z 0) = CC_BOM \<Longrightarrow> tok_ok kw z (get_id z 1)"
  using word_ok [of z kw] by (auto simp: CC_defs)

lemmas token_rules = single_ok double_ok optional_ok scanned_ok words_ok

lemma sqlite3GetToken_ok:
  assumes "char_at z 0 \<noteq> 0"
  shows "tok_ok kw z (sqlite3GetToken kw z)"
proof -
  have illegal: "tok_ok kw z (1, TK_ILLEGAL)" using assms by (intro operator_ok) simp_all
  have nul: "aiClass (char_at z 0) \<noteq> CC_NUL" using assms aiClass_char(26) by metis
  let ?i = "scan_while (\<lambda>c. aiClass c \<le> CC_KYWD) z 2"
  have kwd: "tok_ok kw z (get_id z (?i + 1))" if "aiClass (char_at z 0) = CC_KYWD0" "\<not> CC_KYWD < aiClass (char_at z 1)" "IdChar (char_at z ?i)"
    using keyword_ok [OF that(1), of kw] that(2,3) by simp
  have kwd': "tok_ok kw z (?i, case kw (take ?i z) of None \<Rightarrow> TK_ID | Some t \<Rightarrow> t)"
    if "aiClass (char_at z 0) = CC_KYWD0" "\<not> CC_KYWD < aiClass (char_at z 1)" "\<not> IdChar (char_at z ?i)"
    using keyword_ok [OF that(1), of kw] that(2,3) by simp
  show ?thesis unfolding sqlite3GetToken_def Let_def if_not_P [OF nul]
    by (intro tok_ok_if; (rule illegal | (rule token_rules; assumption) | (rule kwd; assumption) | (rule kwd'; assumption)))
qed

lemma sqlite3GetToken_end: "char_at z 0 = 0 \<Longrightarrow> sqlite3GetToken kw z = (0, TK_ILLEGAL)"
  by (simp add: sqlite3GetToken_def aiClass_def aiClass_table_def CC_defs)

lemma sqlite3GetToken_length:
  assumes "sqlite3GetToken kw z = (n, t)" "char_at z 0 \<noteq> 0"
  shows "1 \<le> n \<and> n \<le> zlen z \<and> n \<le> length z"
  using sqlite3GetToken_ok [OF assms(2), of kw] zlen_le [of z] assms(1) by (simp add: tok_ok_def)

text \<open>C12. The type and the length that \<open>sqlite3GetToken\<close> gives are right for every text: at the
  terminating zero it gives no character and \<open>TK_ILLEGAL\<close>; elsewhere the token has at least one character and
  does not pass the end of the text, and its characters are a word of the language of its type (blanks and comments, an
  operator, a quoted string or name with doubled quotes, an integer, a floating point number, a number
  with separators, a blob literal, a parameter, an identifier), or a word for which the keyword table has
  this type.\<close>

theorem sqlite3GetToken_type:
  "case sqlite3GetToken kw z of (n, t) \<Rightarrow>
     if char_at z 0 = 0 then n = 0 \<and> t = TK_ILLEGAL
     else 1 \<le> n \<and> n \<le> zlen z \<and> (lexeme t (take n z) \<or> word_lex (take n z) \<and> kw (take n z) = Some t)"
  using sqlite3GetToken_end [of z kw] sqlite3GetToken_ok [of z kw] by (auto simp: tok_ok_def split: prod.split)

section \<open>Quoted text\<close>

definition doubled :: "u8 \<Rightarrow> cstring \<Rightarrow> cstring" where
  "doubled q s = concat (map (\<lambda>c. if c = q then [q, q] else [c]) s)"

lemma char_at_mid: "char_at (x @ c # y) (length x) = c"
  by (simp add: char_at_def)

lemma quote_loop_doubled:
  assumes "0 \<notin> set s" "q \<noteq> 0" "hd0 rest \<noteq> q"
  shows "quote_loop (pre @ doubled q s @ q # rest) q (length pre) = (q, length pre + length (doubled q s))"
  using assms
proof (induction s arbitrary: pre)
  case Nil
  have "char_at (pre @ q # rest) (length pre + 1) = hd0 rest" by (cases rest) (simp_all add: char_at_def nth_append)
  then show ?case using Nil char_at_mid [of pre q rest] quote_loop.simps [of "pre @ q # rest" q "length pre"]
    by (simp add: doubled_def Let_def)
next
  case (Cons c s)
  let ?y = "doubled q s @ q # rest"
  have IH: "quote_loop (pre' @ ?y) q (length pre') = (q, length pre' + length (doubled q s))" for pre'
    using Cons.IH [of pre'] Cons.prems by simp
  show ?case
  proof (cases "c = q")
    case True
    have "char_at (pre @ [q, q] @ ?y) (length pre) = q" "char_at (pre @ [q, q] @ ?y) (length pre + 1) = q"
      by (simp_all add: char_at_def nth_append)
    then have "quote_loop (pre @ [q, q] @ ?y) q (length pre) = quote_loop (pre @ [q, q] @ ?y) q (length pre + 2)"
      using Cons.prems quote_loop.simps [of "pre @ [q, q] @ ?y" q "length pre"] by (simp add: Let_def)
    then show ?thesis using IH [of "pre @ [q, q]"] True by (simp add: doubled_def)
  next
    case False
    have "quote_loop (pre @ [c] @ ?y) q (length pre) = quote_loop (pre @ [c] @ ?y) q (length pre + 1)"
      using Cons.prems False char_at_mid [of pre c ?y] quote_loop.simps [of "pre @ [c] @ ?y" q "length pre"] by (simp add: Let_def)
    then show ?thesis using IH [of "pre @ [c]"] False by (simp add: doubled_def)
  qed
qed

lemma Isquote_class: "q = 0x22 \<or> q = 0x27 \<or> q = 0x60 \<Longrightarrow> aiClass q = CC_QUOTE"
  by (auto simp: aiClass_def aiClass_table_def CC_defs)

text \<open>C27. A string literal or a quoted name survives the tokenizer: in the text of any string
  without zero bytes, written between quotes with the quotes doubled and followed by any text that
  does not go on with the same quote, the first token is exactly the quoted text, a string for
  apostrophes and a name for the other two quotes, and \<open>sqlite3Dequote\<close> gives the string back.\<close>

theorem sqlite3GetToken_quoted:
  assumes "q = 0x22 \<or> q = 0x27 \<or> q = 0x60" "0 \<notin> set s" "hd0 rest \<noteq> q"
  shows "sqlite3GetToken kw (quoted q s @ rest) = (length (quoted q s), if q = 0x27 then TK_STRING else TK_ID) \<and>
    sqlite3Dequote (take (fst (sqlite3GetToken kw (quoted q s @ rest))) (quoted q s @ rest)) = Some s"
proof -
  have q: "q \<noteq> 0" "q \<noteq> 91" "sqlite3Isquote q" using assms(1) by (auto simp: sqlite3Isquote_iff)
  have e: "quoted q s = q # doubled q s @ [q]" using q by (simp add: quoted_def doubled_def)
  have "quote_loop (quoted q s @ rest) q 1 = (q, 1 + length (doubled q s))"
    using quote_loop_doubled [OF assms(2) q(1) assms(3), of "[q]"] by (simp add: e)
  moreover have "char_at (quoted q s @ rest) 0 = q" by (simp add: e char_at_def)
  ultimately have g: "sqlite3GetToken kw (quoted q s @ rest) = (length (quoted q s), if q = 0x27 then TK_STRING else TK_ID)"
    using Isquote_class [OF assms(1)] q by (simp add: sqlite3GetToken_def CC_defs e)
  have "sqlite3Dequote (quoted q s) = Some s"
    using q(3) Dequote_loop_quoted [of q "[]" s] q(1,2) by (auto simp: sqlite3Dequote_def quoted_def Let_def)
  then show ?thesis using g by simp
qed

theorem sqlite3GetToken_quoted_witness:
  "sqlite3GetToken (\<lambda>x. None) (quoted 0x27 [0x49, 0x27, 0x6d] @ [0x3b]) = (6, TK_STRING)"
  using sqlite3GetToken_quoted [where q = "0x27" and s = "[0x49, 0x27, 0x6d]" and rest = "[0x3b]" and kw = "\<lambda>x. None"] by (simp add: quoted_def)

end
