(* ===== verification/RunParser.thy ===== *)
theory RunParser
  imports Tokenize
begin

text \<open>
  The driver of the parser in \<open>tokenize.c\<close>: the look-ahead that tells the keywords \<open>WINDOW\<close>,
  \<open>OVER\<close> and \<open>FILTER\<close> from identifiers, and \<open>sqlite3RunParser\<close>. The generated LALR(1) parser is the
  parameter \<open>parser\<close>: a function of the token type, of the token (the text from its first character on and its
  length) and of the parse context; \<open>pinit\<close> allocates its engine. \<open>fallback\<close> is the generated
  \<open>sqlite3ParserFallback\<close>, \<open>intr k\<close> the value of the interrupt flag at its \<open>k\<close>-th load, and \<open>oom\<close> tells
  whether the allocation of an error message fails. There is one parse context: the outer contexts that
  \<open>sqlite3OomFault\<close> also marks are left out, and so is its store to the interrupt flag, whose values are arbitrary.
\<close>

definition SQLITE_ERROR :: nat where "SQLITE_ERROR = 1"
definition SQLITE_INTERRUPT :: nat where "SQLITE_INTERRUPT = 9"
definition SQLITE_TOOBIG :: nat where "SQLITE_TOOBIG = 18"

type_synonym kwtable = "cstring \<Rightarrow> tk option"

section \<open>Look-ahead\<close>

definition as_id :: "(tk \<Rightarrow> tk) \<Rightarrow> tk \<Rightarrow> tk" where
  "as_id fallback t =
     (if t = TK_ID \<or> t = TK_STRING \<or> t = TK_JOIN_KW \<or> t = TK_WINDOW \<or> t = TK_OVER \<or> fallback t = TK_ID then TK_ID else t)"

lemma space_token: "sqlite3GetToken kw z = (n, TK_SPACE) \<Longrightarrow> char_at z 0 \<noteq> 0"
  using sqlite3GetToken_end [of z kw] by auto

lemma token_shorter:
  assumes "sqlite3GetToken kw z = (n, t)" "char_at z 0 \<noteq> 0"
  shows "length (drop n z) < length z"
  using sqlite3GetToken_length [OF assms] by simp linarith

function getToken :: "kwtable \<Rightarrow> (tk \<Rightarrow> tk) \<Rightarrow> cstring \<Rightarrow> tk \<times> cstring" where
  "getToken kw fallback z =
     (let (n, t) = sqlite3GetToken kw z
      in if t = TK_SPACE then getToken kw fallback (drop n z) else (as_id fallback t, drop n z))"
  by pat_completeness auto
termination
proof (relation "measure (\<lambda>(kw, fallback, z). length z)")
  show "wf (measure (\<lambda>(kw :: kwtable, fallback :: tk \<Rightarrow> tk, z :: cstring). length z))" by simp
next
  fix kw :: kwtable and fallback :: "tk \<Rightarrow> tk" and z x n t
  assume "x = sqlite3GetToken kw z" "(n, t) = x" "t = TK_SPACE"
  then have "sqlite3GetToken kw z = (n, TK_SPACE)" by simp
  then have "length (drop n z) < length z" using token_shorter space_token by blast
  then show "((kw, fallback, drop n z), kw, fallback, z) \<in> measure (\<lambda>(kw, fallback, z). length z)" by simp
qed

declare getToken.simps [simp del]

definition analyzeWindowKeyword :: "kwtable \<Rightarrow> (tk \<Rightarrow> tk) \<Rightarrow> cstring \<Rightarrow> tk" where
  "analyzeWindowKeyword kw fallback z =
     (let (t, z) = getToken kw fallback z
      in if t \<noteq> TK_ID then TK_ID
         else let (t, z) = getToken kw fallback z in if t \<noteq> TK_AS then TK_ID else TK_WINDOW)"

definition analyzeOverKeyword :: "kwtable \<Rightarrow> (tk \<Rightarrow> tk) \<Rightarrow> cstring \<Rightarrow> tk option \<Rightarrow> tk" where
  "analyzeOverKeyword kw fallback z lastToken =
     (if lastToken = Some TK_RP then
        (let (t, z) = getToken kw fallback z in if t = TK_LP \<or> t = TK_ID then TK_OVER else TK_ID)
      else TK_ID)"

definition analyzeFilterKeyword :: "kwtable \<Rightarrow> (tk \<Rightarrow> tk) \<Rightarrow> cstring \<Rightarrow> tk option \<Rightarrow> tk" where
  "analyzeFilterKeyword kw fallback z lastToken =
     (if lastToken = Some TK_RP \<and> fst (getToken kw fallback z) = TK_LP then TK_FILTER else TK_ID)"

section \<open>The driver\<close>

text \<open>The part of the parse context that the driver uses.\<close>

record 'e Parse =
  rc :: nat
  nErr :: nat
  zErrMsg :: "cstring option"
  zTail :: cstring
  mallocFailed :: bool
  suppressErr :: bool
  bBenignMalloc :: bool
  engine :: 'e

definition bytes :: "string \<Rightarrow> cstring" where
  "bytes s = map of_char s"

definition aMsg :: "string option list" where
  "aMsg =
    [Some ''not an error'', Some ''SQL logic error'', None, Some ''access permission denied'', Some ''query aborted'',
     Some ''database is locked'', Some ''database table is locked'', Some ''out of memory'',
     Some ''attempt to write a readonly database'', Some ''interrupted'', Some ''disk I/O error'',
     Some ''database disk image is malformed'', Some ''unknown operation'', Some ''database or disk is full'',
     Some ''unable to open database file'', Some ''locking protocol'', None, Some ''database schema has changed'',
     Some ''string or blob too big'', Some ''constraint failed'', Some ''datatype mismatch'',
     Some ''bad parameter or other API misuse'', None, Some ''authorization denied'', None,
     Some ''column index out of range'', Some ''file is not a database'', Some ''notification message'',
     Some ''warning message'']"

definition sqlite3ErrStr :: "nat \<Rightarrow> cstring" where
  "sqlite3ErrStr r = bytes
     (if r = 516 then ''abort due to ROLLBACK''
      else if r = 100 then ''another row available''
      else if r = SQLITE_DONE then ''no more rows available''
      else let r = r mod 256
           in if r < length aMsg then (case aMsg ! r of Some m \<Rightarrow> m | None \<Rightarrow> ''unknown error'') else ''unknown error'')"

definition set_error :: "cstring option \<Rightarrow> 'e Parse \<Rightarrow> 'e Parse" where
  "set_error zMsg p =
     (if suppressErr p then (if mallocFailed p then p\<lparr>nErr := nErr p + 1, rc := SQLITE_NOMEM\<rparr> else p)
      else p\<lparr>nErr := nErr p + 1, zErrMsg := zMsg, rc := SQLITE_ERROR\<rparr>)"

text \<open>The message of the first failure cannot be allocated any more once \<open>mallocFailed\<close> is set.\<close>

definition sqlite3OomFault :: "'e Parse \<Rightarrow> 'e Parse" where
  "sqlite3OomFault p =
     (if \<not> mallocFailed p \<and> \<not> bBenignMalloc p then (set_error None (p\<lparr>mallocFailed := True\<rparr>))\<lparr>rc := SQLITE_NOMEM\<rparr> else p)"

text \<open>\<open>x\<close> is the formatted text.\<close>

definition sqlite3VMPrintf :: "bool \<Rightarrow> cstring \<Rightarrow> 'e Parse \<Rightarrow> cstring option \<times> 'e Parse" where
  "sqlite3VMPrintf oom x p = (if oom \<or> mallocFailed p then (None, sqlite3OomFault p) else (Some x, p))"

definition sqlite3ErrorMsg :: "bool \<Rightarrow> cstring \<Rightarrow> 'e Parse \<Rightarrow> 'e Parse" where
  "sqlite3ErrorMsg oom x p = (let (zMsg, p) = sqlite3VMPrintf oom x p in set_error zMsg p)"

text \<open>The tokens whose code is at least that of \<open>WINDOW\<close>.\<close>

definition last_tokens :: "tk \<Rightarrow> bool" where
  "last_tokens t \<longleftrightarrow> t = TK_WINDOW \<or> t = TK_OVER \<or> t = TK_FILTER \<or> t = TK_QNUMBER \<or> t = TK_SPACE \<or> t = TK_ILLEGAL"

text \<open>The type that goes to the parser, \<open>None\<close> for an unrecognized token.\<close>

definition token_type :: "kwtable \<Rightarrow> (tk \<Rightarrow> tk) \<Rightarrow> cstring \<Rightarrow> tk option \<Rightarrow> tk \<Rightarrow> tk option" where
  "token_type kw fallback zSql lastTokenParsed t =
     (if \<not> last_tokens t then Some t
      else if t = TK_WINDOW then Some (analyzeWindowKeyword kw fallback (drop 6 zSql))
      else if t = TK_OVER then Some (analyzeOverKeyword kw fallback (drop 4 zSql) lastTokenParsed)
      else if t = TK_FILTER then Some (analyzeFilterKeyword kw fallback (drop 6 zSql) lastTokenParsed)
      else if t \<noteq> TK_QNUMBER then None
      else Some t)"

definition unrecognized :: "cstring \<Rightarrow> cstring" where
  "unrecognized x = bytes ''unrecognized token: \"'' @ x @ [0x22]"

type_synonym 'e parser = "tk \<Rightarrow> cstring \<Rightarrow> nat \<Rightarrow> 'e Parse \<Rightarrow> 'e Parse"

text \<open>The calls of the parser that are still due at the end of the text.\<close>

definition phase :: "tk option \<Rightarrow> nat" where
  "phase lastTokenParsed = (if lastTokenParsed = Some TK_EOF then 0 else if lastTokenParsed = Some TK_SEMI then 1 else 2)"

lemma token_progress:
  assumes "sqlite3GetToken kw z = (n, t)" "\<not> (last_tokens t \<and> char_at z 0 = 0)"
  shows "char_at z 0 \<noteq> 0 \<and> 1 \<le> n \<and> n \<le> zlen z \<and> length (drop n z) < length z"
proof -
  have c: "char_at z 0 \<noteq> 0" using assms sqlite3GetToken_end [of z kw] by (auto simp: last_tokens_def)
  then show ?thesis using sqlite3GetToken_length [OF assms(1) c] token_shorter [OF assms(1) c] by simp
qed

function parse_loop ::
  "kwtable \<Rightarrow> (tk \<Rightarrow> tk) \<Rightarrow> 'e parser \<Rightarrow> (nat \<Rightarrow> bool) \<Rightarrow> bool \<Rightarrow> nat \<Rightarrow> int \<Rightarrow> tk option \<Rightarrow> cstring \<Rightarrow> 'e Parse \<Rightarrow> cstring \<times> 'e Parse"
where
  "parse_loop kw fallback parser intr oom k mxSqlLen lastTokenParsed zSql p =
     (let (n, t) = sqlite3GetToken kw zSql; mx = mxSqlLen - int n
      in if mx < 0 then (zSql, p\<lparr>rc := SQLITE_TOOBIG, nErr := nErr p + 1\<rparr>)
         else if last_tokens t \<and> intr k then (zSql, p\<lparr>rc := SQLITE_INTERRUPT, nErr := nErr p + 1\<rparr>)
         else if t = TK_SPACE then parse_loop kw fallback parser intr oom (k + 1) mx lastTokenParsed (drop n zSql) p
         else if last_tokens t \<and> char_at zSql 0 = 0 then
           (if lastTokenParsed = Some TK_EOF then (zSql, p)
            else
              let t = (if lastTokenParsed = Some TK_SEMI then TK_EOF else TK_SEMI); p = parser t zSql 0 p
              in if rc p \<noteq> SQLITE_OK then (zSql, p) else parse_loop kw fallback parser intr oom (k + 1) mx (Some t) zSql p)
         else
           case token_type kw fallback zSql lastTokenParsed t of
             None \<Rightarrow> (zSql, sqlite3ErrorMsg oom (unrecognized (take n zSql)) p)
           | Some t' \<Rightarrow>
               (let p = parser t' zSql n p
                in if rc p \<noteq> SQLITE_OK then (drop n zSql, p)
                   else parse_loop kw fallback parser intr oom (if last_tokens t then k + 1 else k) mx (Some t') (drop n zSql) p))"
  by pat_completeness auto
termination
proof (relation "measure (\<lambda>(kw, fallback, parser, intr, oom, k, mx, l, z, p). 3 * length z + phase l)", goal_cases)
  case 1
  show ?case by simp
next
  case (2 kw fallback parser intr oom k mx l z p x n t m)
  then have "sqlite3GetToken kw z = (n, TK_SPACE)" by simp
  then have "length (drop n z) < length z" using token_shorter space_token by blast
  then show ?case by simp
next
  case (3 kw fallback parser intr oom k mx l z p x n t m t' p')
  then show ?case by (simp add: phase_def)
next
  case (4 kw fallback parser intr oom k mx l z p x n t m t' p')
  then have "sqlite3GetToken kw z = (n, t)" by simp
  then have "length (drop n z) < length z" using token_progress 4 by blast
  moreover have "phase (Some t') \<le> 2" by (simp add: phase_def)
  ultimately show ?case by simp
qed

declare parse_loop.simps [simp del]

text \<open>The end of the run: the result code, the message, and the number of errors that is returned.\<close>

definition finish_parse :: "bool \<Rightarrow> cstring \<times> 'e Parse \<Rightarrow> nat \<times> 'e Parse" where
  "finish_parse oom r =
     (let (zSql, p) = r;
          p = (if mallocFailed p then p\<lparr>rc := SQLITE_NOMEM\<rparr> else p);
          failed = (zErrMsg p \<noteq> None \<or> rc p \<noteq> SQLITE_OK \<and> rc p \<noteq> SQLITE_DONE);
          p = (if failed \<and> zErrMsg p = None then
                 (let (z, p) = sqlite3VMPrintf oom (sqlite3ErrStr (rc p)) p in p\<lparr>zErrMsg := z\<rparr>)
               else p)
      in (if failed then 1 else 0, p\<lparr>zTail := zSql\<rparr>))"

definition sqlite3RunParser ::
  "kwtable \<Rightarrow> (tk \<Rightarrow> tk) \<Rightarrow> 'e parser \<Rightarrow> ('e Parse \<Rightarrow> 'e option) \<Rightarrow> (nat \<Rightarrow> bool) \<Rightarrow> bool \<Rightarrow> int \<Rightarrow> cstring \<Rightarrow> 'e Parse \<Rightarrow> nat \<times> 'e Parse"
where
  "sqlite3RunParser kw fallback parser pinit intr oom mxSqlLen zSql p =
     (let p = p\<lparr>rc := SQLITE_OK, zTail := zSql\<rparr>
      in case pinit p of
           None \<Rightarrow> (SQLITE_NOMEM, if bBenignMalloc p then p else p\<lparr>mallocFailed := True\<rparr>)
         | Some e \<Rightarrow> finish_parse oom (parse_loop kw fallback parser intr oom 0 mxSqlLen None zSql (p\<lparr>engine := e\<rparr>)))"

section \<open>The tokens of a text\<close>

text \<open>Every token with the text at its first character and its length.\<close>

function lex :: "kwtable \<Rightarrow> cstring \<Rightarrow> (tk \<times> cstring \<times> nat) list" where
  "lex kw z = (if char_at z 0 = 0 then [] else let (n, t) = sqlite3GetToken kw z in (t, z, n) # lex kw (drop n z))"
  by pat_completeness auto
termination
proof (relation "measure (\<lambda>(kw, z). length z)", goal_cases)
  case 1
  show ?case by simp
next
  case (2 kw z x n t)
  then show ?case using token_shorter [of kw z n t] by simp
qed

declare lex.simps [simp del]

lemma zlen_drop: "n \<le> zlen z \<Longrightarrow> takeWhile (\<lambda>c. c \<noteq> 0) z = take n z @ takeWhile (\<lambda>c. c \<noteq> 0) (drop n z) \<and> zlen (drop n z) = zlen z - n \<and>
    dropWhile (\<lambda>c. c \<noteq> 0) (drop n z) = dropWhile (\<lambda>c. c \<noteq> 0) z"
proof -
  assume n: "n \<le> zlen z"
  have a: "take n (takeWhile (\<lambda>c. c \<noteq> 0) z) = take n z"
    using n by (metis takeWhile_eq_take take_take min.absorb1 zlen_def)
  have "c \<noteq> 0" if "c \<in> set (take n (takeWhile (\<lambda>c. c \<noteq> 0) z))" for c
    using set_takeWhileD [OF in_set_takeD [OF that]] by simp
  then have nz: "\<forall>c\<in>set (take n z). c \<noteq> 0" unfolding a by blast
  have t: "takeWhile (\<lambda>c. c \<noteq> 0) z = take n z @ takeWhile (\<lambda>c. c \<noteq> 0) (drop n z)"
    using takeWhile_append2 [of "take n z" "\<lambda>c. c \<noteq> 0" "drop n z"] nz by simp
  moreover have "dropWhile (\<lambda>c. c \<noteq> 0) (take n z @ drop n z) = dropWhile (\<lambda>c. c \<noteq> 0) (drop n z)"
    using nz by (intro dropWhile_append2) simp
  moreover have "zlen (drop n z) = zlen z - n"
    using arg_cong [OF t, of length] n zlen_le [of z] by (simp add: zlen_def)
  ultimately show ?thesis by simp
qed

lemma lex_end: "char_at z 0 = 0 \<Longrightarrow> lex kw z = []"
  by (simp add: lex.simps [of kw z])

lemma lex_step: "char_at z 0 \<noteq> 0 \<Longrightarrow> sqlite3GetToken kw z = (n, t) \<Longrightarrow> lex kw z = (t, z, n) # lex kw (drop n z)"
  by (simp add: lex.simps [of kw z])

lemma lex_tile: "concat (map (\<lambda>(t, x, n). take n x) (lex kw z)) = takeWhile (\<lambda>c. c \<noteq> 0) z"
proof (induction kw z rule: lex.induct)
  case (1 kw z)
  show ?case
  proof (cases "char_at z 0 = 0")
    case True
    then have "takeWhile (\<lambda>c. c \<noteq> 0) z = []" by (cases z) (simp_all add: char_at_def)
    then show ?thesis using True by (simp add: lex_end)
  next
    case False
    obtain n t where g: "sqlite3GetToken kw z = (n, t)" by fastforce
    have n: "n \<le> zlen z" using sqlite3GetToken_length [OF g False] by simp
    have "lex kw z = (t, z, n) # lex kw (drop n z)" by (rule lex_step [OF False g])
    then show ?thesis using "1.IH" [OF False g [symmetric] refl] zlen_drop [OF n] by simp
  qed
qed



section \<open>What the parser receives\<close>

text \<open>The tokens other than blanks and comments, and what the look-ahead sees of them.\<close>

definition significant :: "kwtable \<Rightarrow> cstring \<Rightarrow> (tk \<times> cstring \<times> nat) list" where
  "significant kw z = filter (\<lambda>(t, x, n). t \<noteq> TK_SPACE) (lex kw z)"

definition peek :: "(tk \<Rightarrow> tk) \<Rightarrow> (tk \<times> cstring \<times> nat) list \<Rightarrow> tk" where
  "peek fallback ts = as_id fallback (case ts of [] \<Rightarrow> TK_ILLEGAL | (t, x, n) # ts \<Rightarrow> t)"

text \<open>The keywords of window functions are keywords only in their context: \<open>WINDOW\<close> before a name and \<open>AS\<close>,
  \<open>OVER\<close> after a parenthesis and before a name or a parenthesis, \<open>FILTER\<close> between parentheses.\<close>

definition in_context :: "(tk \<Rightarrow> tk) \<Rightarrow> tk option \<Rightarrow> tk \<Rightarrow> (tk \<times> cstring \<times> nat) list \<Rightarrow> tk" where
  "in_context fallback prev t ts =
     (if t = TK_WINDOW then (if peek fallback ts = TK_ID \<and> peek fallback (tl ts) = TK_AS then TK_WINDOW else TK_ID)
      else if t = TK_OVER then (if prev = Some TK_RP \<and> peek fallback ts \<in> {TK_LP, TK_ID} then TK_OVER else TK_ID)
      else if t = TK_FILTER then (if prev = Some TK_RP \<and> peek fallback ts = TK_LP then TK_FILTER else TK_ID)
      else t)"

text \<open>The parser gets the tokens one by one, a semicolon if the last one is none, and the end of
  the input; an unrecognized token, and an error of the parser, end the run.\<close>

fun feed :: "(tk \<Rightarrow> tk) \<Rightarrow> 'e parser \<Rightarrow> bool \<Rightarrow> cstring \<Rightarrow> tk option \<Rightarrow> (tk \<times> cstring \<times> nat) list \<Rightarrow> 'e Parse \<Rightarrow> cstring \<times> 'e Parse" where
  "feed fallback parser oom rest prev [] p =
     (let p = (if prev = Some TK_SEMI then p else parser TK_SEMI rest 0 p)
      in (rest, if prev \<noteq> Some TK_SEMI \<and> rc p \<noteq> SQLITE_OK then p else parser TK_EOF rest 0 p))"
| "feed fallback parser oom rest prev ((t, x, n) # ts) p =
     (if t = TK_ILLEGAL then (x, sqlite3ErrorMsg oom (unrecognized (take n x)) p)
      else
        let t' = in_context fallback prev t ts; p = parser t' x n p
        in if rc p \<noteq> SQLITE_OK then (drop n x, p) else feed fallback parser oom rest (Some t') ts p)"

text \<open>What the driver needs of the generated keyword table.\<close>

definition keyword_table :: "kwtable \<Rightarrow> bool" where
  "keyword_table kw \<longleftrightarrow>
     (\<forall>x t. kw x = Some t \<longrightarrow> t \<noteq> TK_EOF \<and> (t = TK_WINDOW \<or> t = TK_FILTER \<longrightarrow> length x = 6) \<and> (t = TK_OVER \<longrightarrow> length x = 4))"

lemma significant_end: "char_at z 0 = 0 \<Longrightarrow> significant kw z = []"
  by (simp add: significant_def lex_end)

lemma significant_step:
  "char_at z 0 \<noteq> 0 \<Longrightarrow> sqlite3GetToken kw z = (n, t) \<Longrightarrow>
     significant kw z = (if t = TK_SPACE then significant kw (drop n z) else (t, z, n) # significant kw (drop n z))"
  by (simp add: significant_def lex_step)

lemma getToken_peek:
  "fst (getToken kw fallback z) = peek fallback (significant kw z) \<and>
   significant kw (snd (getToken kw fallback z)) = tl (significant kw z)"
proof (induction kw fallback z rule: getToken.induct)
  case (1 kw fallback z)
  obtain n t where g: "sqlite3GetToken kw z = (n, t)" by fastforce
  show ?case
  proof (cases "char_at z 0 = 0")
    case True
    then have "getToken kw fallback z = (as_id fallback TK_ILLEGAL, z)"
      using sqlite3GetToken_end [OF True, of kw] getToken.simps [of kw fallback z] by simp
    then show ?thesis using True by (simp add: significant_end peek_def)
  next
    case False
    show ?thesis
    proof (cases "t = TK_SPACE")
      case True
      then have "getToken kw fallback z = getToken kw fallback (drop n z)" using g getToken.simps [of kw fallback z] by simp
      then show ?thesis using "1.IH" [OF g [symmetric] refl True] True significant_step [OF False g] by simp
    next
      case ne: False
      then have "getToken kw fallback z = (as_id fallback t, drop n z)" using g getToken.simps [of kw fallback z] by simp
      then show ?thesis using ne significant_step [OF False g] by (simp add: peek_def)
    qed
  qed
qed

lemma analyze_peek:
  "analyzeWindowKeyword kw fallback z = in_context fallback l TK_WINDOW (significant kw z)"
  "analyzeOverKeyword kw fallback z l = in_context fallback l TK_OVER (significant kw z)"
  "analyzeFilterKeyword kw fallback z l = in_context fallback l TK_FILTER (significant kw z)"
proof -
  obtain t z' where g: "getToken kw fallback z = (t, z')" by fastforce
  obtain t' z'' where g': "getToken kw fallback z' = (t', z'')" by fastforce
  have "t = peek fallback (significant kw z)" "t' = peek fallback (tl (significant kw z))"
    using getToken_peek [of kw fallback z] getToken_peek [of kw fallback z'] g g' by simp_all
  then show
    "analyzeWindowKeyword kw fallback z = in_context fallback l TK_WINDOW (significant kw z)"
    "analyzeOverKeyword kw fallback z l = in_context fallback l TK_OVER (significant kw z)"
    "analyzeFilterKeyword kw fallback z l = in_context fallback l TK_FILTER (significant kw z)"
    using g g' by (simp_all add: analyzeWindowKeyword_def analyzeOverKeyword_def analyzeFilterKeyword_def in_context_def)
qed

lemma token_type_context:
  assumes "keyword_table kw" "sqlite3GetToken kw z = (n, t)" "char_at z 0 \<noteq> 0" "t \<noteq> TK_SPACE"
  shows "token_type kw fallback z l t = (if t = TK_ILLEGAL then None else Some (in_context fallback l t (significant kw (drop n z))))"
    and "t \<noteq> TK_ILLEGAL \<Longrightarrow> in_context fallback l t ts \<noteq> TK_EOF"
proof -
  have ok: "lexeme t (take n z) \<or> kw (take n z) = Some t" "n \<le> zlen z"
    using sqlite3GetToken_ok [OF assms(3), of kw] assms(2) by (auto simp: tok_ok_def)
  have len: "length (take n z) = n" using ok(2) zlen_le [of z] by simp
  have kw: "t = TK_WINDOW \<or> t = TK_FILTER \<longrightarrow> n = 6" "t = TK_OVER \<longrightarrow> n = 4" "t \<noteq> TK_EOF"
    using ok(1) assms(1) len unfolding keyword_table_def by force+
  show "token_type kw fallback z l t = (if t = TK_ILLEGAL then None else Some (in_context fallback l t (significant kw (drop n z))))"
  proof (cases "last_tokens t")
    case False
    then show ?thesis by (simp add: token_type_def last_tokens_def in_context_def)
  next
    case True
    then consider "t = TK_WINDOW" | "t = TK_OVER" | "t = TK_FILTER" | "t = TK_QNUMBER" | "t = TK_ILLEGAL"
      using assms(4) by (auto simp: last_tokens_def)
    then show ?thesis
    proof cases
      case 1
      then show ?thesis using kw(1) True analyze_peek(1) [of kw fallback "drop 6 z" l] by (simp add: token_type_def)
    next
      case 2
      then show ?thesis using kw(2) True analyze_peek(2) [of kw fallback "drop 4 z" l] by (simp add: token_type_def)
    next
      case 3
      then show ?thesis using kw(1) True analyze_peek(3) [of kw fallback "drop 6 z" l] by (simp add: token_type_def)
    qed (use True in \<open>simp_all add: token_type_def in_context_def\<close>)
  qed
  show "t \<noteq> TK_ILLEGAL \<Longrightarrow> in_context fallback l t ts \<noteq> TK_EOF" using kw(3) by (simp add: in_context_def)
qed

lemma parse_loop_end:
  assumes "char_at z 0 = 0" "0 \<le> mx" "\<not> intr k"
  shows "parse_loop kw fallback parser intr oom k mx l z p =
    (if l = Some TK_EOF then (z, p)
     else let t = (if l = Some TK_SEMI then TK_EOF else TK_SEMI); p = parser t z 0 p
          in if rc p \<noteq> SQLITE_OK then (z, p) else parse_loop kw fallback parser intr oom (k + 1) mx (Some t) z p)"
  using sqlite3GetToken_end [OF assms(1), of kw] assms by (subst parse_loop.simps) (simp add: last_tokens_def)

lemma parse_loop_end_feed:
  assumes "char_at z 0 = 0" "0 \<le> mx" "\<forall>k. \<not> intr k" "l \<noteq> Some TK_EOF"
  shows "parse_loop kw fallback parser intr oom k mx l z p = feed fallback parser oom z l [] p"
proof -
  note e = parse_loop_end [OF assms(1,2) spec [OF assms(3)]]
  show ?thesis using assms(4) by (cases "l = Some TK_SEMI") (simp_all add: e Let_def)
qed

lemma parse_loop_feed:
  assumes "keyword_table kw" "\<forall>k. \<not> intr k" "int (zlen z) \<le> mx" "l \<noteq> Some TK_EOF"
  shows "parse_loop kw fallback parser intr oom k mx l z p =
    feed fallback parser oom (dropWhile (\<lambda>c. c \<noteq> 0) z) l (significant kw z) p"
  using assms(3,4)
proof (induction "length z" arbitrary: z k mx l p rule: less_induct)
  case less
  show ?case
  proof (cases "char_at z 0 = 0")
    case True
    then have "dropWhile (\<lambda>c. c \<noteq> 0) z = z" by (cases z) (simp_all add: char_at_def)
    moreover have "0 \<le> mx" using less.prems(1) by linarith
    ultimately show ?thesis
      unfolding significant_end [OF True] using parse_loop_end_feed [OF True _ assms(2) less.prems(2)] by metis
  next
    case False
    obtain n t where g: "sqlite3GetToken kw z = (n, t)" by fastforce
    have n: "n \<le> zlen z" using sqlite3GetToken_length [OF g False] by simp
    have mx: "\<not> mx - int n < 0" using n less.prems(1) by linarith
    have mx': "int (zlen (drop n z)) \<le> mx - int n" using zlen_drop [OF n] n less.prems(1) by (simp add: of_nat_diff)
    note IH = less.hyps [OF token_shorter [OF g False] mx', unfolded zlen_drop [OF n, THEN conjunct2, THEN conjunct2]]
    note e = parse_loop.simps [of kw fallback parser intr oom k mx l z p]
    show ?thesis
    proof (cases "t = TK_SPACE")
      case True
      then show ?thesis using e g mx assms(2) IH [OF less.prems(2)] significant_step [OF False g] by (simp add: Let_def)
    next
      case ne: False
      let ?ts = "significant kw (drop n z)"
      have s: "significant kw z = (t, z, n) # ?ts" using significant_step [OF False g] ne by simp
      note tt = token_type_context [OF assms(1) g False ne, of fallback l]
      let ?t = "in_context fallback l t ?ts"
      show ?thesis
      proof (cases "t = TK_ILLEGAL")
        case True
        then show ?thesis using e g mx assms(2) False tt(1) s by (simp add: Let_def)
      next
        case leg: False
        have "Some ?t \<noteq> Some TK_EOF" using tt(2) [OF leg] by simp
        note IH = IH [OF this]
        show ?thesis using e g mx assms(2) False ne leg tt(1) s IH by (simp add: Let_def)
      qed
    qed
  qed
qed

lemma engine_set_error [simp]: "engine (set_error m p) = engine p"
  by (simp add: set_error_def)

lemma engine_OomFault [simp]: "engine (sqlite3OomFault p) = engine p"
  by (simp add: sqlite3OomFault_def)

lemma engine_VMPrintf [simp]: "engine (snd (sqlite3VMPrintf oom x p)) = engine p"
  by (simp add: sqlite3VMPrintf_def)

lemma engine_ErrorMsg [simp]: "engine (sqlite3ErrorMsg oom x p) = engine p"
  by (simp add: sqlite3ErrorMsg_def case_prod_beta Let_def)

lemma engine_finish [simp]: "engine (snd (finish_parse oom r)) = engine (snd r)"
  by (simp add: finish_parse_def Let_def case_prod_beta)

definition calls_left :: "tk option \<Rightarrow> cstring \<Rightarrow> nat" where
  "calls_left l z = zlen z + (if zlen z = 0 then phase l else 2)"

lemma zlen_0_iff: "zlen z = 0 \<longleftrightarrow> char_at z 0 = 0"
  by (cases z) (simp_all add: zlen_def char_at_def)

lemma calls_left_token:
  assumes "char_at z 0 \<noteq> 0" "1 \<le> n" "n \<le> zlen z"
  shows "calls_left l (drop n z) + 1 \<le> calls_left l' z"
proof -
  have "phase l \<le> 2" by (simp add: phase_def)
  moreover have "zlen (drop n z) = zlen z - n" using zlen_drop [OF assms(3)] by blast
  ultimately show ?thesis using assms zlen_0_iff [of z] by (simp add: calls_left_def) linarith
qed

lemma parse_loop_calls:
  assumes calls: "\<forall>t y n p. calls (engine (parser t y n p)) \<le> calls (engine p) + (1 :: nat)"
  shows "calls (engine (snd (parse_loop kw fallback parser intr oom k mx l z p))) \<le> calls (engine p) + calls_left l z"
proof (induction "3 * length z + phase l" arbitrary: z k mx l p rule: less_induct)
  case less
  obtain n t where g: "sqlite3GetToken kw z = (n, t)" by fastforce
  note e = parse_loop.simps [of kw fallback parser intr oom k mx l z p, unfolded g Let_def case_prod_conv]
  have step: "calls (engine (snd (parse_loop kw fallback parser intr oom k' mx' (Some t') z' (parser t' z m p)))) \<le> calls (engine p) + calls_left l z"
    if "3 * length z' + phase (Some t') < 3 * length z + phase l" "calls_left (Some t') z' + 1 \<le> calls_left l z" for k' mx' t' z' m
    using less [OF that(1), of k' mx' "parser t' z m p"] that(2) calls [rule_format, of t' z m p] by linarith
  have one: "calls (engine (parser t' z m p)) \<le> calls (engine p) + calls_left l z" if "1 \<le> calls_left l z" for t' m
    using calls [rule_format, of t' z m p] that by linarith
  consider "mx - int n < 0 \<or> last_tokens t \<and> intr k"
    | "\<not> (mx - int n < 0)" "\<not> (last_tokens t \<and> intr k)" "t = TK_SPACE"
    | "\<not> (mx - int n < 0)" "\<not> (last_tokens t \<and> intr k)" "t \<noteq> TK_SPACE" "last_tokens t \<and> char_at z 0 = 0"
    | "\<not> (mx - int n < 0)" "\<not> (last_tokens t \<and> intr k)" "t \<noteq> TK_SPACE" "\<not> (last_tokens t \<and> char_at z 0 = 0)" by blast
  then show ?case
  proof cases
    case 1
    then show ?thesis unfolding e by auto
  next
    case 2
    have c: "char_at z 0 \<noteq> 0" using g 2(3) space_token by blast
    have n: "1 \<le> n" "n \<le> zlen z" using sqlite3GetToken_length [OF g c] by auto
    have "calls (engine (snd (parse_loop kw fallback parser intr oom (k + 1) (mx - int n) l (drop n z) p))) \<le> calls (engine p) + calls_left l (drop n z)"
      using less token_shorter [OF g c] by simp
    also have "\<dots> \<le> calls (engine p) + calls_left l z" using calls_left_token [OF c n, of l l] by simp
    finally show ?thesis unfolding e using 2 by simp
  next
    case 3
    have z: "calls_left l' z = phase l'" for l' using 3(4) zlen_0_iff [of z] by (simp add: calls_left_def)
    show ?thesis
    proof (cases "l = Some TK_EOF")
      case True
      then show ?thesis unfolding e using 3 by simp
    next
      case False
      let ?t = "if l = Some TK_SEMI then TK_EOF else TK_SEMI"
      have ph: "phase (Some ?t) + 1 \<le> phase l" using False by (simp add: phase_def)
      have "parse_loop kw fallback parser intr oom k mx l z p = (if rc (parser ?t z 0 p) \<noteq> SQLITE_OK then (z, parser ?t z 0 p)
          else parse_loop kw fallback parser intr oom (k + 1) (mx - int n) (Some ?t) z (parser ?t z 0 p))"
        unfolding e by (simp only: if_not_P [OF 3(1)] if_not_P [OF 3(2)] if_not_P [OF 3(3)] if_P [OF 3(4)] if_not_P [OF False])
      then show ?thesis using step [of z ?t "k + 1" "mx - int n" 0] one [of ?t 0] ph z
        by (cases "rc (parser ?t z 0 p) = SQLITE_OK") simp_all
    qed
  next
    case 4
    note pr = token_progress [OF g 4(4)]
    have ph: "phase (Some t') \<le> 2" for t' by (simp add: phase_def)
    have cl: "calls_left (Some t') (drop n z) + 1 \<le> calls_left l z" for t' using calls_left_token pr by blast
    have "3 * length (drop n z) + phase (Some t') < 3 * length z + phase l" for t' using pr ph [of t'] by linarith
    note st = step [OF this cl]
    note ee = e [unfolded if_not_P [OF 4(1)] if_not_P [OF 4(2)] if_not_P [OF 4(3)] if_not_P [OF 4(4)]]
    have o1: "1 \<le> calls_left l z" using cl [of TK_EOF] by linarith
    show ?thesis
    proof (cases "token_type kw fallback z l t")
      case None
      then show ?thesis unfolding ee by simp
    next
      case (Some t')
      then show ?thesis unfolding ee using st one [OF o1] by simp
    qed
  qed
qed

text \<open>C3. The driver of the parser refines the abstract reading of an SQL text. When no interrupt comes and
  the text is within the length limit, \<open>sqlite3RunParser\<close> does to the parser exactly what
  \<open>feed\<close> says: the tokens of the text without blanks and comments, in their order, with \<open>WINDOW\<close>, \<open>OVER\<close> and \<open>FILTER\<close>
  turned into identifiers out of their context (decided on the following tokens, where the code reads the
  text again), then a semicolon unless the last token was one, then the end of the input; the run ends at the first
  error of the parser and at the first unrecognized token, which is the error message. The tokens, with the
  blanks and comments between them, are the text: none of its bytes is skipped or read twice.\<close>

theorem sqlite3RunParser_feeds:
  assumes "keyword_table kw" "\<forall>k. \<not> intr k" "int (zlen z) \<le> mxSqlLen"
    and "pinit (p\<lparr>rc := SQLITE_OK, zTail := z\<rparr>) = Some e"
  shows "sqlite3RunParser kw fallback parser pinit intr oom mxSqlLen z p =
      finish_parse oom (feed fallback parser oom (dropWhile (\<lambda>c. c \<noteq> 0) z) None (significant kw z)
        (p\<lparr>rc := SQLITE_OK, zTail := z, engine := e\<rparr>)) \<and>
    concat (map (\<lambda>(t, x, n). take n x) (lex kw z)) = takeWhile (\<lambda>c. c \<noteq> 0) z"
  using assms(4) lex_tile [of kw z] parse_loop_feed [OF assms(1,2,3), where l = None and parser = parser and fallback = fallback
      and p = "p\<lparr>rc := SQLITE_OK, zTail := z, engine := e\<rparr>" and k = 0 and oom = oom]
  by (simp add: sqlite3RunParser_def)

text \<open>A keyword table, and a parser that records the types it gets.\<close>

definition demo_keywords :: kwtable where
  "demo_keywords x = (if map sqlite3Tolower x = bytes ''over'' then Some TK_OVER else if map sqlite3Tolower x = bytes ''as'' then Some TK_AS else None)"

definition demo_parser :: "tk list parser" where
  "demo_parser t x n p = p\<lparr>engine := engine p @ [t]\<rparr>"

definition demo_parse :: "tk list Parse" where
  "demo_parse = \<lparr>rc = 0, nErr = 0, zErrMsg = None, zTail = [], mallocFailed = False, suppressErr = False, bBenignMalloc = False, engine = []\<rparr>"

lemma demo_keyword_table: "keyword_table demo_keywords"
proof -
  have "length x = length y" if "map sqlite3Tolower x = bytes y" for x y using arg_cong [OF that, of length] by (simp add: bytes_def)
  then have "length x = 4" if "map sqlite3Tolower x = bytes ''over''" for x using that by fastforce
  then show ?thesis by (auto simp: keyword_table_def demo_keywords_def split: if_splits)
qed

theorem sqlite3RunParser_feeds_witness:
  "sqlite3RunParser demo_keywords (\<lambda>t. t) demo_parser (\<lambda>p. Some []) (\<lambda>k. False) False 1000000 [0x29, 0x20, 0x4f, 0x56, 0x45, 0x52] demo_parse =
     finish_parse False (feed (\<lambda>t. t) demo_parser False [] None (significant demo_keywords [0x29, 0x20, 0x4f, 0x56, 0x45, 0x52])
       (demo_parse\<lparr>rc := SQLITE_OK, zTail := [0x29, 0x20, 0x4f, 0x56, 0x45, 0x52], engine := []\<rparr>))"
  using sqlite3RunParser_feeds [OF demo_keyword_table, where intr = "\<lambda>k. False" and z = "[0x29, 0x20, 0x4f, 0x56, 0x45, 0x52]"
      and mxSqlLen = 1000000 and pinit = "\<lambda>p. Some []" and p = demo_parse and e = "[]" and fallback = "\<lambda>t. t" and parser = demo_parser and oom = False] by (simp add: zlen_def)

text \<open>C19. The driver stops on every text, whatever the generated parser, the keyword table and the moments of
  interrupts are: it calls the parser at most twice more than the text has bytes, once for
  each token and then for the semicolon and the end of the input. \<open>calls\<close> counts the calls in the state of the
  parser.\<close>

theorem sqlite3RunParser_calls:
  assumes "\<forall>t y n p. calls (engine (parser t y n p)) \<le> calls (engine p) + (1 :: nat)"
    and "pinit (p\<lparr>rc := SQLITE_OK, zTail := z\<rparr>) = Some e"
  shows "calls (engine (snd (sqlite3RunParser kw fallback parser pinit intr oom mxSqlLen z p))) \<le> calls e + zlen z + 2"
proof -
  let ?p = "p\<lparr>rc := SQLITE_OK, zTail := z, engine := e\<rparr>"
  have "calls (engine (snd (parse_loop kw fallback parser intr oom 0 mxSqlLen None z ?p))) \<le> calls (engine ?p) + calls_left None z"
    by (rule parse_loop_calls [OF assms(1)])
  also have "\<dots> \<le> calls e + (zlen z + 2)" by (simp add: calls_left_def phase_def)
  finally show ?thesis using assms(2) by (simp add: sqlite3RunParser_def)
qed

theorem sqlite3RunParser_calls_witness:
  "length (engine (snd (sqlite3RunParser demo_keywords (\<lambda>t. t) demo_parser (\<lambda>p. Some []) (\<lambda>k. k = 3) False 50 [0x29, 0x3b] demo_parse))) \<le> 4"
  using sqlite3RunParser_calls [where calls = length and parser = demo_parser and pinit = "\<lambda>p. Some []" and p = demo_parse and z = "[0x29, 0x3b]"
      and e = "[]" and kw = demo_keywords and fallback = "\<lambda>t. t" and intr = "\<lambda>k. k = 3" and oom = False and mxSqlLen = 50]
  by (simp add: demo_parser_def zlen_def)

end
