(* ===== verification/Memdb.thy ===== *)
theory Memdb
  imports Chars Files "HOL-Library.Multiset"
begin

text \<open>
  The in-memory database file of \<open>memdb.c\<close>. A \<open>MemStore\<close> holds the content of a file and its
  lock counters; it may be shared by several open files (\<open>MemFile\<close>), which find it by name in the
  table \<open>memdb_g\<close>. The operations on one file take and return the file and its store; opening
  and closing work on the whole table \<open>MemFS\<close>, in which stores have addresses. Each operation
  runs under the mutex of its store, so that a run of the system is a sequence of operations.
  Sizes are natural numbers: 64-bit overflow would need a file of \<open>2 ^ 62\<close> bytes.
\<close>

section \<open>Stores and files\<close>

record MemStore =
  st_sz :: nat
  szAlloc :: nat
  szMax :: nat
  aData :: "u8 list"
  nMmap :: int
  fl_readonly :: bool
  fl_resizeable :: bool
  nRdLock :: int
  nWrLock :: int
  nRef :: int
  zFName :: "cstring option"

record MemFile =
  pStore :: nat
  eLock :: nat

definition SQLITE_LOCK_NONE :: nat where "SQLITE_LOCK_NONE = 0"
definition SQLITE_LOCK_SHARED :: nat where "SQLITE_LOCK_SHARED = 1"
definition SQLITE_LOCK_RESERVED :: nat where "SQLITE_LOCK_RESERVED = 2"
definition SQLITE_LOCK_PENDING :: nat where "SQLITE_LOCK_PENDING = 3"
definition SQLITE_LOCK_EXCLUSIVE :: nat where "SQLITE_LOCK_EXCLUSIVE = 4"

lemmas lock_defs = SQLITE_LOCK_NONE_def SQLITE_LOCK_SHARED_def SQLITE_LOCK_RESERVED_def
  SQLITE_LOCK_PENDING_def SQLITE_LOCK_EXCLUSIVE_def

section \<open>Reading and writing\<close>

text \<open>A read behind the end fills the buffer with zeros and copies what there is.\<close>

definition memdbRead :: "MemStore \<Rightarrow> nat \<Rightarrow> nat \<Rightarrow> (nat \<times> u8 list) option" where
  "memdbRead p iAmt iOfst =
     (if iOfst + iAmt > st_sz p then
        (if iOfst < st_sz p then
           (case get_bytes (aData p) iOfst (st_sz p - iOfst) of
              None \<Rightarrow> None
            | Some bs \<Rightarrow>
                map_option (\<lambda>zBuf. (SQLITE_IOERR_SHORT_READ, zBuf)) (put_bytes (replicate iAmt 0) 0 bs))
         else Some (SQLITE_IOERR_SHORT_READ, replicate iAmt 0))
      else map_option (\<lambda>bs. (SQLITE_OK, bs)) (get_bytes (aData p) iOfst iAmt))"

text \<open>\<open>realloc\<close> is the result of \<open>sqlite3Realloc\<close>: no value when it fails, else what the bytes of
  the block that were not copied from the old one hold, by index.\<close>

definition memdbEnlarge :: "(nat \<Rightarrow> u8) option \<Rightarrow> MemStore \<Rightarrow> nat \<Rightarrow> nat \<times> MemStore" where
  "memdbEnlarge realloc p newSz =
     (if \<not> fl_resizeable p \<or> nMmap p > 0 then (SQLITE_FULL, p)
      else if newSz > szMax p then (SQLITE_FULL, p)
      else
        let newSz = newSz * 2;
            newSz = (if newSz > szMax p then szMax p else newSz)
        in case realloc of
             None \<Rightarrow> (SQLITE_IOERR_NOMEM, p)
           | Some junk \<Rightarrow>
               (SQLITE_OK, p\<lparr>aData := take newSz (aData p) @ map junk [length (aData p)..<newSz], szAlloc := newSz\<rparr>))"

definition memdbWrite :: "(nat \<Rightarrow> u8) option \<Rightarrow> MemStore \<Rightarrow> u8 list \<Rightarrow> nat \<Rightarrow> (nat \<times> MemStore) option" where
  "memdbWrite realloc p z iOfst =
     (let iAmt = length z in
      if fl_readonly p then Some (SQLITE_IOERR_WRITE, p)
      else
        let (rc, p) =
          (if iOfst + iAmt > st_sz p \<and> iOfst + iAmt > szAlloc p then memdbEnlarge realloc p (iOfst + iAmt)
           else (SQLITE_OK, p))
        in if rc \<noteq> SQLITE_OK then Some (rc, p)
           else
             (case (if iOfst + iAmt > st_sz p then
                      (if iOfst > st_sz p
                       then map_option (\<lambda>a. p\<lparr>aData := a, st_sz := iOfst + iAmt\<rparr>)
                              (put_bytes (aData p) (st_sz p) (replicate (iOfst - st_sz p) 0))
                       else Some (p\<lparr>st_sz := iOfst + iAmt\<rparr>))
                    else Some p) of
                None \<Rightarrow> None
              | Some p \<Rightarrow> map_option (\<lambda>a. (SQLITE_OK, p\<lparr>aData := a\<rparr>)) (put_bytes (aData p) iOfst z)))"

definition memdbTruncate :: "MemStore \<Rightarrow> nat \<Rightarrow> nat \<times> MemStore" where
  "memdbTruncate p nSize =
     (if nSize > st_sz p then (SQLITE_CORRUPT, p) else (SQLITE_OK, p\<lparr>st_sz := nSize\<rparr>))"

definition memdbFileSize :: "MemStore \<Rightarrow> nat" where
  "memdbFileSize p = st_sz p"

text \<open>The size limit control: it returns the limit that is in force. The other controls do not
  change the store.\<close>

definition memdbFileControl_SIZE_LIMIT :: "MemStore \<Rightarrow> int \<Rightarrow> nat \<times> int \<times> MemStore" where
  "memdbFileControl_SIZE_LIMIT p iLimit =
     (let iLimit = (if iLimit < int (st_sz p) then (if iLimit < 0 then int (szMax p) else int (st_sz p)) else iLimit)
      in (SQLITE_OK, iLimit, p\<lparr>szMax := nat iLimit\<rparr>))"

definition memdbFetch :: "MemStore \<Rightarrow> nat \<Rightarrow> nat \<Rightarrow> nat option \<times> MemStore" where
  "memdbFetch p iOfst iAmt =
     (if iOfst + iAmt > st_sz p \<or> fl_resizeable p then (None, p)
      else (Some iOfst, p\<lparr>nMmap := nMmap p + 1\<rparr>))"

definition memdbUnfetch :: "MemStore \<Rightarrow> MemStore" where
  "memdbUnfetch p = p\<lparr>nMmap := nMmap p - 1\<rparr>"

section \<open>Locks\<close>

definition memdbLock :: "MemFile \<Rightarrow> MemStore \<Rightarrow> nat \<Rightarrow> nat \<times> MemFile \<times> MemStore" where
  "memdbLock pThis p lock =
     (if lock \<le> eLock pThis then (SQLITE_OK, pThis, p)
      else
        let (rc, p) =
          (if lock > SQLITE_LOCK_SHARED \<and> fl_readonly p then (SQLITE_READONLY, p)
           else if lock = SQLITE_LOCK_SHARED then
             (if nWrLock p > 0 then (SQLITE_BUSY, p) else (SQLITE_OK, p\<lparr>nRdLock := nRdLock p + 1\<rparr>))
           else if lock = SQLITE_LOCK_RESERVED \<or> lock = SQLITE_LOCK_PENDING then
             (if eLock pThis = SQLITE_LOCK_SHARED then
                (if nWrLock p > 0 then (SQLITE_BUSY, p) else (SQLITE_OK, p\<lparr>nWrLock := 1\<rparr>))
              else (SQLITE_OK, p))
           else
             (if nRdLock p > 1 then (SQLITE_BUSY, p)
              else if eLock pThis = SQLITE_LOCK_SHARED then (SQLITE_OK, p\<lparr>nWrLock := 1\<rparr>)
              else (SQLITE_OK, p)))
        in (rc, if rc = SQLITE_OK then pThis\<lparr>eLock := lock\<rparr> else pThis, p))"

definition memdbUnlock :: "MemFile \<Rightarrow> MemStore \<Rightarrow> nat \<Rightarrow> nat \<times> MemFile \<times> MemStore" where
  "memdbUnlock pThis p lock =
     (if lock \<ge> eLock pThis then (SQLITE_OK, pThis, p)
      else
        let p =
          (if lock = SQLITE_LOCK_SHARED then
             (if eLock pThis > SQLITE_LOCK_SHARED then p\<lparr>nWrLock := nWrLock p - 1\<rparr> else p)
           else
             (let p = (if eLock pThis > SQLITE_LOCK_SHARED then p\<lparr>nWrLock := nWrLock p - 1\<rparr> else p)
              in p\<lparr>nRdLock := nRdLock p - 1\<rparr>))
        in (SQLITE_OK, pThis\<lparr>eLock := lock\<rparr>, p))"

section \<open>Opening and closing\<close>

text \<open>The table of shared stores \<open>memdb_g\<close>, the stores by address, and the open files by handle.\<close>

record MemFS =
  apMemStore :: "nat list"
  stores :: "nat \<Rightarrow> MemStore option"
  files :: "nat \<Rightarrow> MemFile option"

definition new_store :: "nat \<Rightarrow> cstring option \<Rightarrow> int \<Rightarrow> MemStore" where
  "new_store mxMemdbSize name ref =
     \<lparr>st_sz = 0, szAlloc = 0, szMax = mxMemdbSize, aData = [], nMmap = 0, fl_readonly = False,
      fl_resizeable = True, nRdLock = 0, nWrLock = 0, nRef = ref, zFName = name\<rparr>"

definition strcmp_eq :: "cstring \<Rightarrow> cstring \<Rightarrow> bool" where
  "strcmp_eq a b \<longleftrightarrow> takeWhile (\<lambda>c. c \<noteq> 0) a = takeWhile (\<lambda>c. c \<noteq> 0) b"

definition find_store :: "MemFS \<Rightarrow> cstring \<Rightarrow> nat option" where
  "find_store fs zName =
     find (\<lambda>a. case stores fs a of
                 Some p \<Rightarrow> (case zFName p of Some n \<Rightarrow> strcmp_eq n zName | None \<Rightarrow> False)
               | None \<Rightarrow> False) (apMemStore fs)"

definition shared_name :: "cstring option \<Rightarrow> bool" where
  "shared_name zName =
     (case zName of None \<Rightarrow> False
      | Some z \<Rightarrow> sqlite3Strlen30 zName > 1 \<and> (char_at z 0 = 0x2f \<or> char_at z 0 = 0x5c))"

text \<open>\<open>malloc\<close> is the address of a new store, \<open>table_ok\<close> and \<open>mutex_ok\<close> tell whether the table can
  grow and a mutex can be made.\<close>

definition memdbOpen ::
  "nat option \<Rightarrow> bool \<Rightarrow> bool \<Rightarrow> nat \<Rightarrow> MemFS \<Rightarrow> cstring option \<Rightarrow> nat \<Rightarrow> nat \<times> MemFS" where
  "memdbOpen malloc table_ok mutex_ok mxMemdbSize fs zName fd =
     (if shared_name zName then
        (case find_store fs (the zName) of
           Some a \<Rightarrow>
             (SQLITE_OK, fs\<lparr>stores := (stores fs)(a := map_option (\<lambda>p. p\<lparr>nRef := nRef p + 1\<rparr>) (stores fs a)),
                           files := (files fs)(fd \<mapsto> \<lparr>pStore = a, eLock = 0\<rparr>)\<rparr>)
         | None \<Rightarrow>
             (case malloc of
                None \<Rightarrow> (SQLITE_NOMEM, fs)
              | Some a \<Rightarrow>
                  if \<not> table_ok then (SQLITE_NOMEM, fs)
                  else if \<not> mutex_ok then (SQLITE_NOMEM, fs)
                  else (SQLITE_OK, fs\<lparr>apMemStore := apMemStore fs @ [a],
                          stores := (stores fs)(a \<mapsto> new_store mxMemdbSize zName 1),
                          files := (files fs)(fd \<mapsto> \<lparr>pStore = a, eLock = 0\<rparr>)\<rparr>)))
      else
        (case malloc of
           None \<Rightarrow> (SQLITE_NOMEM, fs)
         | Some a \<Rightarrow> (SQLITE_OK, fs\<lparr>stores := (stores fs)(a \<mapsto> new_store mxMemdbSize None 0),
                       files := (files fs)(fd \<mapsto> \<lparr>pStore = a, eLock = 0\<rparr>)\<rparr>)))"

text \<open>The entry of a store that goes away is replaced by the last one.\<close>

fun drop_store :: "nat list \<Rightarrow> nat \<Rightarrow> nat list" where
  "drop_store [] a = []"
| "drop_store (x # xs) a =
     (if x = a then (if xs = [] then [] else last xs # butlast xs) else x # drop_store xs a)"

definition memdbClose :: "MemFS \<Rightarrow> nat \<Rightarrow> (nat \<times> MemFS) option" where
  "memdbClose fs fd =
     (case files fs fd of
        None \<Rightarrow> None
      | Some f \<Rightarrow>
          (case stores fs (pStore f) of
             None \<Rightarrow> None
           | Some p \<Rightarrow>
               let fs = (if zFName p \<noteq> None \<and> nRef p = 1
                         then fs\<lparr>apMemStore := drop_store (apMemStore fs) (pStore f)\<rparr> else fs);
                   p = p\<lparr>nRef := nRef p - 1\<rparr>
               in Some (SQLITE_OK, fs\<lparr>stores := (stores fs)(pStore f := if nRef p \<le> 0 then None else Some p),
                                     files := (files fs)(fd := None)\<rparr>)))"

section \<open>The content of a store\<close>

definition store_ok :: "MemStore \<Rightarrow> bool" where
  "store_ok p \<longleftrightarrow> szAlloc p = length (aData p) \<and> st_sz p \<le> szAlloc p"

definition memdb_content :: "MemStore \<Rightarrow> u8 list" where
  "memdb_content p = take (st_sz p) (aData p)"

lemma memdb_content_length: "store_ok p \<Longrightarrow> length (memdb_content p) = st_sz p"
  by (simp add: store_ok_def memdb_content_def)

lemma memdbEnlarge_ok:
  assumes "store_ok p" and "szAlloc p < n" and "memdbEnlarge realloc p n = (rc, p')"
  shows "store_ok p'" and "memdb_content p' = memdb_content p" and "st_sz p' = st_sz p"
    and "rc = SQLITE_OK \<Longrightarrow> n \<le> szAlloc p'" and "rc \<noteq> SQLITE_OK \<Longrightarrow> p' = p"
    and "rc = SQLITE_OK \<or> rc = SQLITE_FULL \<or> rc = SQLITE_IOERR_NOMEM"
  using assms by (auto simp: memdbEnlarge_def store_ok_def memdb_content_def Let_def
    split: if_splits option.splits)

lemma memdb_put:
  assumes "store_ok p" and "ofs + length bs \<le> szAlloc p"
  shows "\<exists>p'. (case (if ofs + length bs > st_sz p then
          (if ofs > st_sz p
           then map_option (\<lambda>a. p\<lparr>aData := a, st_sz := ofs + length bs\<rparr>)
                  (put_bytes (aData p) (st_sz p) (replicate (ofs - st_sz p) 0))
           else Some (p\<lparr>st_sz := ofs + length bs\<rparr>))
        else Some p) of
      None \<Rightarrow> None
    | Some p \<Rightarrow> map_option (\<lambda>a. (SQLITE_OK, p\<lparr>aData := a\<rparr>)) (put_bytes (aData p) ofs bs)) = Some (SQLITE_OK, p') \<and>
    store_ok p' \<and> memdb_content p' = overwrite (memdb_content p) ofs bs \<and>
    szAlloc p' = szAlloc p \<and> szMax p' = szMax p"
proof -
  have a: "szAlloc p = length (aData p)" "st_sz p \<le> length (aData p)" using assms(1) by (simp_all add: store_ok_def)
  consider "ofs + length bs \<le> st_sz p" | "ofs + length bs > st_sz p" "ofs \<le> st_sz p" | "ofs > st_sz p" by linarith
  then show ?thesis
  proof cases
    case 1
    have "min (st_sz p) ofs = ofs" "min (length (aData p)) ofs = ofs" "length (aData p) - (ofs + length bs) + (ofs + length bs) = length (aData p)"
      using a 1 by linarith+
    then show ?thesis using a 1
      by (simp add: put_bytes_def store_ok_def memdb_content_def overwrite_def drop_take)
  qed (use a assms(2) in \<open>auto simp: put_bytes_def store_ok_def memdb_content_def overwrite_def min_def\<close>)
qed

lemma memdbWrite_spec:
  assumes "store_ok p"
  obtains rc p' where "memdbWrite realloc p bs ofs = Some (rc, p')" and "store_ok p'"
    and "memdb_content p' = (if rc = SQLITE_OK then overwrite (memdb_content p) ofs bs else memdb_content p)"
    and "rc \<in> {SQLITE_OK, SQLITE_FULL, SQLITE_IOERR_NOMEM, SQLITE_IOERR_WRITE}"
    and "rc = SQLITE_OK \<Longrightarrow> ofs + length bs \<le> szAlloc p'"
proof -
  define q where "q = (if ofs + length bs > st_sz p \<and> ofs + length bs > szAlloc p
    then memdbEnlarge realloc p (ofs + length bs) else (SQLITE_OK, p))"
  obtain rc1 p1 where q: "q = (rc1, p1)" by force
  have p1: "store_ok p1" "memdb_content p1 = memdb_content p" "rc1 = SQLITE_OK \<Longrightarrow> ofs + length bs \<le> szAlloc p1"
    "rc1 \<in> {SQLITE_OK, SQLITE_FULL, SQLITE_IOERR_NOMEM}"
  proof -
    consider "ofs + length bs > szAlloc p" "memdbEnlarge realloc p (ofs + length bs) = (rc1, p1)"
      | "rc1 = SQLITE_OK" "p1 = p" "ofs + length bs \<le> szAlloc p"
      using assms q unfolding q_def store_ok_def by (metis le_less_trans not_le prod.inject)
    then have "store_ok p1 \<and> memdb_content p1 = memdb_content p \<and> (rc1 = SQLITE_OK \<longrightarrow> ofs + length bs \<le> szAlloc p1) \<and>
      rc1 \<in> {SQLITE_OK, SQLITE_FULL, SQLITE_IOERR_NOMEM}"
    proof cases
      case 1
      then show ?thesis using memdbEnlarge_ok [OF assms 1] by simp
    qed (use assms in simp)
    then show "store_ok p1" "memdb_content p1 = memdb_content p" "rc1 = SQLITE_OK \<Longrightarrow> ofs + length bs \<le> szAlloc p1"
      "rc1 \<in> {SQLITE_OK, SQLITE_FULL, SQLITE_IOERR_NOMEM}" by simp_all
  qed
  show ?thesis
  proof (cases "fl_readonly p")
    case True
    show ?thesis by (rule that [of SQLITE_IOERR_WRITE p]) (use True assms in \<open>simp_all add: memdbWrite_def\<close>)
  next
    case False
    show ?thesis
    proof (cases "rc1 = SQLITE_OK")
      case True
      obtain p' where p': "memdbWrite realloc p bs ofs = Some (SQLITE_OK, p')" "store_ok p'"
        "memdb_content p' = overwrite (memdb_content p1) ofs bs" "szAlloc p' = szAlloc p1"
        using memdb_put [OF p1(1) p1(3) [OF True]] False q True unfolding memdbWrite_def Let_def q_def by auto
      then show ?thesis using that [of SQLITE_OK p'] p1 True by simp
    next
      case rc1: False
      have "memdbWrite realloc p bs ofs = Some (rc1, p1)"
        using False q rc1 unfolding memdbWrite_def Let_def q_def by simp
      then show ?thesis using that [of rc1 p1] p1 rc1 by auto
    qed
  qed
qed

lemma memdbWrite_spec':
  assumes "store_ok p" and "memdbWrite realloc p bs ofs = Some (rc, p')"
  shows "store_ok p' \<and> memdb_content p' = (if rc = SQLITE_OK then overwrite (memdb_content p) ofs bs else memdb_content p)"
  using memdbWrite_spec [OF assms(1), of realloc bs ofs] assms(2) by (metis option.inject prod.inject)

lemma memdbRead_spec:
  assumes "store_ok p"
  shows "memdbRead p n ofs =
    Some (if ofs + n \<le> st_sz p then SQLITE_OK else SQLITE_IOERR_SHORT_READ, read_zeros (memdb_content p) ofs n)"
proof -
  have a: "szAlloc p = length (aData p)" "st_sz p \<le> length (aData p)" using assms by (simp_all add: store_ok_def)
  consider "ofs + n \<le> st_sz p" | "ofs + n > st_sz p" "ofs < st_sz p" | "ofs + n > st_sz p" "ofs \<ge> st_sz p" by linarith
  then show ?thesis using a
    by cases (auto simp: memdbRead_def get_bytes_def put_bytes_def read_zeros_def memdb_content_def drop_take min_def)
qed

lemma memdbWrite_limit:
  assumes "store_ok p" and "memdbWrite realloc p bs ofs = Some (SQLITE_OK, p')"
  shows "ofs + length bs \<le> max (szMax p) (szAlloc p)"
proof (rule ccontr)
  assume "\<not> ?thesis"
  then have "st_sz p < ofs + length bs" "szAlloc p < ofs + length bs" "szMax p < ofs + length bs"
    using assms(1) by (auto simp: store_ok_def)
  moreover from this(3) have "memdbEnlarge realloc p (ofs + length bs) = (SQLITE_FULL, p)"
    by (simp add: memdbEnlarge_def)
  ultimately show False using assms(2) by (simp add: memdbWrite_def Let_def split: if_splits)
qed

lemma memdbEnlarge_limit:
  assumes "memdbEnlarge realloc p n = (rc, p')"
  shows "p' = p \<or> szAlloc p' \<le> szMax p" "szMax p' = szMax p" "szMax p < n \<Longrightarrow> rc = SQLITE_FULL \<and> p' = p"
  using assms by (auto simp: memdbEnlarge_def Let_def split: if_splits option.splits)

lemma memdbWrite_alloc:
  assumes "store_ok p" and "memdbWrite realloc p bs ofs = Some (rc, p')"
  shows "szMax p' = szMax p" "szAlloc p' = szAlloc p \<or> szAlloc p < ofs + length bs \<and> ofs + length bs \<le> szAlloc p' \<and> szAlloc p' \<le> szMax p"
    "\<not> fl_readonly p \<Longrightarrow> max (szAlloc p) (szMax p) < ofs + length bs \<Longrightarrow> rc = SQLITE_FULL \<and> p' = p"
proof -
  have "szMax p' = szMax p \<and> (szAlloc p' = szAlloc p \<or> szAlloc p < ofs + length bs \<and> ofs + length bs \<le> szAlloc p' \<and> szAlloc p' \<le> szMax p) \<and>
    (\<not> fl_readonly p \<and> max (szAlloc p) (szMax p) < ofs + length bs \<longrightarrow> rc = SQLITE_FULL \<and> p' = p)"
  proof (cases "fl_readonly p \<or> ofs + length bs \<le> szAlloc p")
    case True
    show ?thesis
    proof (cases "fl_readonly p")
      case False
      then have l: "ofs + length bs \<le> szAlloc p" using True by simp
      then obtain p2 where "memdbWrite realloc p bs ofs = Some (SQLITE_OK, p2)" "szAlloc p2 = szAlloc p" "szMax p2 = szMax p"
        using memdb_put [OF assms(1) l] False by (auto simp: memdbWrite_def)
      then show ?thesis using assms(2) l by simp
    qed (use assms(2) in \<open>auto simp: memdbWrite_def\<close>)
  next
    case False
    obtain rc1 p1 where e: "memdbEnlarge realloc p (ofs + length bs) = (rc1, p1)" by force
    have g: "st_sz p < ofs + length bs" "szAlloc p < ofs + length bs" using False assms(1) by (auto simp: store_ok_def)
    note l = memdbEnlarge_limit [OF e] memdbEnlarge_ok [OF assms(1) g(2) e]
    show ?thesis
    proof (cases "rc1 = SQLITE_OK")
      case True
      then have n: "p1 \<noteq> p" "szAlloc p1 \<le> szMax p" using l(1,7) g(2) by auto
      moreover obtain p2 where "memdbWrite realloc p bs ofs = Some (SQLITE_OK, p2)" "szAlloc p2 = szAlloc p1" "szMax p2 = szMax p1"
        using memdb_put [OF l(4) l(7) [OF True]] False e g True by (auto simp: memdbWrite_def Let_def)
      ultimately show ?thesis using assms(2) l(2,3,7) True g(2) by auto
    next
      case rc: False
      then have "memdbWrite realloc p bs ofs = Some (rc1, p)" using False e g l(8) by (auto simp: memdbWrite_def Let_def)
      then show ?thesis using assms(2) l(3) by auto
    qed
  qed
  then show "szMax p' = szMax p" "szAlloc p' = szAlloc p \<or> szAlloc p < ofs + length bs \<and> ofs + length bs \<le> szAlloc p' \<and> szAlloc p' \<le> szMax p"
    "\<not> fl_readonly p \<Longrightarrow> max (szAlloc p) (szMax p) < ofs + length bs \<Longrightarrow> rc = SQLITE_FULL \<and> p' = p" by simp_all
qed

definition memdb_xRead :: "MemStore \<Rightarrow> nat \<Rightarrow> nat \<Rightarrow> (nat \<times> u8 list \<times> MemStore) option" where
  "memdb_xRead p n ofs = map_option (\<lambda>(rc, bs). (rc, bs, p)) (memdbRead p n ofs)"

interpretation memdb: byte_file store_ok memdb_content "\<lambda>p ofs bs. True" memdbWrite memdb_xRead
proof (unfold_locales)
  show "\<exists>rc s'. memdbWrite m s bs ofs = Some (rc, s')" if "store_ok s" for m s bs ofs
    using memdbWrite_spec [OF that, of m bs ofs] by metis
  show "store_ok s' \<and> (if rc = SQLITE_OK then memdb_content s' = overwrite (memdb_content s) ofs bs
      else memdb_content s' = memdb_content s \<or> (\<exists>k. memdb_content s' = overwrite (memdb_content s) ofs (take k bs)))"
    if "store_ok s" "memdbWrite m s bs ofs = Some (rc, s')" for m s bs ofs rc s'
    using memdbWrite_spec' [OF that] by simp
  show "\<exists>s'. memdb_xRead s n ofs = Some (SQLITE_OK, take n (drop ofs (memdb_content s)), s') \<and>
      store_ok s' \<and> memdb_content s' = memdb_content s"
    if "store_ok s" "ofs + n \<le> length (memdb_content s)" for s n ofs
    using that by (simp add: memdb_xRead_def memdbRead_spec memdb_content_length read_zeros_def)
qed

section \<open>Runs of the system\<close>

text \<open>One operation on the table. A new store gets an unused address; the callers ask for the locks
  in the order that \<open>memdbLock\<close> asserts, and close a file after unlocking it.\<close>

definition put_file :: "MemFS \<Rightarrow> nat \<Rightarrow> MemFile \<Rightarrow> MemStore \<Rightarrow> MemFS" where
  "put_file fs fd f p = fs\<lparr>stores := (stores fs)(pStore f \<mapsto> p), files := (files fs)(fd \<mapsto> f)\<rparr>"

inductive memdb_step :: "MemFS \<Rightarrow> MemFS \<Rightarrow> bool" where
  step_open: "files fs fd = None \<Longrightarrow> (\<And>a. malloc = Some a \<Longrightarrow> stores fs a = None) \<Longrightarrow>
    memdbOpen malloc table_ok mutex_ok mx fs zName fd = (rc, fs') \<Longrightarrow> memdb_step fs fs'"
| step_close: "files fs fd = Some f \<Longrightarrow> eLock f = SQLITE_LOCK_NONE \<Longrightarrow>
    memdbClose fs fd = Some (rc, fs') \<Longrightarrow> memdb_step fs fs'"
| step_lock: "files fs fd = Some f \<Longrightarrow> stores fs (pStore f) = Some p \<Longrightarrow>
    SQLITE_LOCK_SHARED \<le> lock \<Longrightarrow> lock \<le> SQLITE_LOCK_EXCLUSIVE \<Longrightarrow>
    (SQLITE_LOCK_SHARED < lock \<Longrightarrow> SQLITE_LOCK_SHARED \<le> eLock f) \<Longrightarrow>
    memdbLock f p lock = (rc, f', p') \<Longrightarrow> memdb_step fs (put_file fs fd f' p')"
| step_unlock: "files fs fd = Some f \<Longrightarrow> stores fs (pStore f) = Some p \<Longrightarrow> lock \<le> SQLITE_LOCK_SHARED \<Longrightarrow>
    memdbUnlock f p lock = (rc, f', p') \<Longrightarrow> memdb_step fs (put_file fs fd f' p')"
| step_write: "files fs fd = Some f \<Longrightarrow> stores fs (pStore f) = Some p \<Longrightarrow>
    memdbWrite realloc p bs ofs = Some (rc, p') \<Longrightarrow> memdb_step fs (put_file fs fd f p')"
| step_truncate: "files fs fd = Some f \<Longrightarrow> stores fs (pStore f) = Some p \<Longrightarrow>
    memdbTruncate p n = (rc, p') \<Longrightarrow> memdb_step fs (put_file fs fd f p')"
| step_limit: "files fs fd = Some f \<Longrightarrow> stores fs (pStore f) = Some p \<Longrightarrow>
    memdbFileControl_SIZE_LIMIT p iLimit = (rc, l, p') \<Longrightarrow> memdb_step fs (put_file fs fd f p')"
| step_fetch: "files fs fd = Some f \<Longrightarrow> stores fs (pStore f) = Some p \<Longrightarrow>
    memdbFetch p ofs n = (r, p') \<Longrightarrow> memdb_step fs (put_file fs fd f p')"
| step_unfetch: "files fs fd = Some f \<Longrightarrow> stores fs (pStore f) = Some p \<Longrightarrow>
    memdb_step fs (put_file fs fd f (memdbUnfetch p))"

definition no_files :: MemFS where
  "no_files = \<lparr>apMemStore = [], stores = Map.empty, files = Map.empty\<rparr>"

inductive reachable :: "MemFS \<Rightarrow> bool" where
  start: "reachable no_files"
| more: "reachable fs \<Longrightarrow> memdb_step fs fs' \<Longrightarrow> reachable fs'"

text \<open>The open files of a store that hold at least a given lock.\<close>

definition holders :: "MemFS \<Rightarrow> nat \<Rightarrow> nat \<Rightarrow> nat set" where
  "holders fs a k = {fd. \<exists>f. files fs fd = Some f \<and> pStore f = a \<and> k \<le> eLock f}"

definition lock_inv :: "MemFS \<Rightarrow> nat \<Rightarrow> MemStore \<Rightarrow> bool" where
  "lock_inv fs a p \<longleftrightarrow>
     nRdLock p = int (card (holders fs a SQLITE_LOCK_SHARED)) \<and>
     nWrLock p = int (card (holders fs a SQLITE_LOCK_RESERVED)) \<and> nWrLock p \<le> 1 \<and>
     (holders fs a SQLITE_LOCK_EXCLUSIVE \<noteq> {} \<longrightarrow> nRdLock p = 1)"

definition ref_inv :: "MemFS \<Rightarrow> nat \<Rightarrow> MemStore \<Rightarrow> bool" where
  "ref_inv fs a p \<longleftrightarrow>
     (if zFName p = None then nRef p = 0 \<and> card (holders fs a 0) = 1
      else nRef p = int (card (holders fs a 0)) \<and> 1 \<le> nRef p)"

definition table_inv :: "MemFS \<Rightarrow> bool" where
  "table_inv fs \<longleftrightarrow>
     distinct (apMemStore fs) \<and>
     set (apMemStore fs) = {a. \<exists>p. stores fs a = Some p \<and> zFName p \<noteq> None} \<and>
     (\<forall>a b p q m n. stores fs a = Some p \<longrightarrow> stores fs b = Some q \<longrightarrow> zFName p = Some m \<longrightarrow> zFName q = Some n \<longrightarrow>
        strcmp_eq m n \<longrightarrow> a = b)"

definition files_inv :: "MemFS \<Rightarrow> bool" where
  "files_inv fs \<longleftrightarrow> finite (dom (files fs)) \<and> (\<forall>fd f. files fs fd = Some f \<longrightarrow> stores fs (pStore f) \<noteq> None)"

definition memfs_inv :: "MemFS \<Rightarrow> bool" where
  "memfs_inv fs \<longleftrightarrow> files_inv fs \<and> table_inv fs \<and>
     (\<forall>a p. stores fs a = Some p \<longrightarrow> store_ok p \<and> lock_inv fs a p \<and> ref_inv fs a p)"

lemma holders_put:
  "holders (put_file fs fd f p) a k =
     (if pStore f = a \<and> k \<le> eLock f then insert fd (holders fs a k) else holders fs a k - {fd})"
  by (auto simp: holders_def put_file_def)

lemma holders_finite: "files_inv fs \<Longrightarrow> finite (holders fs a k)"
  unfolding files_inv_def holders_def by (rule finite_subset [of _ "dom (files fs)"]) auto

lemma holders_mono: "k \<le> k' \<Longrightarrow> holders fs a k' \<subseteq> holders fs a k"
  by (auto simp: holders_def)

lemma in_holders: "files fs fd = Some f \<Longrightarrow> fd \<in> holders fs a k \<longleftrightarrow> pStore f = a \<and> k \<le> eLock f"
  by (simp add: holders_def)

text \<open>An operation on one file that keeps the name and the references of the store.\<close>

lemma put_file_inv:
  assumes inv: "memfs_inv fs" and f: "files fs fd = Some f" and p: "stores fs (pStore f) = Some p"
    and f': "pStore f' = pStore f"
    and p': "store_ok p'" "zFName p' = zFName p" "nRef p' = nRef p"
    and l: "lock_inv (put_file fs fd f' p') (pStore f) p'"
  shows "memfs_inv (put_file fs fd f' p')"
proof -
  have fi: "files_inv fs" and ti: "table_inv fs" using inv by (simp_all add: memfs_inv_def)
  have "files_inv (put_file fs fd f' p')" using fi f' by (auto simp: files_inv_def put_file_def)
  moreover have "table_inv (put_file fs fd f' p')"
    using ti f' p p'(2) unfolding table_inv_def put_file_def by (auto split: if_splits)
  moreover have "store_ok q \<and> lock_inv (put_file fs fd f' p') a q \<and> ref_inv (put_file fs fd f' p') a q"
    if "stores (put_file fs fd f' p') a = Some q" for a q
  proof (cases "a = pStore f")
    case True
    then have q: "q = p'" using that f' by (simp add: put_file_def)
    have "holders (put_file fs fd f' p') a 0 = holders fs a 0"
      using f f' True by (simp add: holders_put in_holders insert_absorb)
    then have "ref_inv (put_file fs fd f' p') a p' \<longleftrightarrow> ref_inv fs a p" by (simp only: ref_inv_def p'(2,3))
    then have "ref_inv (put_file fs fd f' p') a p'" using inv p True by (simp add: memfs_inv_def)
    then show ?thesis using p' l True q by simp
  next
    case False
    then have "holders (put_file fs fd f' p') a k = holders fs a k" for k
      using f f' by (auto simp: holders_put in_holders)
    moreover have "stores fs a = Some q" using that False f' by (simp add: put_file_def)
    ultimately have "lock_inv (put_file fs fd f' p') a q \<longleftrightarrow> lock_inv fs a q"
      "ref_inv (put_file fs fd f' p') a q \<longleftrightarrow> ref_inv fs a q" "stores fs a = Some q"
      by (simp_all only: lock_inv_def ref_inv_def)
    then show ?thesis using inv by (simp add: memfs_inv_def)
  qed
  ultimately show ?thesis by (simp add: memfs_inv_def)
qed

text \<open>Operations that change neither the locks nor the file.\<close>

lemma put_store_inv:
  assumes "memfs_inv fs" and "files fs fd = Some f" and "stores fs (pStore f) = Some p"
    and "store_ok p'" "zFName p' = zFName p" "nRef p' = nRef p" "nRdLock p' = nRdLock p" "nWrLock p' = nWrLock p"
  shows "memfs_inv (put_file fs fd f p')"
proof (rule put_file_inv [OF assms(1-3) refl assms(4-6)])
  have "holders (put_file fs fd f p') (pStore f) k = holders fs (pStore f) k" for k
    using assms(2) by (auto simp: holders_put in_holders)
  then have "lock_inv (put_file fs fd f p') (pStore f) p' \<longleftrightarrow> lock_inv fs (pStore f) p"
    by (simp only: lock_inv_def assms(7,8))
  then show "lock_inv (put_file fs fd f p') (pStore f) p'" using assms(1,3) by (simp add: memfs_inv_def)
qed

lemma memfs_invD:
  assumes "memfs_inv fs" and "files fs fd = Some f" and "stores fs (pStore f) = Some p"
  shows "store_ok p" "lock_inv fs (pStore f) p" "ref_inv fs (pStore f) p" "\<And>k. finite (holders fs (pStore f) k)"
  using assms holders_finite by (simp_all add: memfs_inv_def)

text \<open>The readers and writers of one store before an operation of one of its files, and the cases of
  \<open>memdbLock\<close>.\<close>

lemma store_sets:
  assumes inv: "memfs_inv fs" and f: "files fs fd = Some f" and p: "stores fs (pStore f) = Some p"
  obtains R W X where "R = holders fs (pStore f) 1" "W = holders fs (pStore f) 2" "X = holders fs (pStore f) 4"
    and "X \<subseteq> W" "W \<subseteq> R" "finite R" "finite W"
    and "nRdLock p = int (card R)" "nWrLock p = int (card W)" "card W \<le> 1" "X \<noteq> {} \<Longrightarrow> card R = 1"
    and "fd \<in> R \<longleftrightarrow> 1 \<le> eLock f" "fd \<in> W \<longleftrightarrow> 2 \<le> eLock f" "fd \<in> X \<longleftrightarrow> 4 \<le> eLock f"
    and "\<And>f' p'. pStore f' = pStore f \<Longrightarrow> lock_inv (put_file fs fd f' p') (pStore f) p' \<longleftrightarrow>
      (let R' = if 1 \<le> eLock f' then insert fd R else R - {fd};
           W' = if 2 \<le> eLock f' then insert fd W else W - {fd};
           X' = if 4 \<le> eLock f' then insert fd X else X - {fd}
       in nRdLock p' = int (card R') \<and> nWrLock p' = int (card W') \<and> nWrLock p' \<le> 1 \<and> (X' \<noteq> {} \<longrightarrow> nRdLock p' = 1))"
proof
  note D = memfs_invD [OF inv f p]
  show "holders fs (pStore f) 4 \<subseteq> holders fs (pStore f) 2" "holders fs (pStore f) 2 \<subseteq> holders fs (pStore f) 1"
    by (auto intro!: holders_mono)
  show "finite (holders fs (pStore f) 1)" "finite (holders fs (pStore f) 2)" by (rule D(4))+
  show "fd \<in> holders fs (pStore f) 1 \<longleftrightarrow> 1 \<le> eLock f" "fd \<in> holders fs (pStore f) 2 \<longleftrightarrow> 2 \<le> eLock f"
    "fd \<in> holders fs (pStore f) 4 \<longleftrightarrow> 4 \<le> eLock f" using f by (simp_all add: in_holders)
  show "nRdLock p = int (card (holders fs (pStore f) 1))" "nWrLock p = int (card (holders fs (pStore f) 2))"
    "card (holders fs (pStore f) 2) \<le> 1" "holders fs (pStore f) 4 \<noteq> {} \<Longrightarrow> card (holders fs (pStore f) 1) = 1"
    using D(2) by (simp_all add: lock_inv_def lock_defs)
  show "lock_inv (put_file fs fd f' p') (pStore f) p' \<longleftrightarrow>
      (let R' = if 1 \<le> eLock f' then insert fd (holders fs (pStore f) 1) else holders fs (pStore f) 1 - {fd};
           W' = if 2 \<le> eLock f' then insert fd (holders fs (pStore f) 2) else holders fs (pStore f) 2 - {fd};
           X' = if 4 \<le> eLock f' then insert fd (holders fs (pStore f) 4) else holders fs (pStore f) 4 - {fd}
       in nRdLock p' = int (card R') \<and> nWrLock p' = int (card W') \<and> nWrLock p' \<le> 1 \<and> (X' \<noteq> {} \<longrightarrow> nRdLock p' = 1))"
    if "pStore f' = pStore f" for f' p'
    by (simp only: lock_inv_def holders_put lock_defs Let_def that simp_thms)
qed (rule refl)+

lemma memdbLock_cases:
  assumes "memdbLock f p lock = (rc, f', p')" and "1 \<le> lock" "lock \<le> 4" "1 < lock \<longrightarrow> 1 \<le> eLock f"
  obtains (same) "f' = f" "p' = p"
  | (shared) "eLock f = 0" "nWrLock p \<le> 0" "f' = f\<lparr>eLock := 1\<rparr>" "p' = p\<lparr>nRdLock := nRdLock p + 1\<rparr>"
  | (reserve) "eLock f = 1" "lock = 2 \<or> lock = 3" "nWrLock p \<le> 0" "f' = f\<lparr>eLock := lock\<rparr>" "p' = p\<lparr>nWrLock := 1\<rparr>"
  | (pending) "eLock f = 2" "f' = f\<lparr>eLock := 3\<rparr>" "p' = p"
  | (exclusive) "eLock f = 1" "nRdLock p \<le> 1" "f' = f\<lparr>eLock := 4\<rparr>" "p' = p\<lparr>nWrLock := 1\<rparr>"
  | (upgrade) "2 \<le> eLock f" "eLock f < 4" "nRdLock p \<le> 1" "f' = f\<lparr>eLock := 4\<rparr>" "p' = p"
proof (cases "lock \<le> eLock f \<or> f' = f \<and> p' = p")
  case True
  then show ?thesis using assms(1) same by (auto simp: memdbLock_def)
next
  case False
  then have nle: "eLock f < lock" "f' \<noteq> f \<or> p' \<noteq> p" by auto
  consider "lock = 1" | "lock = 2 \<or> lock = 3" | "lock = 4" using assms(2,3) by linarith
  then show ?thesis
  proof cases
    case 1
    then have "eLock f = 0 \<and> nWrLock p \<le> 0 \<and> f' = f\<lparr>eLock := 1\<rparr> \<and> p' = p\<lparr>nRdLock := nRdLock p + 1\<rparr>"
      using assms(1) nle by (auto simp: memdbLock_def lock_defs split: if_splits)
    then show ?thesis using shared by simp
  next
    case 2
    then have "(eLock f = 1 \<and> nWrLock p \<le> 0 \<and> f' = f\<lparr>eLock := lock\<rparr> \<and> p' = p\<lparr>nWrLock := 1\<rparr>) \<or>
        (eLock f = 2 \<and> f' = f\<lparr>eLock := 3\<rparr> \<and> p' = p)"
      using assms(1,4) nle by (auto simp: memdbLock_def lock_defs split: if_splits)
    then show ?thesis using reserve [OF _ 2] pending by blast
  next
    case 3
    then have "nRdLock p \<le> 1 \<and> f' = f\<lparr>eLock := 4\<rparr> \<and>
        (eLock f = 1 \<and> p' = p\<lparr>nWrLock := 1\<rparr> \<or> 2 \<le> eLock f \<and> eLock f < 4 \<and> p' = p)"
      using assms(1,4) nle by (auto simp: memdbLock_def lock_defs split: if_splits)
    then show ?thesis using exclusive upgrade by blast
  qed
qed

lemma put_locks_inv:
  assumes "memfs_inv fs" and "files fs fd = Some f" and "stores fs (pStore f) = Some p"
    and "pStore f' = pStore f" and "p' = p\<lparr>nRdLock := r, nWrLock := w\<rparr>"
    and "lock_inv (put_file fs fd f' p') (pStore f) p'"
  shows "memfs_inv (put_file fs fd f' p')"
proof (rule put_file_inv [OF assms(1-4) _ _ _ assms(6)])
  show "store_ok p'" using memfs_invD(1) [OF assms(1-3)] by (simp add: assms(5) store_ok_def)
qed (simp_all add: assms(5))

lemma memdbLock_inv:
  assumes inv: "memfs_inv fs" and f: "files fs fd = Some f" and p: "stores fs (pStore f) = Some p"
    and l: "SQLITE_LOCK_SHARED \<le> lock" "lock \<le> SQLITE_LOCK_EXCLUSIVE"
      "SQLITE_LOCK_SHARED < lock \<Longrightarrow> SQLITE_LOCK_SHARED \<le> eLock f"
    and op: "memdbLock f p lock = (rc, f', p')"
  shows "memfs_inv (put_file fs fd f' p')"
proof (rule store_sets [OF inv f p], goal_cases)
  case (1 R W X)
  note D = memfs_invD [OF inv f p] and S = 1(4-14) and L = 1(15)
  have W0: "W = {}" "X = {}" if "nWrLock p \<le> 0" using that S(1,4,6) by auto
  have only: "R = {fd}" if "nRdLock p \<le> 1" "fd \<in> R"
  proof -
    have "card R \<le> Suc 0" using that(1) S(5) by simp
    then show ?thesis using that(2) S(3) by (auto simp: card_le_Suc0_iff_eq)
  qed
  have op': "1 \<le> lock" "lock \<le> 4" "1 < lock \<longrightarrow> 1 \<le> eLock f" using l by (simp_all add: lock_defs)
  show ?case
    using op op'
  proof (cases rule: memdbLock_cases)
    case same
    show ?thesis unfolding same by (rule put_store_inv [OF inv f p D(1)]) simp_all
  next
    case shared
    have "fd \<notin> R" using S(9) shared(1) by simp
    then have "card (insert fd R) = card R + 1" using S(3) by simp
    then have "lock_inv (put_file fs fd f' p') (pStore f) p'"
      using L [of f' p'] S(5,6) W0 [OF shared(2)] by (simp add: shared(3,4))
    then show ?thesis using put_locks_inv [OF inv f p, where f' = f' and p' = p' and r = "nRdLock p + 1" and w = "nWrLock p"]
      by (simp add: shared(3,4))
  next
    case reserve
    have "insert fd R = R" using S(9) reserve(1) by (simp add: insert_absorb)
    moreover have "1 \<le> lock" "2 \<le> lock" "\<not> 4 \<le> lock" using reserve(2) by auto
    ultimately have "lock_inv (put_file fs fd f' p') (pStore f) p'"
      using L [of f' p'] S(5) W0 [OF reserve(3)] by (simp add: reserve(4,5))
    then show ?thesis using put_locks_inv [OF inv f p, where f' = f' and p' = p' and r = "nRdLock p" and w = 1] by (simp add: reserve(4,5))
  next
    case pending
    have "insert fd R = R" "insert fd W = W" "X - {fd} = X" using S(9-11) pending(1) by (simp_all add: insert_absorb)
    then have "lock_inv (put_file fs fd f' p') (pStore f) p'"
      using L [of f' p'] S(5-8) by (simp add: pending(2,3))
    then show ?thesis using put_locks_inv [OF inv f p, where f' = f' and p' = p' and r = "nRdLock p" and w = "nWrLock p"] by (simp add: pending(2,3))
  next
    case exclusive
    have R: "R = {fd}" using only S(9) exclusive(1,2) by simp
    then have "W = {}" using S(2,10) exclusive(1) by auto
    then have "lock_inv (put_file fs fd f' p') (pStore f) p'"
      using L [of f' p'] S(5) R by (simp add: exclusive(3,4))
    then show ?thesis using put_locks_inv [OF inv f p, where f' = f' and p' = p' and r = "nRdLock p" and w = 1] by (simp add: exclusive(3,4))
  next
    case upgrade
    have R: "R = {fd}" using only S(9) upgrade(1,3) by simp
    then have "W = {fd}" using S(2,10) upgrade(1) by auto
    then have "lock_inv (put_file fs fd f' p') (pStore f) p'"
      using L [of f' p'] S(5,6) R by (simp add: upgrade(4,5))
    then show ?thesis using put_locks_inv [OF inv f p, where f' = f' and p' = p' and r = "nRdLock p" and w = "nWrLock p"] by (simp add: upgrade(4,5))
  qed
qed

lemma memdbUnlock_inv:
  assumes inv: "memfs_inv fs" and f: "files fs fd = Some f" and p: "stores fs (pStore f) = Some p"
    and l: "lock \<le> SQLITE_LOCK_SHARED" and op: "memdbUnlock f p lock = (rc, f', p')"
  shows "memfs_inv (put_file fs fd f' p')"
proof (rule store_sets [OF inv f p], goal_cases)
  case (1 R W X)
  note D = memfs_invD [OF inv f p] and S = 1(4-14) and L = 1(15)
  show ?case
  proof (cases "lock \<ge> eLock f")
    case True
    then have "f' = f" "p' = p" using op by (simp_all add: memdbUnlock_def)
    then show ?thesis using put_store_inv [OF inv f p D(1)] by simp
  next
    case False
    define w where "w = (if 1 < eLock f then nWrLock p - 1 else nWrLock p)"
    define r where "r = (if lock = 1 then nRdLock p else nRdLock p - 1)"
    have f': "f' = f\<lparr>eLock := lock\<rparr>" and p': "p' = p\<lparr>nRdLock := r, nWrLock := w\<rparr>"
      using op False l by (auto simp: memdbUnlock_def lock_defs w_def r_def Let_def)
    have fd: "fd \<in> R" using S(9) False by auto
    have "card W = 1" if "fd \<in> W" using that S(4,7) by (cases "card W") auto
    then have W: "int (card (W - {fd})) = w" "w \<le> 1"
      using S(4,6,7,10) by (auto simp: w_def)
    have X: "X - {fd} = {}"
    proof -
      have "X \<subseteq> {fd}" if "X \<noteq> {}"
        using S(8) [OF that] S(1,2) fd by (metis card_1_singletonE singletonD subset_trans)
      then show ?thesis by auto
    qed
    have "1 \<le> card R" using fd S(3) by (cases "card R") auto
    then have "int (card (if 1 \<le> lock then insert fd R else R - {fd})) = r"
      using fd S(3,5) l by (auto simp: r_def insert_absorb lock_defs of_nat_diff)
    then have "lock_inv (put_file fs fd f' p') (pStore f) p'"
      using L [of f' p'] W X l by (simp add: f' p' lock_defs)
    then show ?thesis using put_locks_inv [OF inv f p, where f' = f' and p' = p' and r = r and w = w] p' by (simp add: f')
  qed
qed

text \<open>Opening and closing.\<close>

lemma holders_open:
  assumes "files fs fd = None" and "files fs' = (files fs)(fd \<mapsto> \<lparr>pStore = a, eLock = 0\<rparr>)"
  shows "holders fs' b k = (if b = a \<and> k = 0 then insert fd (holders fs b k) else holders fs b k)" and "fd \<notin> holders fs b k"
  using assms by (auto simp: holders_def)

lemma holders_close:
  assumes "files fs' = (files fs)(fd := None)"
  shows "holders fs' b k = holders fs b k - {fd}"
  using assms by (auto simp: holders_def)

lemma no_holders: "files_inv fs \<Longrightarrow> stores fs a = None \<Longrightarrow> holders fs a k = {}"
  by (fastforce simp: holders_def files_inv_def)

lemma find_store_Some:
  assumes "find_store fs zName = Some a"
  shows "\<exists>p n. stores fs a = Some p \<and> zFName p = Some n \<and> strcmp_eq n zName"
  using assms by (auto simp: find_store_def find_Some_iff split: option.splits)

lemma find_store_None:
  assumes "table_inv fs" and "find_store fs zName = None" and "stores fs a = Some p" and "zFName p = Some n"
  shows "\<not> strcmp_eq n zName"
proof -
  have "a \<in> set (apMemStore fs)" using assms(1,3,4) by (auto simp: table_inv_def)
  then show ?thesis using assms(2-4) by (auto simp: find_store_def find_None_iff)
qed

lemma drop_store_set: "distinct xs \<Longrightarrow> set (drop_store xs a) = set xs - {a} \<and> distinct (drop_store xs a)"
proof (induction xs)
  case (Cons x xs)
  show ?case
  proof (cases "x = a \<and> xs \<noteq> []")
    case True
    then have e: "mset (last xs # butlast xs) = mset xs"
      by (metis append_butlast_last_id add_mset_add_single mset.simps(2) mset_append mset_single_iff_right)
    then have "set (last xs # butlast xs) = set xs" "distinct (last xs # butlast xs)"
      using Cons.prems by (metis set_mset_mset, metis distinct.simps(2) mset_eq_imp_distinct_iff)
    then show ?thesis using True Cons.prems by auto
  qed (use Cons in auto)
qed simp

lemma memdbOpen_cases:
  assumes "memdbOpen malloc table_ok mutex_ok mx fs zName fd = (rc, fs')"
  obtains (fail) "fs' = fs"
  | (join) a where "find_store fs (the zName) = Some a"
      "fs' = fs\<lparr>stores := (stores fs)(a := map_option (\<lambda>p. p\<lparr>nRef := nRef p + 1\<rparr>) (stores fs a)),
                files := (files fs)(fd \<mapsto> \<lparr>pStore = a, eLock = 0\<rparr>)\<rparr>"
  | (new) a z where "malloc = Some a" "find_store fs z = None"
      "fs' = fs\<lparr>apMemStore := apMemStore fs @ [a], stores := (stores fs)(a \<mapsto> new_store mx (Some z) 1),
                files := (files fs)(fd \<mapsto> \<lparr>pStore = a, eLock = 0\<rparr>)\<rparr>"
  | (separate) a where "malloc = Some a"
      "fs' = fs\<lparr>stores := (stores fs)(a \<mapsto> new_store mx None 0),
                files := (files fs)(fd \<mapsto> \<lparr>pStore = a, eLock = 0\<rparr>)\<rparr>"
proof (cases "shared_name zName")
  case True
  then obtain z where z: "zName = Some z" by (auto simp: shared_name_def split: option.splits)
  show ?thesis
  proof (cases "find_store fs z")
    case None
    then show ?thesis using assms True z fail new [of _ z]
      by (auto simp: memdbOpen_def split: option.splits if_splits)
  next
    case (Some a)
    then show ?thesis using assms True z join [of a] by (simp add: memdbOpen_def)
  qed
next
  case False
  then show ?thesis using assms fail separate by (auto simp: memdbOpen_def split: option.splits)
qed

lemma fresh_store_inv:
  assumes inv: "memfs_inv fs" and fd: "files fs fd = None" and a: "stores fs a = None"
    and st: "stores fs' = (stores fs)(a \<mapsto> new_store mx name ref)"
    and fi: "files fs' = (files fs)(fd \<mapsto> \<lparr>pStore = a, eLock = 0\<rparr>)"
    and ref: "if name = None then ref = 0 else ref = 1" and ti: "table_inv fs'"
  shows "memfs_inv fs'"
proof -
  have f0: "files_inv fs" using inv by (simp add: memfs_inv_def)
  have "files_inv fs'" using f0 by (auto simp: files_inv_def st fi)
  moreover have "store_ok q \<and> lock_inv fs' b q \<and> ref_inv fs' b q" if "stores fs' b = Some q" for b q
  proof (cases "b = a")
    case True
    have "holders fs' a k = (if k = 0 then {fd} else {})" for k
      using holders_open [OF fd fi] no_holders [OF f0 a] by simp
    then show ?thesis using that ref True
      by (auto simp: st new_store_def store_ok_def lock_inv_def ref_inv_def lock_defs split: if_splits)
  next
    case False
    then have "holders fs' b k = holders fs b k" for k using holders_open(1) [OF fd fi] by simp
    then have "lock_inv fs' b q \<longleftrightarrow> lock_inv fs b q" "ref_inv fs' b q \<longleftrightarrow> ref_inv fs b q"
      by (simp_all only: lock_inv_def ref_inv_def)
    then show ?thesis using that inv False by (simp add: st memfs_inv_def)
  qed
  ultimately show ?thesis using ti by (simp add: memfs_inv_def)
qed

lemma memdbOpen_inv:
  assumes inv: "memfs_inv fs" and fd: "files fs fd = None" and fresh: "\<And>a. malloc = Some a \<Longrightarrow> stores fs a = None"
    and op: "memdbOpen malloc table_ok mutex_ok mx fs zName fd = (rc, fs')"
  shows "memfs_inv fs'"
  using op
proof (cases rule: memdbOpen_cases)
  case fail
  then show ?thesis using inv by simp
next
  case (separate a)
  have a: "stores fs a = None" using fresh separate(1) by simp
  show ?thesis
  proof (rule fresh_store_inv [OF inv fd a, where mx = mx and name = None and ref = 0])
    show "table_inv fs'" using inv a
      by (auto simp: separate(2) memfs_inv_def table_inv_def new_store_def split: if_splits)
  qed (simp_all add: separate(2))
next
  case (new a z)
  have a: "stores fs a = None" using fresh new(1) by simp
  have t: "table_inv fs" using inv by (simp add: memfs_inv_def)
  show ?thesis
  proof (rule fresh_store_inv [OF inv fd a, where mx = mx and name = "Some z" and ref = 1])
    have "\<not> strcmp_eq n z" "\<not> strcmp_eq z n" if "stores fs b = Some p" "zFName p = Some n" for b p n
      using find_store_None [OF t new(2) that] by (simp_all add: strcmp_eq_def eq_commute)
    then show "table_inv fs'" using t a
      by (auto simp: new(3) table_inv_def new_store_def split: if_splits)
  qed (simp_all add: new(3))
next
  case (join a)
  obtain p n where p: "stores fs a = Some p" "zFName p = Some n" using find_store_Some [OF join(1)] by blast
  have f0: "files_inv fs" and t: "table_inv fs" using inv by (simp_all add: memfs_inv_def)
  have fi: "files fs' = (files fs)(fd \<mapsto> \<lparr>pStore = a, eLock = 0\<rparr>)"
    and st: "stores fs' = (stores fs)(a \<mapsto> p\<lparr>nRef := nRef p + 1\<rparr>)" using p(1) by (simp_all add: join(2))
  have "files_inv fs'" using f0 by (auto simp: files_inv_def st fi)
  moreover have "table_inv fs'" using t p unfolding table_inv_def st by (auto simp: join(2) split: if_splits)
  moreover have "store_ok q \<and> lock_inv fs' b q \<and> ref_inv fs' b q" if "stores fs' b = Some q" for b q
  proof (cases "b = a")
    case True
    have i: "store_ok p" "lock_inv fs a p" "ref_inv fs a p" using inv p(1) by (simp_all add: memfs_inv_def)
    have q: "q = p\<lparr>nRef := nRef p + 1\<rparr>" using that True by (simp add: st)
    have "holders fs' a k = holders fs a k" if "k \<noteq> 0" for k using holders_open(1) [OF fd fi] that by simp
    then have "lock_inv fs' a q" using i(2) by (auto simp: lock_inv_def lock_defs q)
    moreover have "card (holders fs' a 0) = card (holders fs a 0) + 1"
      using holders_open [OF fd fi, of a 0] holders_finite [OF f0] by simp
    then have "ref_inv fs' a q" using i(3) p(2) by (simp add: ref_inv_def q)
    ultimately show ?thesis using i(1) True by (simp add: store_ok_def q)
  next
    case False
    then have "holders fs' b k = holders fs b k" for k using holders_open(1) [OF fd fi] by simp
    then have "lock_inv fs' b q \<longleftrightarrow> lock_inv fs b q" "ref_inv fs' b q \<longleftrightarrow> ref_inv fs b q"
      by (simp_all only: lock_inv_def ref_inv_def)
    then show ?thesis using that inv False by (simp add: st memfs_inv_def)
  qed
  ultimately show ?thesis by (simp add: memfs_inv_def)
qed

lemma memdbClose_inv:
  assumes inv: "memfs_inv fs" and f: "files fs fd = Some f" and l: "eLock f = SQLITE_LOCK_NONE"
    and op: "memdbClose fs fd = Some (rc, fs')"
  shows "memfs_inv fs'"
proof -
  have f0: "files_inv fs" and t: "table_inv fs" using inv by (simp_all add: memfs_inv_def)
  let ?a = "pStore f"
  obtain p where p: "stores fs ?a = Some p" using op f by (auto simp: memdbClose_def split: option.splits)
  note D = memfs_invD [OF inv f p]
  define gone where "gone \<longleftrightarrow> nRef p \<le> 1"
  have fi: "files fs' = (files fs)(fd := None)"
    and st: "stores fs' = (stores fs)(?a := if gone then None else Some (p\<lparr>nRef := nRef p - 1\<rparr>))"
    and ap: "apMemStore fs' = (if zFName p \<noteq> None \<and> gone then drop_store (apMemStore fs) ?a else apMemStore fs)"
    using op f p D(3) by (auto simp: memdbClose_def gone_def ref_inv_def Let_def split: if_splits)
  have mem: "fd \<in> holders fs ?a k \<longleftrightarrow> k = 0" for k using f l by (auto simp: in_holders lock_defs)
  have H: "holders fs' b k = (if b = ?a \<and> k = 0 then holders fs b k - {fd} else holders fs b k)" for b k
    using holders_close [OF fi, of b k] f l by (auto simp: in_holders lock_defs)
  have last: "holders fs ?a 0 = {fd}" if gone
  proof -
    have "card (holders fs ?a 0) \<le> Suc 0" using D(3) that by (auto simp: ref_inv_def gone_def split: if_splits)
    then show ?thesis using mem [of 0] D(4) [of 0] by (auto simp: card_le_Suc0_iff_eq)
  qed
  have other: "pStore g \<noteq> ?a" if gone "files fs b = Some g" "b \<noteq> fd" for b g
  proof
    assume "pStore g = ?a"
    then have "b \<in> holders fs ?a 0" using that(2) by (simp add: in_holders)
    then show False using last [OF that(1)] that(3) by simp
  qed
  have "files_inv fs'"
  proof -
    have "stores fs' (pStore g) \<noteq> None" if "files fs b = Some g" "b \<noteq> fd" for b g
      using f0 that other [OF _ that] unfolding files_inv_def st by (cases gone) (auto split: if_splits)
    then show ?thesis using f0 by (auto simp: files_inv_def fi split: if_splits)
  qed
  moreover have "table_inv fs'"
    using t drop_store_set [of "apMemStore fs" ?a] p unfolding table_inv_def st ap by (auto split: if_splits)
  moreover have "store_ok q \<and> lock_inv fs' b q \<and> ref_inv fs' b q" if "stores fs' b = Some q" for b q
  proof (cases "b = ?a")
    case True
    then have g: "\<not> gone" and q: "q = p\<lparr>nRef := nRef p - 1\<rparr>" using that by (simp_all add: st split: if_splits)
    have "holders fs' ?a k = holders fs ?a k" if "k \<noteq> 0" for k using H that by simp
    then have "lock_inv fs' ?a q" using D(2) by (auto simp: lock_inv_def lock_defs q)
    moreover have "ref_inv fs' ?a q"
      using D(3,4) g mem [of 0] H [of ?a 0] by (auto simp: ref_inv_def q gone_def of_nat_diff split: if_splits)
    ultimately show ?thesis using D(1) True by (simp add: store_ok_def q)
  next
    case False
    then have "holders fs' b k = holders fs b k" for k using H by simp
    then have "lock_inv fs' b q \<longleftrightarrow> lock_inv fs b q" "ref_inv fs' b q \<longleftrightarrow> ref_inv fs b q"
      by (simp_all only: lock_inv_def ref_inv_def)
    then show ?thesis using that inv False by (simp add: st memfs_inv_def)
  qed
  ultimately show ?thesis by (simp add: memfs_inv_def)
qed

lemma memdbEnlarge_frame:
  "memdbEnlarge realloc p n = (rc, p') \<Longrightarrow>
   zFName p' = zFName p \<and> nRef p' = nRef p \<and> nRdLock p' = nRdLock p \<and> nWrLock p' = nWrLock p"
  by (auto simp: memdbEnlarge_def Let_def split: if_splits option.splits)

lemma memdbWrite_frame:
  assumes "memdbWrite realloc p bs ofs = Some (rc, p')"
  shows "zFName p' = zFName p \<and> nRef p' = nRef p \<and> nRdLock p' = nRdLock p \<and> nWrLock p' = nWrLock p"
proof -
  define q where "q = (if ofs + length bs > st_sz p \<and> ofs + length bs > szAlloc p
    then memdbEnlarge realloc p (ofs + length bs) else (SQLITE_OK, p))"
  obtain rc1 p1 where q: "q = (rc1, p1)" by force
  have "zFName p1 = zFName p \<and> nRef p1 = nRef p \<and> nRdLock p1 = nRdLock p \<and> nWrLock p1 = nWrLock p"
    using q memdbEnlarge_frame [of realloc p "ofs + length bs" rc1 p1] by (auto simp: q_def split: if_splits)
  moreover have "zFName p' = zFName p1 \<and> nRef p' = nRef p1 \<and> nRdLock p' = nRdLock p1 \<and> nWrLock p' = nWrLock p1 \<or> p' = p"
    using assms q unfolding memdbWrite_def Let_def q_def [symmetric] by (auto split: if_splits option.splits)
  ultimately show ?thesis by auto
qed

lemma memdb_step_inv: "memdb_step fs fs' \<Longrightarrow> memfs_inv fs \<Longrightarrow> memfs_inv fs'"
proof (induction rule: memdb_step.induct)
  case step_open
  show ?case by (rule memdbOpen_inv) (fact step_open)+
next
  case step_close
  show ?case by (rule memdbClose_inv) (fact step_close)+
next
  case step_lock
  show ?case by (rule memdbLock_inv) (fact step_lock)+
next
  case step_unlock
  show ?case by (rule memdbUnlock_inv) (fact step_unlock)+
next
  case (step_write fs fd f p realloc bs ofs rc p')
  note D = memfs_invD [OF step_write(4,1,2)]
  have "store_ok p'" using memdbWrite_spec' [OF D(1) step_write(3)] by simp
  then show ?case using put_store_inv [OF step_write(4,1,2)] memdbWrite_frame [OF step_write(3)] by simp
next
  case (step_truncate fs fd f p n rc p')
  note D = memfs_invD [OF step_truncate(4,1,2)]
  have "store_ok p'" using D(1) step_truncate(3) by (auto simp: memdbTruncate_def store_ok_def split: if_splits)
  then show ?case using put_store_inv [OF step_truncate(4,1,2)] step_truncate(3)
    by (auto simp: memdbTruncate_def split: if_splits)
next
  case (step_limit fs fd f p iLimit rc l p')
  note D = memfs_invD [OF step_limit(4,1,2)]
  show ?case using put_store_inv [OF step_limit(4,1,2)] step_limit(3) D(1)
    by (auto simp: memdbFileControl_SIZE_LIMIT_def store_ok_def Let_def)
next
  case (step_fetch fs fd f p ofs n r p')
  note D = memfs_invD [OF step_fetch(4,1,2)]
  show ?case using put_store_inv [OF step_fetch(4,1,2)] step_fetch(3) D(1)
    by (auto simp: memdbFetch_def store_ok_def split: if_splits)
next
  case (step_unfetch fs fd f p)
  note D = memfs_invD [OF step_unfetch(3,1,2)]
  show ?case using put_store_inv [OF step_unfetch(3,1,2)] D(1) by (simp add: memdbUnfetch_def store_ok_def)
qed

lemma reachable_inv: "reachable fs \<Longrightarrow> memfs_inv fs"
proof (induction rule: reachable.induct)
  case start
  show ?case by (simp add: no_files_def memfs_inv_def files_inv_def table_inv_def)
qed (rule memdb_step_inv)

lemma file_store: "memfs_inv fs \<Longrightarrow> files fs fd = Some f \<Longrightarrow> \<exists>p. stores fs (pStore f) = Some p"
  unfolding memfs_inv_def files_inv_def by blast

lemma holders_exclusive:
  assumes inv: "memfs_inv fs" and f: "files fs fd = Some f" and g: "files fs fd' = Some g"
    and ne: "fd \<noteq> fd'" and st: "pStore g = pStore f"
  shows "(eLock f = SQLITE_LOCK_EXCLUSIVE \<longrightarrow> eLock g = SQLITE_LOCK_NONE) \<and>
    (eLock f \<le> SQLITE_LOCK_SHARED \<or> eLock g \<le> SQLITE_LOCK_SHARED)"
proof -
  obtain p where p: "stores fs (pStore f) = Some p" using file_store [OF inv f] by blast
  note D = memfs_invD [OF inv f p]
  have R: "card (holders fs (pStore f) 1) \<le> Suc 0" if "fd \<in> holders fs (pStore f) 4"
    using D(2) that by (auto simp: lock_inv_def lock_defs)
  have W: "card (holders fs (pStore f) 2) \<le> Suc 0" using D(2) by (simp add: lock_inv_def lock_defs)
  have in_h: "fd \<in> holders fs (pStore f) k \<longleftrightarrow> k \<le> eLock f" "fd' \<in> holders fs (pStore f) k \<longleftrightarrow> k \<le> eLock g" for k
    using f g st by (simp_all add: in_holders)
  have one: "\<not> (fd \<in> A \<and> fd' \<in> A)" if "card A \<le> Suc 0" "finite A" for A
    using that ne by (auto simp: card_le_Suc0_iff_eq)
  have "\<not> (1 \<le> eLock f \<and> 1 \<le> eLock g)" if "4 \<le> eLock f"
    using one [OF R D(4)] that by (simp add: in_h)
  moreover have "\<not> (2 \<le> eLock f \<and> 2 \<le> eLock g)" using one [OF W D(4)] by (simp add: in_h)
  ultimately show ?thesis by (auto simp: lock_defs)
qed

section \<open>Progress\<close>








lemma reachable_lock:
  assumes "reachable fs" and "files fs fd = Some f" and "stores fs (pStore f) = Some p"
    and "SQLITE_LOCK_SHARED \<le> lock" "lock \<le> SQLITE_LOCK_EXCLUSIVE"
    and "SQLITE_LOCK_SHARED < lock \<longrightarrow> SQLITE_LOCK_SHARED \<le> eLock f" and "memdbLock f p lock = (rc, f', p')"
  shows "reachable (put_file fs fd f' p')"
  using assms by (blast intro: reachable.more memdb_step.step_lock)

lemma reachable_open:
  assumes "reachable fs" and "files fs fd = None" and "\<forall>a. malloc = Some a \<longrightarrow> stores fs a = None"
  shows "reachable (snd (memdbOpen malloc table_ok mutex_ok mx fs zName fd))"
  using assms by (metis reachable.more memdb_step.step_open prod.collapse)

text \<open>A run in which two files open the same store.\<close>

definition two_files :: MemFS where
  "two_files = snd (memdbOpen None True True 100
     (snd (memdbOpen (Some 7) True True 100 no_files (Some [0x2f, 0x61]) 1)) (Some [0x2f, 0x61]) 2)"

lemma two_files_eq:
  "two_files = \<lparr>apMemStore = [7], stores = [7 \<mapsto> new_store 100 (Some [0x2f, 0x61]) 2],
     files = [1 \<mapsto> \<lparr>pStore = 7, eLock = 0\<rparr>, 2 \<mapsto> \<lparr>pStore = 7, eLock = 0\<rparr>]\<rparr>"
  by (simp add: two_files_def memdbOpen_def shared_name_def find_store_def sqlite3Strlen30_def char_at_def
    no_files_def new_store_def strcmp_eq_def)

lemma reachable_two_files: "reachable two_files"
  unfolding two_files_def
  by (intro reachable_open reachable.start)
    (simp_all add: memdbOpen_def shared_name_def find_store_def sqlite3Strlen30_def char_at_def no_files_def)

section \<open>Properties\<close>

text \<open>C5. In every reachable state the locks of a shared store exclude each other: an exclusive lock
  leaves no other file any lock, and at most one file has a lock above \<open>SHARED\<close>.\<close>
theorem memdb_lock_exclusion:
  assumes "reachable fs" and "files fs fd = Some f" and "files fs fd' = Some g" and "fd \<noteq> fd'" and "pStore g = pStore f"
  shows "(eLock f = SQLITE_LOCK_EXCLUSIVE \<longrightarrow> eLock g = SQLITE_LOCK_NONE) \<and>
    (eLock f \<le> SQLITE_LOCK_SHARED \<or> eLock g \<le> SQLITE_LOCK_SHARED)"
  by (rule holders_exclusive [OF reachable_inv [OF assms(1)] assms(2-5)])

theorem memdb_lock_exclusion_witness:
  "\<exists>fs f g. reachable fs \<and> files fs 1 = Some f \<and> files fs 2 = Some g \<and> pStore g = pStore f \<and>
     eLock f = SQLITE_LOCK_EXCLUSIVE \<and> eLock g = SQLITE_LOCK_NONE"
proof -
  define fs1 where "fs1 = put_file two_files 1 \<lparr>pStore = 7, eLock = 1\<rparr> ((new_store 100 (Some [0x2f, 0x61]) 2)\<lparr>nRdLock := 1\<rparr>)"
  define fs2 where "fs2 = put_file fs1 1 \<lparr>pStore = 7, eLock = 4\<rparr> ((new_store 100 (Some [0x2f, 0x61]) 2)\<lparr>nRdLock := 1, nWrLock := 1\<rparr>)"
  have "reachable fs1" unfolding fs1_def
    by (rule reachable_lock [OF reachable_two_files, where f = "\<lparr>pStore = 7, eLock = 0\<rparr>" and
        p = "new_store 100 (Some [0x2f, 0x61]) 2" and lock = 1 and rc = SQLITE_OK])
      (simp_all add: two_files_eq memdbLock_def new_store_def lock_defs)
  then have "reachable fs2" unfolding fs2_def
    by (rule reachable_lock [where f = "\<lparr>pStore = 7, eLock = 1\<rparr>" and
        p = "(new_store 100 (Some [0x2f, 0x61]) 2)\<lparr>nRdLock := 1\<rparr>" and lock = 4 and rc = SQLITE_OK])
      (simp_all add: fs1_def put_file_def two_files_eq memdbLock_def new_store_def lock_defs)
  moreover have f: "files fs2 1 = Some \<lparr>pStore = 7, eLock = 4\<rparr>" "files fs2 2 = Some \<lparr>pStore = 7, eLock = 0\<rparr>"
    by (simp_all add: fs2_def fs1_def put_file_def two_files_eq)
  ultimately show ?thesis using memdb_lock_exclusion [of fs2 1 "\<lparr>pStore = 7, eLock = 4\<rparr>" 2 "\<lparr>pStore = 7, eLock = 0\<rparr>"]
    by (intro exI [of _ fs2]) (simp add: lock_defs)
qed



text \<open>C16. In every reachable state the table is consistent: each open file refers to a live store,
  the reference count of a store is the number of its open files and a store without one is freed,
  the lock counters are the numbers of readers and writers, the shared stores are exactly the ones
  in \<open>memdb_g\<close>, under different names, and the buffer of a store holds its file.\<close>
theorem memdb_table_invariant:
  assumes "reachable fs"
  shows "memfs_inv fs"
  by (rule reachable_inv [OF assms])

theorem memdb_table_invariant_witness: "memfs_inv two_files"
  by (rule memdb_table_invariant [OF reachable_two_files])

text \<open>C25. A write to a store never leaves its buffer and either has the effect of a write to a flat
  file, zeros filling a gap, so that a read gives the bytes back, or fails with one of three
  codes and changes nothing; a read behind the end reports a short read and gives zeros.\<close>
theorem memdb_file:
  assumes "store_ok p"
  shows "(\<exists>rc p'. memdbWrite realloc p bs ofs = Some (rc, p') \<and> store_ok p' \<and>
      (if rc = SQLITE_OK
       then memdb_content p' = overwrite (memdb_content p) ofs bs \<and> memdbRead p' (length bs) ofs = Some (SQLITE_OK, bs)
       else memdb_content p' = memdb_content p \<and> rc \<in> {SQLITE_FULL, SQLITE_IOERR_NOMEM, SQLITE_IOERR_WRITE})) \<and>
    memdbRead p n i =
      Some (if i + n \<le> memdbFileSize p then SQLITE_OK else SQLITE_IOERR_SHORT_READ, read_zeros (memdb_content p) i n)"
proof -
  obtain rc p' where w: "memdbWrite realloc p bs ofs = Some (rc, p')" "store_ok p'"
    "memdb_content p' = (if rc = SQLITE_OK then overwrite (memdb_content p) ofs bs else memdb_content p)"
    "rc \<in> {SQLITE_OK, SQLITE_FULL, SQLITE_IOERR_NOMEM, SQLITE_IOERR_WRITE}"
    using memdbWrite_spec [OF assms] by metis
  have "memdbRead p' (length bs) ofs = Some (SQLITE_OK, bs)" if "rc = SQLITE_OK"
    using memdbRead_spec [OF w(2)] w(3) that memdb_content_length [OF w(2)]
    by (simp add: read_zeros_def)
  then show ?thesis using w memdbRead_spec [OF assms] by (auto simp: memdbFileSize_def)
qed

theorem memdb_file_witness:
  "\<exists>p'. memdbWrite (Some (\<lambda>_. 0xff)) (new_store 100 None 0) [1, 2] 3 = Some (SQLITE_OK, p') \<and>
     memdb_content p' = [0, 0, 0, 1, 2] \<and> memdbRead p' 2 3 = Some (SQLITE_OK, [1, 2])"
proof -
  have "store_ok (new_store 100 None 0)" by (simp add: store_ok_def new_store_def)
  moreover have "fst (the (memdbWrite (Some (\<lambda>_. 0xff)) (new_store 100 None 0) [1, 2] 3)) = SQLITE_OK"
    by (simp add: memdbWrite_def new_store_def memdbEnlarge_def put_bytes_def numeral_eq_Suc)
  ultimately show ?thesis using memdb_file [of "new_store 100 None 0" "Some (\<lambda>_. 0xff)" "[1, 2]" 3 0 0]
    by (auto simp: overwrite_def memdb_content_def new_store_def numeral_eq_Suc split: if_splits)
qed

text \<open>A run in which the limit is set to the size of the file while its buffer is larger.\<close>

definition limit_store :: MemStore where
  "limit_store = (new_store 100 (Some [0x2f, 0x61]) 2)\<lparr>st_sz := 2, aData := [1, 2, 0xff, 0xff], szAlloc := 4\<rparr>"

lemma reachable_limit: "reachable (put_file (put_file two_files 1 \<lparr>pStore = 7, eLock = 0\<rparr> limit_store) 1 \<lparr>pStore = 7, eLock = 0\<rparr> (limit_store\<lparr>szMax := 2\<rparr>))"
proof (rule reachable.more)
  show "reachable (put_file two_files 1 \<lparr>pStore = 7, eLock = 0\<rparr> limit_store)"
  proof (rule reachable.more [OF reachable_two_files], rule step_write [where bs = "[1, 2]" and ofs = 0 and rc = SQLITE_OK and realloc = "Some (\<lambda>_. 0xff)"])
    show "files two_files 1 = Some \<lparr>pStore = 7, eLock = 0\<rparr>" by (simp add: two_files_eq)
    show "stores two_files (pStore \<lparr>pStore = 7, eLock = 0\<rparr>) = Some (new_store 100 (Some [0x2f, 0x61]) 2)" by (simp add: two_files_eq)
    show "memdbWrite (Some (\<lambda>_. 0xff)) (new_store 100 (Some [0x2f, 0x61]) 2) [1, 2] 0 = Some (SQLITE_OK, limit_store)"
      by (simp add: memdbWrite_def new_store_def memdbEnlarge_def put_bytes_def limit_store_def numeral_eq_Suc)
  qed
  show "memdb_step (put_file two_files 1 \<lparr>pStore = 7, eLock = 0\<rparr> limit_store)
    (put_file (put_file two_files 1 \<lparr>pStore = 7, eLock = 0\<rparr> limit_store) 1 \<lparr>pStore = 7, eLock = 0\<rparr> (limit_store\<lparr>szMax := 2\<rparr>))"
    by (rule step_limit [where iLimit = 2 and rc = SQLITE_OK and l = 2 and p = limit_store and f = "\<lparr>pStore = 7, eLock = 0\<rparr>" and fd = 1])
      (simp_all add: put_file_def memdbFileControl_SIZE_LIMIT_def limit_store_def new_store_def)
qed

text \<open>C35. The size limit bounds the growth of the buffer and not the size of the file: a write leaves the size of the buffer as it is
  or makes the buffer just as large as needed or larger, but never larger than the limit; a write for which the buffer would have to grow past
  the limit fails with \<open>SQLITE_FULL\<close> and changes nothing; and so the file stays within the larger of the limit and the old
  buffer. But there is a reachable store within its limit in which a write inside of the buffer is accepted and takes the file past the limit.\<close>
theorem memdb_size_limit:
  assumes "store_ok p" and "memdbWrite realloc p bs ofs = Some (rc, p')"
  shows "(szAlloc p' = szAlloc p \<or> szAlloc p < ofs + length bs \<and> ofs + length bs \<le> szAlloc p' \<and> szAlloc p' \<le> szMax p) \<and>
    (\<not> fl_readonly p \<and> max (szAlloc p) (szMax p) < ofs + length bs \<longrightarrow> rc = SQLITE_FULL \<and> p' = p) \<and>
    memdbFileSize p' \<le> max (szMax p) (szAlloc p) \<and>
    (\<exists>fs fd f q q'. reachable fs \<and> files fs fd = Some f \<and> stores fs (pStore f) = Some q \<and> memdbFileSize q \<le> szMax q \<and>
       memdbWrite None q [1, 2, 3] 0 = Some (SQLITE_OK, q') \<and> szMax q' < memdbFileSize q')"
proof -
  note a = memdbWrite_alloc [OF assms]
  have "memdbFileSize p' \<le> szAlloc p'" using memdbWrite_spec' [OF assms] by (simp add: memdbFileSize_def store_ok_def)
  then have "memdbFileSize p' \<le> max (szMax p) (szAlloc p)" using a(2) by auto
  moreover have "memdbWrite None (limit_store\<lparr>szMax := 2\<rparr>) [1, 2, 3] 0 =
      Some (SQLITE_OK, limit_store\<lparr>szMax := 2, st_sz := 3, aData := [1, 2, 3, 0xff]\<rparr>)"
    by (simp add: limit_store_def new_store_def memdbWrite_def put_bytes_def numeral_eq_Suc)
  then have "\<exists>fs fd f q q'. reachable fs \<and> files fs fd = Some f \<and> stores fs (pStore f) = Some q \<and> memdbFileSize q \<le> szMax q \<and>
       memdbWrite None q [1, 2, 3] 0 = Some (SQLITE_OK, q') \<and> szMax q' < memdbFileSize q'"
    using reachable_limit by (intro exI conjI) (auto simp: put_file_def memdbFileSize_def limit_store_def)
  ultimately show ?thesis using a(2,3) by auto
qed

theorem memdb_size_limit_witness:
  "\<exists>p'. memdbWrite (Some (\<lambda>_. 0xff)) (new_store 4 None 0) [1, 2, 3] 0 = Some (SQLITE_OK, p') \<and> szAlloc p' \<le> 4"
proof -
  have s: "store_ok (new_store 4 None 0)" by (simp add: store_ok_def new_store_def)
  obtain p' where "memdbWrite (Some (\<lambda>_. 0xff)) (new_store 4 None 0) [1, 2, 3] 0 = Some (SQLITE_OK, p')"
    by (simp add: memdbWrite_def new_store_def memdbEnlarge_def put_bytes_def numeral_eq_Suc)
  with memdb_size_limit [OF s this] show ?thesis by (auto simp: new_store_def)
qed

end
