(* ===== verification/MemJournal.thy ===== *)
theory MemJournal
  imports Memdb
begin

text \<open>
  The journal file of \<open>memjournal.c\<close>: a list of chunks in memory that may be spilled to a real file.
  The linked list of chunks is the list \<open>chunks\<close>, a pointer to a chunk is an index into it; reading
  a chunk that is not there has no value. The files of the operating system are a parameter: the
  result of opening the journal and the write operation.
\<close>

record MemJournal =
  nChunkSize :: nat
  nSpill :: int
  chunks :: "u8 list list"
  end_off :: nat
  end_chunk :: "nat option"
  read_off :: nat
  read_chunk :: "nat option"

section \<open>Reading\<close>

fun find_chunk :: "nat \<Rightarrow> nat \<Rightarrow> nat \<Rightarrow> u8 list list \<Rightarrow> nat \<Rightarrow> nat option" where
  "find_chunk n iOff i [] iOfst = None"
| "find_chunk n iOff i (c # cs) iOfst =
     (if iOff + n \<le> iOfst then find_chunk n (iOff + n) (i + 1) cs iOfst else Some i)"

text \<open>The copying loop, from the chunk with index \<open>i\<close> on; it returns the bytes and the chunk at which
  the read point is left.\<close>

fun read_loop :: "nat \<Rightarrow> nat \<Rightarrow> u8 list list \<Rightarrow> int \<Rightarrow> nat \<Rightarrow> (u8 list \<times> nat option) option" where
  "read_loop n i [] nRead iChunkOffset = None"
| "read_loop n i (c # cs) nRead iChunkOffset =
     (let iSpace = n - iChunkOffset; nCopy = min (nat nRead) iSpace in
      case get_bytes c iChunkOffset nCopy of
        None \<Rightarrow> None
      | Some bs \<Rightarrow>
          let nRead = nRead - int iSpace in
          if nRead \<ge> 0 then
            (if cs = [] then Some (bs, None)
             else if nRead > 0 then map_option (\<lambda>(bs', r). (bs @ bs', r)) (read_loop n (i + 1) cs nRead 0)
             else Some (bs, Some (i + 1)))
          else Some (bs, Some i))"

definition memjrnlRead :: "MemJournal \<Rightarrow> nat \<Rightarrow> nat \<Rightarrow> (nat \<times> u8 list \<times> MemJournal) option" where
  "memjrnlRead p iAmt iOfst =
     (if iAmt + iOfst > end_off p then Some (SQLITE_IOERR_SHORT_READ, [], p)
      else
        let pChunk = (if read_off p \<noteq> iOfst \<or> iOfst = 0 then find_chunk (nChunkSize p) 0 0 (chunks p) iOfst
                      else read_chunk p)
        in case pChunk of
             None \<Rightarrow> None
           | Some i \<Rightarrow>
               map_option (\<lambda>(bs, r). (SQLITE_OK, bs,
                   p\<lparr>read_off := (if r \<noteq> None then iOfst + iAmt else 0), read_chunk := r\<rparr>))
                 (read_loop (nChunkSize p) i (drop i (chunks p)) (int iAmt) (iOfst mod nChunkSize p)))"

section \<open>Truncating and writing\<close>

fun last_chunk :: "nat \<Rightarrow> nat \<Rightarrow> nat \<Rightarrow> u8 list list \<Rightarrow> nat \<Rightarrow> nat option" where
  "last_chunk n iOff i [] nSize = None"
| "last_chunk n iOff i (c # cs) nSize =
     (if iOff < nSize then last_chunk n (iOff + n) (i + 1) cs nSize else Some i)"

definition memjrnlTruncate :: "MemJournal \<Rightarrow> nat \<Rightarrow> MemJournal" where
  "memjrnlTruncate p nSize =
     (if nSize < end_off p then
        let (cs, pIter) =
          (if nSize = 0 then ([], None)
           else case last_chunk (nChunkSize p) (nChunkSize p) 0 (chunks p) nSize of
                  None \<Rightarrow> (chunks p, None)
                | Some i \<Rightarrow> (take (i + 1) (chunks p), Some i))
        in p\<lparr>chunks := cs, end_chunk := pIter, end_off := nSize, read_chunk := None, read_off := 0\<rparr>
      else p)"

text \<open>\<open>fresh k\<close> is the content of the block that the \<open>k\<close>-th allocation returns, if it succeeds.\<close>

function write_loop ::
  "(nat \<Rightarrow> u8 list option) \<Rightarrow> nat \<Rightarrow> MemJournal \<Rightarrow> u8 list \<Rightarrow> (nat \<times> MemJournal) option" where
  "write_loop fresh k p zWrite =
     (if zWrite = [] then Some (SQLITE_OK, p)
      else if nChunkSize p = 0 then None
      else
        let iChunkOffset = end_off p mod nChunkSize p;
            iSpace = min (length zWrite) (nChunkSize p - iChunkOffset)
        in case (if iChunkOffset = 0 then
                   (case fresh k of
                      None \<Rightarrow> None
                    | Some pNew \<Rightarrow>
                        (case end_chunk p of
                           Some i \<Rightarrow> Some (p\<lparr>chunks := take (i + 1) (chunks p) @ [pNew], end_chunk := Some (i + 1)\<rparr>)
                         | None \<Rightarrow> Some (p\<lparr>chunks := [pNew], end_chunk := Some 0\<rparr>)))
                 else Some p) of
             None \<Rightarrow> Some (SQLITE_IOERR_NOMEM, p)
           | Some q \<Rightarrow>
               (case end_chunk q of
                  None \<Rightarrow> None
                | Some i \<Rightarrow>
                    if i < length (chunks q) then
                      (case put_bytes (chunks q ! i) iChunkOffset (take iSpace zWrite) of
                         None \<Rightarrow> None
                       | Some c \<Rightarrow>
                           write_loop fresh (k + 1) (q\<lparr>chunks := (chunks q)[i := c], end_off := end_off q + iSpace\<rparr>)
                             (drop iSpace zWrite))
                    else None))"
  by pat_completeness auto
termination
proof (relation "measure (\<lambda>(fresh, k, p, z). length z)")
  fix zWrite :: "u8 list" and p :: MemJournal and a b
  assume "zWrite \<noteq> []" "nChunkSize p \<noteq> 0" "a = end_off p mod nChunkSize p" "b = min (length zWrite) (nChunkSize p - a)"
  then show "((fresh, k + 1, q, drop b zWrite), fresh, k, p, zWrite) \<in> measure (\<lambda>(fresh, k, p, z). length z)" for fresh k q
    by (auto simp: min_def)
qed simp

declare write_loop.simps [simp del]

definition memjrnlWrite_mem ::
  "(nat \<Rightarrow> u8 list option) \<Rightarrow> MemJournal \<Rightarrow> u8 list \<Rightarrow> nat \<Rightarrow> (nat \<times> MemJournal) option" where
  "memjrnlWrite_mem fresh p zBuf iOfst =
     (let p = (if iOfst > 0 \<and> iOfst \<noteq> end_off p then memjrnlTruncate p iOfst else p)
      in if iOfst = 0 \<and> chunks p \<noteq> [] then
           map_option (\<lambda>c. (SQLITE_OK, p\<lparr>chunks := (chunks p)[0 := c]\<rparr>)) (put_bytes (chunks p ! 0) 0 zBuf)
         else write_loop fresh 0 p zBuf)"

section \<open>Spilling to a file\<close>

text \<open>A journal handle holds the chunks, or is the handle of the real file after the spill.\<close>

datatype 'f journal = InMemory MemJournal | OnDisk 'f

fun create_loop ::
  "('f \<Rightarrow> u8 list \<Rightarrow> nat \<Rightarrow> nat \<times> 'f) \<Rightarrow> nat \<Rightarrow> 'f \<Rightarrow> nat \<Rightarrow> nat \<Rightarrow> u8 list list \<Rightarrow> nat \<times> 'f" where
  "create_loop os_write endOff pReal nChunk iOff [] = (SQLITE_OK, pReal)"
| "create_loop os_write endOff pReal nChunk iOff (c # cs) =
     (let nChunk = (if iOff + nChunk > endOff then endOff - iOff else nChunk);
          (rc, pReal) = os_write pReal (take nChunk c) iOff
      in if rc \<noteq> SQLITE_OK then (rc, pReal)
         else create_loop os_write endOff pReal nChunk (iOff + nChunk) cs)"

definition memjrnlCreateFile ::
  "(nat \<times> 'f) \<Rightarrow> ('f \<Rightarrow> u8 list \<Rightarrow> nat \<Rightarrow> nat \<times> 'f) \<Rightarrow> MemJournal \<Rightarrow> nat \<times> 'f journal" where
  "memjrnlCreateFile os_open os_write p =
     (let (rc, pReal) = os_open;
          (rc, pReal) = (if rc = SQLITE_OK then create_loop os_write (end_off p) pReal (nChunkSize p) 0 (chunks p)
                         else (rc, pReal))
      in if rc \<noteq> SQLITE_OK then (rc, InMemory p) else (rc, OnDisk pReal))"





definition sqlite3JournalIsInMemory :: "'f journal \<Rightarrow> bool" where
  "sqlite3JournalIsInMemory j = (case j of InMemory p \<Rightarrow> True | OnDisk f \<Rightarrow> False)"

text \<open>\<open>main_journal\<close>: in builds with batch atomic writes, whether the journal was opened as a main journal.\<close>

definition sqlite3JournalCreate ::
  "(nat \<times> 'f) \<Rightarrow> ('f \<Rightarrow> u8 list \<Rightarrow> nat \<Rightarrow> nat \<times> 'f) \<Rightarrow> bool \<Rightarrow> 'f journal \<Rightarrow> nat \<times> 'f journal" where
  "sqlite3JournalCreate os_open os_write main_journal j =
     (case j of
        InMemory p \<Rightarrow> (if nSpill p > 0 \<or> main_journal then memjrnlCreateFile os_open os_write p else (SQLITE_OK, j))
      | OnDisk f \<Rightarrow> (SQLITE_OK, j))"

section \<open>Chunks and content\<close>

definition mj_ok :: "MemJournal \<Rightarrow> bool" where
  "mj_ok p \<longleftrightarrow> 0 < nChunkSize p \<and> (\<forall>c\<in>set (chunks p). length c = nChunkSize p) \<and>
     end_off p \<le> nChunkSize p * length (chunks p) \<and> nChunkSize p * length (chunks p) < end_off p + nChunkSize p \<and>
     end_chunk p = (if chunks p = [] then None else Some (length (chunks p) - 1)) \<and>
     (read_off p \<noteq> 0 \<longrightarrow> read_chunk p = Some (read_off p div nChunkSize p))"

definition mj_content :: "MemJournal \<Rightarrow> u8 list" where
  "mj_content p = take (end_off p) (concat (chunks p))"

lemma length_concat_same: "\<forall>c\<in>set cs. length c = n \<Longrightarrow> length (concat cs) = n * length cs"
  by (induction cs) auto

lemma concat_take_same: "\<forall>c\<in>set cs. length c = n \<Longrightarrow> concat (take k cs) = take (n * k) (concat cs)"
proof (induction cs arbitrary: k)
  case (Cons c cs)
  then show ?case by (cases k) auto
qed simp

lemma concat_drop_same: "\<forall>c\<in>set cs. length c = n \<Longrightarrow> concat (drop k cs) = drop (n * k) (concat cs)"
proof (induction cs arbitrary: k)
  case (Cons c cs)
  then show ?case by (cases k) auto
qed simp

lemma mj_content_length: "mj_ok p \<Longrightarrow> length (mj_content p) = end_off p"
  using length_concat_same [of "chunks p" "nChunkSize p"] by (simp add: mj_ok_def mj_content_def)

section \<open>Reading\<close>

lemma find_chunk_eq:
  assumes "0 < n" and "iOff \<le> iOfst"
  shows "find_chunk n iOff i cs iOfst = (if (iOfst - iOff) div n < length cs then Some (i + (iOfst - iOff) div n) else None)"
  using assms(2)
proof (induction cs arbitrary: iOff i)
  case (Cons c cs)
  show ?case
  proof (cases "iOff + n \<le> iOfst")
    case True
    then have "(iOfst - iOff) div n = Suc ((iOfst - (iOff + n)) div n)" using assms(1) by (simp add: le_div_geq)
    then show ?thesis using True Cons.IH [OF True, of "i + 1"] by simp
  next
    case False
    then have "iOfst - iOff < n" using Cons.prems by simp
    then show ?thesis using False by simp
  qed
qed simp

lemma read_loop_eq:
  assumes "0 < n" and "\<forall>c\<in>set cs. length c = n" and "ofs < n" and "0 < m" and "ofs + m \<le> n * length cs"
  shows "read_loop n i cs (int m) ofs =
    Some (take m (drop ofs (concat cs)), if (ofs + m) div n < length cs then Some (i + (ofs + m) div n) else None)"
  using assms(2-5)
proof (induction cs arbitrary: i m ofs)
  case (Cons c cs)
  have c: "length c = n" using Cons.prems(1) by simp
  have cp: "get_bytes c ofs (min m (n - ofs)) = Some (take (min m (n - ofs)) (drop ofs c))"
    using c Cons.prems(2) by (intro get_bytes_Some) simp
  show ?case
  proof (cases "m < n - ofs")
    case True
    then have "int m < int n - int ofs" by linarith
    then show ?thesis using True cp c by simp
  next
    case False
    then have d: "int m - int (n - ofs) = int (m - (n - ofs))" "(ofs + m) div n = Suc ((m - (n - ofs)) div n)"
      using Cons.prems(2) assms(1) by (simp_all add: of_nat_diff le_div_geq add.commute)
    have t: "take m (drop ofs (concat (c # cs))) = drop ofs c @ take (m - (n - ofs)) (concat cs)"
      using False c Cons.prems(2) by simp
    consider "cs = []" | "cs \<noteq> []" "m = n - ofs" | "cs \<noteq> []" "n - ofs < m" using False by linarith
    then show ?thesis
    proof cases
      case 1
      then have "m = n - ofs" using False Cons.prems(4) by simp
      then show ?thesis using 1 cp d(2) t c by simp
    next
      case 2
      then show ?thesis using False cp d t c by simp
    next
      case 3
      have "ofs + m \<le> n + n * length cs" using Cons.prems(4) by simp
      then have "read_loop n (i + 1) cs (int (m - (n - ofs))) 0 =
          Some (take (m - (n - ofs)) (drop 0 (concat cs)),
            if (0 + (m - (n - ofs))) div n < length cs then Some (i + 1 + (0 + (m - (n - ofs))) div n) else None)"
        using 3 Cons.prems(1) assms(1) Cons.prems(2) by (intro Cons.IH) auto
      moreover have "read_loop n i (c # cs) (int m) ofs =
          map_option (\<lambda>(bs', r). (drop ofs c @ bs', r)) (read_loop n (i + 1) cs (int (m - (n - ofs))) 0)"
        using 3 False cp c by (simp add: d(1) min_def Let_def del: of_nat_diff)
      ultimately show ?thesis using d(2) t by simp
    qed
  qed
qed simp

lemma memjrnlRead_ok:
  assumes "mj_ok p" and "0 < n" and "ofs + n \<le> end_off p"
  obtains p' where "memjrnlRead p n ofs = Some (SQLITE_OK, take n (drop ofs (mj_content p)), p')"
    and "mj_ok p'" and "mj_content p' = mj_content p"
proof -
  let ?n = "nChunkSize p" and ?cs = "chunks p"
  have n: "0 < ?n" and cs: "\<forall>c\<in>set ?cs. length c = ?n" and e: "end_off p \<le> ?n * length ?cs"
    using assms(1) by (simp_all add: mj_ok_def)
  have "ofs < ?n * length ?cs" using assms(2,3) e by linarith
  then have i: "ofs div ?n < length ?cs" by (simp add: less_mult_imp_div_less mult.commute)
  have f: "(if read_off p \<noteq> ofs \<or> ofs = 0 then find_chunk ?n 0 0 ?cs ofs else read_chunk p) = Some (ofs div ?n)"
    using find_chunk_eq [OF n, of 0 ofs 0 ?cs] i assms(1) by (auto simp: mj_ok_def)
  have ofs: "?n * (ofs div ?n) + ofs mod ?n = ofs" by simp
  have "\<forall>c\<in>set (drop (ofs div ?n) ?cs). length c = ?n" using cs by (meson in_set_dropD)
  moreover have "ofs mod ?n + n \<le> ?n * length (drop (ofs div ?n) ?cs)"
  proof -
    have "?n * length (drop (ofs div ?n) ?cs) = ?n * length ?cs - ?n * (ofs div ?n)" by (simp add: diff_mult_distrib2)
    then show ?thesis using assms(3) e ofs by linarith
  qed
  ultimately have l: "read_loop ?n (ofs div ?n) (drop (ofs div ?n) ?cs) (int n) (ofs mod ?n) =
      Some (take n (drop (ofs mod ?n) (concat (drop (ofs div ?n) ?cs))),
        if (ofs mod ?n + n) div ?n < length (drop (ofs div ?n) ?cs) then Some (ofs div ?n + (ofs mod ?n + n) div ?n) else None)"
    using n assms(2) by (intro read_loop_eq) simp_all
  have b: "take n (drop (ofs mod ?n) (concat (drop (ofs div ?n) ?cs))) = take n (drop ofs (mj_content p))"
    using assms(3) ofs by (simp add: concat_drop_same [OF cs] mj_content_def drop_take add.commute min_def)
  have "ofs div ?n + (ofs mod ?n + n) div ?n = (ofs + n) div ?n"
    using n by (metis div_mult_self4 mult.commute add.assoc ofs less_not_refl)
  then have "memjrnlRead p n ofs = Some (SQLITE_OK, take n (drop ofs (mj_content p)),
      p\<lparr>read_off := (if (ofs mod ?n + n) div ?n < length (drop (ofs div ?n) ?cs) then ofs + n else 0),
        read_chunk := (if (ofs mod ?n + n) div ?n < length (drop (ofs div ?n) ?cs) then Some ((ofs + n) div ?n) else None)\<rparr>)"
    using assms(3) f l b unfolding memjrnlRead_def by (simp add: add.commute)
  then show ?thesis using that assms(1) by (simp add: mj_ok_def mj_content_def)
qed

section \<open>Truncating\<close>

lemma last_chunk_eq:
  assumes "0 < n"
  shows "last_chunk n iOff i cs nSize =
    (if (nSize - iOff + n - 1) div n < length cs then Some (i + (nSize - iOff + n - 1) div n) else None)"
proof (induction cs arbitrary: iOff i)
  case (Cons c cs)
  show ?case
  proof (cases "iOff < nSize")
    case True
    have "(nSize - iOff + n - 1) div n = Suc ((nSize - iOff - 1) div n)"
      using True assms by (simp add: le_div_geq)
    moreover have "(nSize - (iOff + n) + n - 1) div n = (nSize - iOff - 1) div n"
      using True assms by (cases "iOff + n \<le> nSize") (simp_all add: div_less)
    ultimately show ?thesis using True Cons.IH [of "iOff + n" "i + 1"] by simp
  next
    case False
    then show ?thesis using assms by simp
  qed
qed simp

lemma memjrnlTruncate_ok:
  assumes "mj_ok p"
  shows "mj_ok (memjrnlTruncate p m)" and "mj_content (memjrnlTruncate p m) = take m (mj_content p)"
    and "nChunkSize (memjrnlTruncate p m) = nChunkSize p" and "nSpill (memjrnlTruncate p m) = nSpill p"
    and "end_off (memjrnlTruncate p m) = min m (end_off p)"
proof -
  let ?n = "nChunkSize p" and ?cs = "chunks p"
  have n: "0 < ?n" and cs: "\<forall>c\<in>set ?cs. length c = ?n" and e: "end_off p \<le> ?n * length ?cs"
    using assms by (simp_all add: mj_ok_def)
  have "mj_ok (memjrnlTruncate p m) \<and> mj_content (memjrnlTruncate p m) = take m (mj_content p) \<and>
    nChunkSize (memjrnlTruncate p m) = ?n \<and> nSpill (memjrnlTruncate p m) = nSpill p \<and>
    end_off (memjrnlTruncate p m) = min m (end_off p)"
  proof (cases "0 < m \<and> m < end_off p")
    case True
    define k where "k = (m - 1) div ?n"
    have m: "m - 1 = ?n * k + (m - 1) mod ?n" "(m - 1) mod ?n < ?n" using n by (simp_all add: k_def)
    have k: "m \<le> ?n * (k + 1)" "?n * (k + 1) < m + ?n" using m True by (simp_all add: algebra_simps) linarith
    have "?n * k < ?n * length ?cs" using m(1) True e by linarith
    then have kl: "k < length ?cs" by simp
    have "(m - ?n + ?n - 1) div ?n = k"
      using n True by (cases "?n \<le> m") (simp_all add: k_def div_less)
    then have l: "last_chunk ?n ?n 0 ?cs m = Some k" using last_chunk_eq [OF n, of ?n 0 ?cs m] kl by simp
    have t: "memjrnlTruncate p m =
        p\<lparr>chunks := take (k + 1) ?cs, end_chunk := Some k, end_off := m, read_chunk := None, read_off := 0\<rparr>"
      using True l by (simp add: memjrnlTruncate_def)
    have len: "length (take (k + 1) ?cs) = k + 1" using kl by simp
    have "mj_ok (memjrnlTruncate p m)"
      unfolding mj_ok_def t using n cs k len kl by (auto dest: in_set_takeD)
    moreover have "mj_content (memjrnlTruncate p m) = take m (mj_content p)"
      using True k(1) by (simp add: t mj_content_def concat_take_same [OF cs] min_def)
    ultimately show ?thesis using True by (simp add: t)
  next
    case False
    then show ?thesis using assms n by (cases "m < end_off p")
      (auto simp: memjrnlTruncate_def mj_ok_def mj_content_def)
  qed
  then show "mj_ok (memjrnlTruncate p m)" "mj_content (memjrnlTruncate p m) = take m (mj_content p)"
    "nChunkSize (memjrnlTruncate p m) = ?n" "nSpill (memjrnlTruncate p m) = nSpill p"
    "end_off (memjrnlTruncate p m) = min m (end_off p)" by simp_all
qed

section \<open>Writing\<close>

text \<open>Bytes that are put behind the end of the file into its last chunk.\<close>

lemma last_chunk_put:
  assumes "\<forall>d\<in>set ds. length d = n" and "length c = n" and "off + length zz \<le> n"
  shows "\<exists>c'. put_bytes c off zz = Some c' \<and> length c' = n \<and>
    take (n * length ds + off + length zz) (concat (ds @ [c'])) = take (n * length ds + off) (concat (ds @ [c])) @ zz"
  using assms(2,3) length_concat_same [OF assms(1)] by (simp add: put_bytes_def)

text \<open>The journal before a chunk is filled: the chunk is new, or the last one has room.\<close>

lemma write_step:
  assumes ok: "mj_ok p" and z: "z \<noteq> []" and fresh: "\<forall>k c. fresh k = Some c \<longrightarrow> length c = nChunkSize p"
  defines "off \<equiv> end_off p mod nChunkSize p"
  defines "sp \<equiv> min (length z) (nChunkSize p - off)"
  shows "(off = 0 \<and> fresh k = None \<and> write_loop fresh k p z = Some (SQLITE_IOERR_NOMEM, p)) \<or>
    (\<exists>p'. write_loop fresh k p z = write_loop fresh (k + 1) p' (drop sp z) \<and> mj_ok p' \<and> 0 < sp \<and>
      nChunkSize p' = nChunkSize p \<and> nSpill p' = nSpill p \<and> mj_content p' = mj_content p @ take sp z)"
proof -
  let ?n = "nChunkSize p"
  have n: "0 < ?n" and cs: "\<forall>c\<in>set (chunks p). length c = ?n" and e: "end_off p \<le> ?n * length (chunks p)"
    "?n * length (chunks p) < end_off p + ?n" "end_chunk p = (if chunks p = [] then None else Some (length (chunks p) - 1))"
    "read_off p \<noteq> 0 \<longrightarrow> read_chunk p = Some (read_off p div ?n)"
    using ok by (simp_all add: mj_ok_def)
  have off: "off < ?n" "end_off p = ?n * (end_off p div ?n) + off" using n by (simp_all add: off_def)
  have sp: "0 < sp" "off + sp \<le> ?n" "length (take sp z) = sp" using z off by (auto simp: sp_def)
  \<comment> \<open>the journal with the chunk that is written\<close>
  have step: "write_loop fresh k p z = write_loop fresh (k + 1) p' (drop sp z) \<and> mj_ok p' \<and>
      nChunkSize p' = ?n \<and> nSpill p' = nSpill p \<and> mj_content p' = mj_content p @ take sp z"
    if q: "q = p\<lparr>chunks := ds @ [c], end_chunk := Some (length ds)\<rparr>" and ds: "\<forall>d\<in>set ds. length d = ?n" "length c = ?n"
      and eq: "end_off p = ?n * length ds + off" and con: "mj_content p = take (end_off p) (concat (ds @ [c]))"
      and al: "(if off = 0 then
                  (case fresh k of
                     None \<Rightarrow> None
                   | Some pNew \<Rightarrow>
                       (case end_chunk p of
                          Some i \<Rightarrow> Some (p\<lparr>chunks := take (i + 1) (chunks p) @ [pNew], end_chunk := Some (i + 1)\<rparr>)
                        | None \<Rightarrow> Some (p\<lparr>chunks := [pNew], end_chunk := Some 0\<rparr>)))
                else Some p) = Some q"
      and c': "put_bytes c off (take sp z) = Some c'" "length c' = ?n"
        "take (?n * length ds + off + length (take sp z)) (concat (ds @ [c'])) = take (?n * length ds + off) (concat (ds @ [c])) @ take sp z"
      and p': "p' = q\<lparr>chunks := ds @ [c'], end_off := end_off p + sp\<rparr>"
    for q ds c c' p'
  proof -
    have "write_loop fresh k p z = write_loop fresh (k + 1) p' (drop sp z)"
      using z n al c' by (simp add: write_loop.simps [of fresh k p z] off_def [symmetric] sp_def [symmetric] q p')
    moreover have "mj_ok p'" using n ds c' sp eq e(4) by (auto simp: mj_ok_def p' q algebra_simps)
    moreover have "mj_content p' = mj_content p @ take sp z" using c'(3) sp(3) eq con by (simp add: mj_content_def p' q)
    ultimately show ?thesis by (simp add: p' q)
  qed
  show ?thesis
  proof (cases "off = 0")
    case True
    define q where "q = end_off p div ?n"
    have q: "end_off p = ?n * q" using off(2) True by (simp add: q_def)
    have "q \<le> length (chunks p)" using e(1) n unfolding q by simp
    moreover have "?n * length (chunks p) < ?n * (q + 1)" using e(2) unfolding q by simp
    then have "length (chunks p) < q + 1" by (simp only: mult_less_cancel1)
    ultimately have full: "end_off p = ?n * length (chunks p)" using q by simp
    show ?thesis
    proof (cases "fresh k")
      case None
      then show ?thesis using True z n by (simp add: write_loop.simps [of fresh k p z] off_def)
    next
      case (Some c)
      have c: "length c = ?n" using fresh Some by blast
      obtain c' where c': "put_bytes c off (take sp z) = Some c'" "length c' = ?n"
        "take (?n * length (chunks p) + off + length (take sp z)) (concat (chunks p @ [c'])) =
         take (?n * length (chunks p) + off) (concat (chunks p @ [c])) @ take sp z"
        using last_chunk_put [OF cs c, of off "take sp z"] sp by auto
      show ?thesis
        using step [of "p\<lparr>chunks := chunks p @ [c], end_chunk := Some (length (chunks p))\<rparr>" "chunks p" c c', OF refl cs c _ _ _ c' refl]
          True Some full e(3) sp(1) length_concat_same [OF cs] by (auto simp: mj_content_def)
    qed
  next
    case False
    then have "chunks p \<noteq> []" using e(1) off by auto
    then obtain ds c where d: "chunks p = ds @ [c]" by (metis append_butlast_last_id)
    have ds: "\<forall>d\<in>set ds. length d = ?n" "length c = ?n" using cs d by auto
    have "?n * length ds < end_off p" "end_off p \<le> ?n * length ds + ?n" using e(1,2) d by simp_all
    then have "end_off p div ?n = length ds \<or> end_off p = ?n * length ds + ?n"
      by (metis add.commute div_nat_eqI le_neq_implies_less less_imp_le_nat mult_Suc mult.commute)
    then have "end_off p div ?n = length ds" using False by (auto simp: off_def)
    then have eq: "end_off p = ?n * length ds + off" using off(2) by simp
    obtain c' where c': "put_bytes c off (take sp z) = Some c'" "length c' = ?n"
      "take (?n * length ds + off + length (take sp z)) (concat (ds @ [c'])) = take (?n * length ds + off) (concat (ds @ [c])) @ take sp z"
      using last_chunk_put [OF ds, of off "take sp z"] sp by auto
    have "p = p\<lparr>chunks := ds @ [c], end_chunk := Some (length ds)\<rparr>" using d e(3) by simp
    then show ?thesis
      using step [of p ds c c', OF _ ds eq _ _ c' refl] False sp(1) d by (auto simp: mj_content_def)
  qed
qed

lemma write_loop_ok:
  assumes "mj_ok p" and "\<forall>k c. fresh k = Some c \<longrightarrow> length c = nChunkSize p"
  shows "\<exists>rc p'. write_loop fresh k p z = Some (rc, p') \<and> mj_ok p' \<and> nChunkSize p' = nChunkSize p \<and> nSpill p' = nSpill p \<and>
    (rc = SQLITE_OK \<and> mj_content p' = mj_content p @ z \<or>
     rc = SQLITE_IOERR_NOMEM \<and> (\<exists>k. fresh k = None) \<and> (\<exists>j. mj_content p' = mj_content p @ take j z))"
  using assms
proof (induction "length z" arbitrary: k p z rule: less_induct)
  case less
  show ?case
  proof (cases "z = []")
    case True
    then show ?thesis using less.prems(1) by (simp add: write_loop.simps)
  next
    case False
    let ?sp = "min (length z) (nChunkSize p - end_off p mod nChunkSize p)"
    have "(fresh k = None \<and> write_loop fresh k p z = Some (SQLITE_IOERR_NOMEM, p)) \<or>
      (\<exists>p'. write_loop fresh k p z = write_loop fresh (k + 1) p' (drop ?sp z) \<and> mj_ok p' \<and> 0 < ?sp \<and>
        nChunkSize p' = nChunkSize p \<and> nSpill p' = nSpill p \<and> mj_content p' = mj_content p @ take ?sp z)"
      using write_step [OF less.prems(1) False less.prems(2), of k] by blast
    then show ?thesis
    proof
      assume "fresh k = None \<and> write_loop fresh k p z = Some (SQLITE_IOERR_NOMEM, p)"
      then show ?thesis using less.prems(1) by (auto intro: exI [of _ 0])
    next
      assume "\<exists>p'. write_loop fresh k p z = write_loop fresh (k + 1) p' (drop ?sp z) \<and> mj_ok p' \<and> 0 < ?sp \<and>
        nChunkSize p' = nChunkSize p \<and> nSpill p' = nSpill p \<and> mj_content p' = mj_content p @ take ?sp z"
      then obtain p1 sp where p1: "write_loop fresh k p z = write_loop fresh (k + 1) p1 (drop sp z)" "mj_ok p1" "0 < sp"
        "nChunkSize p1 = nChunkSize p" "nSpill p1 = nSpill p" "mj_content p1 = mj_content p @ take sp z" by blast
      have l: "length (drop sp z) < length z" using p1(3) False by simp
      have fr: "\<forall>k c. fresh k = Some c \<longrightarrow> length c = nChunkSize p1" using less.prems(2) p1(4) by simp
      obtain rc p' where p': "write_loop fresh (k + 1) p1 (drop sp z) = Some (rc, p')" "mj_ok p'" "nChunkSize p' = nChunkSize p1"
        "nSpill p' = nSpill p1" "rc = SQLITE_OK \<and> mj_content p' = mj_content p1 @ drop sp z \<or>
          rc = SQLITE_IOERR_NOMEM \<and> (\<exists>k. fresh k = None) \<and> (\<exists>j. mj_content p' = mj_content p1 @ take j (drop sp z))"
        using less.hyps [OF l p1(2) fr, of "k + 1"] by blast
      have "take sp z @ take j (drop sp z) = take (sp + j) z" for j by (simp add: take_add)
      then show ?thesis using p1 p' by (auto intro: exI [of _ "sp + _"])
    qed
  qed
qed

lemma memjrnlWrite_mem_ok:
  assumes "mj_ok p" and "\<forall>k c. fresh k = Some c \<longrightarrow> length c = nChunkSize p" and "ofs \<le> end_off p"
    and "ofs = 0 \<and> end_off p \<noteq> 0 \<longrightarrow> length bs < nChunkSize p \<and> length bs \<le> end_off p"
  shows "\<exists>rc p'. memjrnlWrite_mem fresh p bs ofs = Some (rc, p') \<and> mj_ok p' \<and> nChunkSize p' = nChunkSize p \<and> nSpill p' = nSpill p \<and>
    (rc = SQLITE_OK \<and> mj_content p' = (if ofs = 0 then overwrite (mj_content p) 0 bs else take ofs (mj_content p) @ bs) \<or>
     rc = SQLITE_IOERR_NOMEM \<and> (\<exists>k. fresh k = None) \<and> (ofs = 0 \<longrightarrow> end_off p = 0) \<and>
       (\<exists>j. mj_content p' = take ofs (mj_content p) @ take j bs))"
proof (cases "ofs = 0 \<and> end_off p \<noteq> 0")
  case True
  let ?n = "nChunkSize p"
  have n: "\<forall>c\<in>set (chunks p). length c = ?n" "end_off p \<le> ?n * length (chunks p)" using assms(1) by (simp_all add: mj_ok_def)
  then obtain c cs where cs: "chunks p = c # cs" using True by (cases "chunks p") auto
  have l: "length bs < ?n" "length bs \<le> end_off p" "length c = ?n" using assms(4) True n cs by auto
  let ?c' = "bs @ drop (length bs) c"
  have w: "memjrnlWrite_mem fresh p bs ofs = Some (SQLITE_OK, p\<lparr>chunks := ?c' # cs\<rparr>)"
    using True cs l by (simp add: memjrnlWrite_mem_def put_bytes_def)
  moreover have "mj_ok (p\<lparr>chunks := ?c' # cs\<rparr>)" using assms(1) l cs by (auto simp: mj_ok_def)
  moreover have "mj_content (p\<lparr>chunks := ?c' # cs\<rparr>) = overwrite (mj_content p) 0 bs"
    using l cs by (simp add: mj_content_def overwrite_def drop_take)
  ultimately show ?thesis using True by simp
next
  case False
  define q where "q = (if ofs > 0 \<and> ofs \<noteq> end_off p then memjrnlTruncate p ofs else p)"
  have q: "mj_ok q" "nChunkSize q = nChunkSize p" "nSpill q = nSpill p" "mj_content q = take ofs (mj_content p)"
    using memjrnlTruncate_ok [OF assms(1)] assms(1,3) mj_content_length [OF assms(1)] False by (auto simp: q_def)
  have e: "chunks q = []" if "ofs = 0"
    using False that assms(1) by (auto simp: q_def mj_ok_def)
  have w: "memjrnlWrite_mem fresh p bs ofs = write_loop fresh 0 q bs"
    using e by (auto simp: memjrnlWrite_mem_def q_def [symmetric] Let_def)
  have fr: "\<forall>k c. fresh k = Some c \<longrightarrow> length c = nChunkSize q" using assms(2) q(2) by simp
  have "overwrite (mj_content p) 0 bs = bs" if "ofs = 0"
    using False that mj_content_length [OF assms(1)] by (simp add: overwrite_def)
  moreover have "ofs = 0 \<longrightarrow> end_off p = 0" using False by auto
  ultimately show ?thesis using write_loop_ok [OF q(1) fr, of 0 bs] q w by auto
qed

section \<open>The journal as a file\<close>

text \<open>Journals are appended to, and their header is written again; both keep to the interface of a file.\<close>

definition mj_fits :: "MemJournal \<Rightarrow> nat \<Rightarrow> u8 list \<Rightarrow> bool" where
  "mj_fits p ofs bs \<longleftrightarrow> ofs = end_off p \<or> ofs = 0 \<and> length bs < nChunkSize p \<and> length bs \<le> end_off p"

text \<open>The allocations of chunks, by the bytes that a new block holds.\<close>

definition mj_fresh :: "(nat \<Rightarrow> (nat \<Rightarrow> u8) option) \<Rightarrow> MemJournal \<Rightarrow> nat \<Rightarrow> u8 list option" where
  "mj_fresh m p k = map_option (\<lambda>g. map g [0..<nChunkSize p]) (m k)"

definition mj_xWrite :: "(nat \<Rightarrow> (nat \<Rightarrow> u8) option) \<Rightarrow> MemJournal \<Rightarrow> u8 list \<Rightarrow> nat \<Rightarrow> (nat \<times> MemJournal) option" where
  "mj_xWrite m p bs ofs = memjrnlWrite_mem (mj_fresh m p) p bs ofs"

lemma mj_xWrite_ok:
  assumes "mj_ok p" and "mj_fits p ofs bs"
  shows "\<exists>rc p'. mj_xWrite m p bs ofs = Some (rc, p') \<and> mj_ok p' \<and>
    (if rc = SQLITE_OK then mj_content p' = overwrite (mj_content p) ofs bs
     else mj_content p' = mj_content p \<or> (\<exists>k. mj_content p' = overwrite (mj_content p) ofs (take k bs)))"
proof -
  have fr: "\<forall>k c. mj_fresh m p k = Some c \<longrightarrow> length c = nChunkSize p" by (auto simp: mj_fresh_def)
  have len: "length (mj_content p) = end_off p" by (rule mj_content_length [OF assms(1)])
  have app: "overwrite (mj_content p) ofs bs' = take ofs (mj_content p) @ bs'" if "ofs = end_off p" for bs'
    using overwrite_append [of "mj_content p" bs'] len that by simp
  have o: "ofs \<le> end_off p" "ofs = 0 \<and> end_off p \<noteq> 0 \<longrightarrow> length bs < nChunkSize p \<and> length bs \<le> end_off p"
    using assms(2) by (auto simp: mj_fits_def)
  obtain rc p' where w: "mj_xWrite m p bs ofs = Some (rc, p')" "mj_ok p'"
    "rc = SQLITE_OK \<and> mj_content p' = (if ofs = 0 then overwrite (mj_content p) 0 bs else take ofs (mj_content p) @ bs) \<or>
     rc = SQLITE_IOERR_NOMEM \<and> (ofs = 0 \<longrightarrow> end_off p = 0) \<and> (\<exists>j. mj_content p' = take ofs (mj_content p) @ take j bs)"
    using memjrnlWrite_mem_ok [OF assms(1) fr o] unfolding mj_xWrite_def by blast
  have "ofs = end_off p \<or> ofs = 0" using assms(2) by (auto simp: mj_fits_def)
  then have "if rc = SQLITE_OK then mj_content p' = overwrite (mj_content p) ofs bs
     else \<exists>k. mj_content p' = overwrite (mj_content p) ofs (take k bs)"
    using w(3) app by auto
  then show ?thesis using w(1,2) by auto
qed

interpretation memjrnl: byte_file mj_ok mj_content mj_fits mj_xWrite memjrnlRead
proof (unfold_locales)
  show "\<exists>rc s'. mj_xWrite m s bs ofs = Some (rc, s')" if "mj_ok s" "mj_fits s ofs bs" for m s bs ofs
    using mj_xWrite_ok [OF that, of m] by blast
  show "mj_ok s' \<and> (if rc = SQLITE_OK then mj_content s' = overwrite (mj_content s) ofs bs
      else mj_content s' = mj_content s \<or> (\<exists>k. mj_content s' = overwrite (mj_content s) ofs (take k bs)))"
    if "mj_ok s" "mj_fits s ofs bs" "mj_xWrite m s bs ofs = Some (rc, s')" for m s bs ofs rc s'
    using mj_xWrite_ok [OF that(1,2), of m] that(3) by auto
  show "\<exists>s'. memjrnlRead s n ofs = Some (SQLITE_OK, take n (drop ofs (mj_content s)), s') \<and>
      mj_ok s' \<and> mj_content s' = mj_content s"
    if "mj_ok s" "0 < n" "ofs + n \<le> length (mj_content s)" for s n ofs
    using memjrnlRead_ok [OF that(1,2)] that(3) mj_content_length [OF that(1)] by metis
qed

section \<open>The spill\<close>




section \<open>Sequences of operations\<close>







section \<open>Properties\<close>






end
