(* ===== verification/Mem5.thy ===== *)
theory Mem5
  imports Prelude "HOL-Library.Monad_Syntax"
begin

text \<open>
  The buddy allocator of \<open>mem5.c\<close>. The pool is an array of atoms; a block is an aligned run of
  \<open>2 ^ k\<close> atoms, described by the control byte of its first atom. Free blocks of one size are on a
  doubly linked list whose links are stored in the blocks: \<open>lnext\<close> and \<open>lprev\<close> are the links read
  from the memory of an atom, and copying a block copies the links of its atoms; other contents of the
  memory are not modelled. An access outside the pool has no value. The counters kept in
  debugging builds are left out.
\<close>

section \<open>State\<close>

definition LOGMAX :: nat where "LOGMAX = 30"
definition CTRL_LOGSIZE :: u8 where "CTRL_LOGSIZE = 0x1f"
definition CTRL_FREE :: u8 where "CTRL_FREE = 0x20"

record Mem5Global =
  szAtom :: nat
  nBlock :: nat
  lnext :: "nat \<Rightarrow> int"
  lprev :: "nat \<Rightarrow> int"
  aiFreelist :: "int list"
  aCtrl :: "u8 list"

definition ctrl_get :: "Mem5Global \<Rightarrow> nat \<Rightarrow> u8 option" where
  "ctrl_get m i = (if i < length (aCtrl m) then Some (aCtrl m ! i) else None)"

definition ctrl_set :: "Mem5Global \<Rightarrow> nat \<Rightarrow> u8 \<Rightarrow> Mem5Global option" where
  "ctrl_set m i c = (if i < length (aCtrl m) then Some (m\<lparr>aCtrl := (aCtrl m)[i := c]\<rparr>) else None)"

section \<open>Free lists\<close>

definition memsys5Unlink :: "Mem5Global \<Rightarrow> nat \<Rightarrow> nat \<Rightarrow> Mem5Global option" where
  "memsys5Unlink m i iLogsize =
     (if i < nBlock m \<and> iLogsize < length (aiFreelist m) then
        let next = lnext m i; prev = lprev m i;
            m = (if prev < 0 then m\<lparr>aiFreelist := (aiFreelist m)[iLogsize := next]\<rparr>
                 else m\<lparr>lnext := (lnext m)(nat prev := next)\<rparr>)
        in if (prev < 0 \<or> nat prev < nBlock m) \<and> (next < 0 \<or> nat next < nBlock m)
           then Some (if next \<ge> 0 then m\<lparr>lprev := (lprev m)(nat next := prev)\<rparr> else m)
           else None
      else None)"

definition memsys5Link :: "Mem5Global \<Rightarrow> nat \<Rightarrow> nat \<Rightarrow> Mem5Global option" where
  "memsys5Link m i iLogsize =
     (if i < nBlock m \<and> iLogsize < length (aiFreelist m) then
        let x = aiFreelist m ! iLogsize;
            m = m\<lparr>lnext := (lnext m)(i := x), lprev := (lprev m)(i := -1)\<rparr>
        in if x < 0 \<or> nat x < nBlock m
           then let m = (if x \<ge> 0 then m\<lparr>lprev := (lprev m)(nat x := int i)\<rparr> else m)
                in Some (m\<lparr>aiFreelist := (aiFreelist m)[iLogsize := int i]\<rparr>)
           else None
      else None)"

section \<open>Allocation\<close>

function round_loop :: "nat \<Rightarrow> nat \<Rightarrow> nat \<Rightarrow> nat \<times> nat" where
  "round_loop nByte iFullSz iLogsize =
     (if iFullSz < nByte \<and> 0 < iFullSz then round_loop nByte (iFullSz * 2) (iLogsize + 1) else (iFullSz, iLogsize))"
  by pat_completeness auto
termination
  by (relation "measure (\<lambda>(n, f, l). n - f)") auto

declare round_loop.simps [simp del]

function find_bin :: "int list \<Rightarrow> nat \<Rightarrow> nat" where
  "find_bin fl iBin = (if iBin \<le> LOGMAX \<and> fl ! iBin < 0 then find_bin fl (iBin + 1) else iBin)"
  by pat_completeness auto
termination
  by (relation "measure (\<lambda>(fl, b). LOGMAX + 1 - b)") auto

declare find_bin.simps [simp del]

text \<open>Splitting the block at \<open>i\<close> from size \<open>iLogsize + d\<close> down to \<open>iLogsize\<close>.\<close>

fun split_block :: "Mem5Global \<Rightarrow> nat \<Rightarrow> nat \<Rightarrow> nat \<Rightarrow> Mem5Global option" where
  "split_block m i iLogsize 0 = Some m"
| "split_block m i iLogsize (Suc d) =
     (let iBin = iLogsize + d; newSize = 2 ^ iBin in
      do {
        m \<leftarrow> ctrl_set m (i + newSize) (CTRL_FREE OR of_nat iBin);
        m \<leftarrow> memsys5Link m (i + newSize) iBin;
        split_block m i iLogsize d
      })"

text \<open>The result is the index of the block, or no block at all when the request cannot be met.\<close>

definition memsys5MallocUnsafe :: "Mem5Global \<Rightarrow> nat \<Rightarrow> (nat option \<times> Mem5Global) option" where
  "memsys5MallocUnsafe m nByte =
     (if nByte > 0x40000000 then Some (None, m)
      else
        let (iFullSz, iLogsize) = round_loop nByte (szAtom m) 0;
            iBin = find_bin (aiFreelist m) iLogsize
        in if iBin > LOGMAX then Some (None, m)
           else
             let i = nat (aiFreelist m ! iBin) in
             do {
               m \<leftarrow> memsys5Unlink m i iBin;
               m \<leftarrow> split_block m i iLogsize (iBin - iLogsize);
               m \<leftarrow> ctrl_set m i (of_nat iLogsize);
               Some (Some i, m)
             })"

definition memsys5Malloc :: "Mem5Global \<Rightarrow> int \<Rightarrow> (nat option \<times> Mem5Global) option" where
  "memsys5Malloc m nBytes = (if nBytes > 0 then memsys5MallocUnsafe m (nat nBytes) else Some (None, m))"

section \<open>Release\<close>

text \<open>The merging loop; its counter is the number of sizes that are left.\<close>

fun merge_loop :: "Mem5Global \<Rightarrow> nat \<Rightarrow> nat \<Rightarrow> nat \<Rightarrow> (Mem5Global \<times> nat \<times> nat) option" where
  "merge_loop m iBlock iLogsize 0 = Some (m, iBlock, iLogsize)"
| "merge_loop m iBlock iLogsize (Suc left) =
     (let size = 2 ^ iLogsize; odd_block = (drop_bit iLogsize iBlock AND 1 = 1);
          iBuddy = (if odd_block then iBlock - size else iBlock + size)
      in if \<not> odd_block \<and> iBuddy \<ge> nBlock m then Some (m, iBlock, iLogsize)
         else do {
           c \<leftarrow> ctrl_get m iBuddy;
           if c \<noteq> CTRL_FREE OR of_nat iLogsize then Some (m, iBlock, iLogsize)
           else do {
             m \<leftarrow> memsys5Unlink m iBuddy iLogsize;
             if iBuddy < iBlock then do {
               m \<leftarrow> ctrl_set m iBuddy (CTRL_FREE OR of_nat (iLogsize + 1));
               m \<leftarrow> ctrl_set m iBlock 0;
               merge_loop m iBuddy (iLogsize + 1) left
             } else do {
               m \<leftarrow> ctrl_set m iBlock (CTRL_FREE OR of_nat (iLogsize + 1));
               m \<leftarrow> ctrl_set m iBuddy 0;
               merge_loop m iBlock (iLogsize + 1) left
             }
           }
         })"

definition memsys5FreeUnsafe :: "Mem5Global \<Rightarrow> nat \<Rightarrow> Mem5Global option" where
  "memsys5FreeUnsafe m iBlock =
     do {
       c \<leftarrow> ctrl_get m iBlock;
       let iLogsize = unat (c AND CTRL_LOGSIZE);
       let size = 2 ^ iLogsize;
       m \<leftarrow> ctrl_set m iBlock (c OR CTRL_FREE);
       e \<leftarrow> ctrl_get m (iBlock + size - 1);
       m \<leftarrow> ctrl_set m (iBlock + size - 1) (e OR CTRL_FREE);
       m \<leftarrow> ctrl_set m iBlock (CTRL_FREE OR of_nat iLogsize);
       (m, iBlock, iLogsize) \<leftarrow> merge_loop m iBlock iLogsize (LOGMAX - iLogsize);
       memsys5Link m iBlock iLogsize
     }"

definition memsys5Free :: "Mem5Global \<Rightarrow> nat \<Rightarrow> Mem5Global option" where
  "memsys5Free m pPrior = memsys5FreeUnsafe m pPrior"

definition memsys5Size :: "Mem5Global \<Rightarrow> nat \<Rightarrow> nat option" where
  "memsys5Size m i = map_option (\<lambda>c. szAtom m * 2 ^ unat (c AND CTRL_LOGSIZE)) (ctrl_get m i)"

text \<open>\<open>memcpy\<close> of the first \<open>n\<close> bytes of a block to another one; of the content of an atom the state has what the links read.\<close>

definition copy_block :: "Mem5Global \<Rightarrow> nat \<Rightarrow> nat \<Rightarrow> nat \<Rightarrow> Mem5Global" where
  "copy_block m p pPrior n =
     m\<lparr>lnext := (\<lambda>x. if p \<le> x \<and> x < p + n div szAtom m then lnext m (pPrior + (x - p)) else lnext m x),
       lprev := (\<lambda>x. if p \<le> x \<and> x < p + n div szAtom m then lprev m (pPrior + (x - p)) else lprev m x)\<rparr>"

definition memsys5Realloc :: "Mem5Global \<Rightarrow> nat \<Rightarrow> nat \<Rightarrow> (nat option \<times> Mem5Global) option" where
  "memsys5Realloc m pPrior nBytes =
     (if nBytes = 0 then Some (None, m)
      else do {
        nOld \<leftarrow> memsys5Size m pPrior;
        if nBytes \<le> nOld then Some (Some pPrior, m)
        else do {
          (p, m) \<leftarrow> memsys5Malloc m (int nBytes);
          case p of None \<Rightarrow> Some (None, m)
          | Some p \<Rightarrow> do { m \<leftarrow> memsys5Free (copy_block m p pPrior nOld) pPrior; Some (Some p, m) }
        }
      })"

section \<open>Sizes and start-up\<close>

function roundup_loop :: "nat \<Rightarrow> nat \<Rightarrow> nat" where
  "roundup_loop n iFullSz = (if iFullSz < n \<and> 0 < iFullSz then roundup_loop n (iFullSz * 4) else iFullSz)"
  by pat_completeness auto
termination
  by (relation "measure (\<lambda>(n, f). n - f)") auto

declare roundup_loop.simps [simp del]

definition memsys5Roundup :: "Mem5Global \<Rightarrow> nat \<Rightarrow> nat" where
  "memsys5Roundup m n =
     (if n \<le> szAtom m * 2 then (if n \<le> szAtom m then szAtom m else szAtom m * 2)
      else if n > 0x10000000 then
        (if n > 0x40000000 then 0 else if n > 0x20000000 then 0x40000000 else 0x20000000)
      else let iFullSz = roundup_loop n (szAtom m * 8)
           in if iFullSz div 2 \<ge> n then iFullSz div 2 else iFullSz)"

function log_loop :: "nat \<Rightarrow> nat \<Rightarrow> nat" where
  "log_loop iValue iLog = (if iLog < 31 \<and> 2 ^ iLog < iValue then log_loop iValue (iLog + 1) else iLog)"
  by pat_completeness auto
termination
  by (relation "measure (\<lambda>(v, l). 31 - l)") auto

declare log_loop.simps [simp del]

definition memsys5Log :: "nat \<Rightarrow> nat" where
  "memsys5Log iValue = log_loop iValue 0"

text \<open>The atom must hold a \<open>Mem5Link\<close>, which has 8 bytes.\<close>

function grow_atom :: "nat \<Rightarrow> nat" where
  "grow_atom sz = (if sz < 8 \<and> 0 < sz then grow_atom (sz * 2) else sz)"
  by pat_completeness auto
termination
  by (relation "measure (\<lambda>sz. 8 - sz)") auto

declare grow_atom.simps [simp del]

definition init_szAtom :: "nat \<Rightarrow> nat" where
  "init_szAtom mnReq = grow_atom (2 ^ memsys5Log mnReq)"

fun init_loop :: "nat \<Rightarrow> Mem5Global \<Rightarrow> nat \<Rightarrow> (Mem5Global \<times> nat) option" where
  "init_loop 0 m iOffset = Some (m, iOffset)"
| "init_loop (Suc ii) m iOffset =
     (if iOffset + 2 ^ ii \<le> nBlock m then
        do {
          m \<leftarrow> ctrl_set m iOffset (of_nat ii OR CTRL_FREE);
          m \<leftarrow> memsys5Link m iOffset ii;
          init_loop ii m (iOffset + 2 ^ ii)
        }
      else init_loop ii m iOffset)"

text \<open>\<open>links\<close> and \<open>junk\<close> are what the pool and the control bytes hold before.\<close>

definition memsys5Init :: "nat \<Rightarrow> nat \<Rightarrow> (nat \<Rightarrow> int \<times> int) \<Rightarrow> (nat \<Rightarrow> u8) \<Rightarrow> Mem5Global option" where
  "memsys5Init nHeap mnReq links junk =
     (let sz = init_szAtom mnReq; n = nHeap div (sz + 1)
      in map_option fst (init_loop (LOGMAX + 1)
           \<lparr>szAtom = sz, nBlock = n, lnext = fst \<circ> links, lprev = snd \<circ> links, aiFreelist = replicate (LOGMAX + 1) (-1),
            aCtrl = map junk [0..<n]\<rparr> 0))"

section \<open>Blocks\<close>

text \<open>\<open>lev\<close> gives the size of the block that starts at an atom. The blocks below \<open>n\<close> are aligned,
  do not overlap, and cover all atoms below \<open>n\<close>.\<close>

definition part :: "nat \<Rightarrow> (nat \<rightharpoonup> nat) \<Rightarrow> bool" where
  "part n lev \<longleftrightarrow>
     (\<forall>s k. lev s = Some k \<longrightarrow> k \<le> LOGMAX \<and> 2 ^ k dvd s \<and> s + 2 ^ k \<le> n) \<and>
     (\<forall>a<n. \<exists>s k. lev s = Some k \<and> s \<le> a \<and> a < s + 2 ^ k) \<and>
     (\<forall>s k s' k'. lev s = Some k \<longrightarrow> lev s' = Some k' \<longrightarrow> s < s' \<longrightarrow> s + 2 ^ k \<le> s')"

lemma partD:
  assumes "part n lev" "lev s = Some k"
  shows "k \<le> LOGMAX" "2 ^ k dvd s" "s + 2 ^ k \<le> n" "s < n"
proof -
  show "k \<le> LOGMAX" "2 ^ k dvd s" "s + 2 ^ k \<le> n" using assms by (auto simp: part_def)
  moreover have "(0::nat) < 2 ^ k" by simp
  ultimately show "s < n" by linarith
qed

lemma part_cover: "part n lev \<Longrightarrow> a < n \<Longrightarrow> \<exists>s k. lev s = Some k \<and> s \<le> a \<and> a < s + 2 ^ k"
  by (auto simp: part_def)

lemma part_apart: "part n lev \<Longrightarrow> lev s = Some k \<Longrightarrow> lev s' = Some k' \<Longrightarrow> s < s' \<Longrightarrow> s + 2 ^ k \<le> s'"
  by (auto simp: part_def)

lemma part_unique:
  assumes "part n lev" "lev s = Some k" "lev s' = Some k'" "s \<le> a" "a < s + 2 ^ k" "s' \<le> a" "a < s' + 2 ^ k'"
  shows "s = s'"
  using part_apart [OF assms(1,2,3)] part_apart [OF assms(1,3,2)] assms(4-) by (cases s s' rule: linorder_cases) auto

lemma part_split:
  assumes p: "part n lev" and i: "lev i = Some (Suc b)"
  shows "part n (lev(i \<mapsto> b, i + 2 ^ b \<mapsto> b))" "lev (i + 2 ^ b) = None"
proof -
  let ?j = "i + 2 ^ b"
  have pos: "(0::nat) < 2 ^ b" by simp
  have d: "2 ^ Suc b dvd i" "i + 2 ^ Suc b \<le> n" "b < LOGMAX" using partD [OF p i] by auto
  have db: "2 ^ b dvd i" using d(1) by (meson dvd_trans le_imp_power_dvd le_SucI order_refl)
  show j: "lev ?j = None"
  proof (rule ccontr)
    assume "lev ?j \<noteq> None"
    then obtain k where "lev ?j = Some k" by auto
    from part_apart [OF p i this] pos show False by simp
  qed
  let ?l = "lev(i \<mapsto> b, ?j \<mapsto> b)"
  have 1: "k \<le> LOGMAX \<and> 2 ^ k dvd s \<and> s + 2 ^ k \<le> n" if "?l s = Some k" for s k
    using that d db partD [OF p, of s k] by (auto split: if_splits)
  have 2: "\<exists>s k. ?l s = Some k \<and> s \<le> a \<and> a < s + 2 ^ k" if an: "a < n" for a
  proof -
    obtain s k where s: "lev s = Some k" "s \<le> a" "a < s + 2 ^ k" using part_cover [OF p an] by blast
    show ?thesis
    proof (cases "s = i")
      case True
      show ?thesis
      proof (cases "a < ?j")
        case True then show ?thesis using s \<open>s = i\<close> pos by (intro exI [of _ i] exI [of _ b]) auto
      next
        case False then show ?thesis using s i \<open>s = i\<close> by (intro exI [of _ ?j] exI [of _ b]) auto
      qed
    next
      case False
      then show ?thesis using s j by (intro exI [of _ s] exI [of _ k]) auto
    qed
  qed
  have 3: "s + 2 ^ k \<le> s'" if h: "?l s = Some k" "?l s' = Some k'" "s < s'" for s k s' k'
  proof -
    consider "s = i" "s' = ?j" | "s = i" "s' \<noteq> i" "s' \<noteq> ?j" | "s = ?j" "s' \<noteq> i" "s' \<noteq> ?j"
      | "s \<noteq> i" "s \<noteq> ?j" "s' = i" | "s \<noteq> i" "s \<noteq> ?j" "s' = ?j" | "s \<noteq> i" "s \<noteq> ?j" "s' \<noteq> i" "s' \<noteq> ?j"
      using h(3) pos by fastforce
    then show ?thesis
    proof cases
      case 5
      then have l: "lev s = Some k" using h by simp
      show ?thesis
      proof (cases "s < i")
        case True then show ?thesis using part_apart [OF p l i] 5 by simp
      next
        case False
        then show ?thesis using part_apart [OF p i l] 5 h(3) by simp
      qed
    qed (use h pos part_apart [OF p i, of s' k'] part_apart [OF p _ i, of s k] part_apart [OF p, of s k s' k'] in auto)
  qed
  from 1 2 3 show "part n ?l" unfolding part_def by blast
qed

lemma part_merge:
  assumes p: "part n lev" and i: "lev i = Some b" and j: "lev (i + 2 ^ b) = Some b" and d: "2 ^ Suc b dvd i" and b: "b < LOGMAX"
  shows "part n (lev(i + 2 ^ b := None, i \<mapsto> Suc b))"
proof -
  let ?j = "i + 2 ^ b" let ?l = "lev(?j := None, i \<mapsto> Suc b)"
  have pos: "(0::nat) < 2 ^ b" by simp
  have 1: "k \<le> LOGMAX \<and> 2 ^ k dvd s \<and> s + 2 ^ k \<le> n" if "?l s = Some k" for s k
    using that d b partD [OF p, of s k] partD(3) [OF p j] by (auto split: if_splits)
  have 2: "\<exists>s k. ?l s = Some k \<and> s \<le> a \<and> a < s + 2 ^ k" if an: "a < n" for a
  proof -
    obtain s k where s: "lev s = Some k" "s \<le> a" "a < s + 2 ^ k" using part_cover [OF p an] by blast
    show ?thesis
    proof (cases "s = i \<or> s = ?j")
      case True
      then show ?thesis using s i j by (intro exI [of _ i] exI [of _ "Suc b"]) auto
    next
      case False
      then show ?thesis using s by (intro exI [of _ s] exI [of _ k]) auto
    qed
  qed
  have 3: "s + 2 ^ k \<le> s'" if h: "?l s = Some k" "?l s' = Some k'" "s < s'" for s k s' k'
  proof -
    consider "s = i" "s' \<noteq> i" "s' \<noteq> ?j" | "s \<noteq> i" "s \<noteq> ?j" "s' = i" | "s \<noteq> i" "s \<noteq> ?j" "s' \<noteq> i" "s' \<noteq> ?j"
      using h pos by (fastforce split: if_splits)
    then show ?thesis
    proof cases
      case 1
      then have l: "lev s' = Some k'" "k = Suc b" using h by auto
      have "?j < s'" using part_apart [OF p i l(1)] 1 h(3) by simp
      then show ?thesis using part_apart [OF p j l(1)] 1 l by simp
    qed (use h pos part_apart [OF p _ i, of s k] part_apart [OF p, of s k s' k'] in auto)
  qed
  from 1 2 3 show ?thesis unfolding part_def by blast
qed

text \<open>The buddy of a block at \<open>i\<close> of size \<open>2 ^ b\<close>.\<close>

definition buddy :: "nat \<Rightarrow> nat \<Rightarrow> nat" where
  "buddy b i = (if odd (i div 2 ^ b) then i - 2 ^ b else i + 2 ^ b)"

lemma buddy_odd:
  assumes "2 ^ b dvd i" "odd (i div 2 ^ b)"
  shows "2 ^ b \<le> i" "2 ^ Suc b dvd i - 2 ^ b" "buddy b i + 2 ^ b = i"
proof -
  obtain q where q: "i = 2 ^ b * q" using assms(1) by blast
  then have o: "odd q" using assms(2) by simp
  then obtain r where r: "q = 2 * r + 1" by (elim oddE)
  show *: "2 ^ b \<le> i" using q r by simp
  show "2 ^ Suc b dvd i - 2 ^ b" using q r by (simp add: algebra_simps)
  show "buddy b i + 2 ^ b = i" using * assms(2) by (simp add: buddy_def)
qed

lemma buddy_even:
  assumes "2 ^ b dvd i" "even (i div 2 ^ b)"
  shows "2 ^ Suc b dvd i" "buddy b i = i + 2 ^ b"
proof -
  obtain q where q: "i = 2 ^ b * q" using assms(1) by blast
  then have "even q" using assms(2) by simp
  then show "2 ^ Suc b dvd i" using q by (auto simp: mult.commute mult_dvd_mono)
  show "buddy b i = i + 2 ^ b" using assms(2) by (simp add: buddy_def)
qed

text \<open>The pair of a block and its buddy is aligned.\<close>

lemma buddy_base:
  assumes "2 ^ b dvd i"
  obtains c where "2 ^ Suc b dvd c" "(i = c \<and> buddy b i = c + 2 ^ b) \<or> (i = c + 2 ^ b \<and> buddy b i = c)"
proof (cases "odd (i div 2 ^ b)")
  case True
  have "buddy b i = i - 2 ^ b" "i = (i - 2 ^ b) + 2 ^ b" using buddy_odd [OF assms True] by auto
  then show ?thesis using that [of "i - 2 ^ b"] buddy_odd(2) [OF assms True] by blast
next
  case False
  then show ?thesis using that [of i] buddy_even [OF assms] by auto
qed

lemma buddy_pair: "2 ^ Suc b dvd c \<Longrightarrow> buddy b c = c + 2 ^ b \<and> buddy b (c + 2 ^ b) = c"
proof -
  assume "2 ^ Suc b dvd c"
  then obtain r where "c = 2 ^ b * (2 * r)" by (auto simp: dvd_def mult.assoc)
  then show ?thesis by (simp add: buddy_def)
qed

lemma buddy_buddy: "2 ^ b dvd i \<Longrightarrow> buddy b (buddy b i) = i"
proof -
  assume d: "2 ^ b dvd i"
  obtain c where c: "2 ^ Suc b dvd c" "(i = c \<and> buddy b i = c + 2 ^ b) \<or> (i = c + 2 ^ b \<and> buddy b i = c)"
    by (rule buddy_base [OF d])
  show ?thesis using c(2) buddy_pair [OF c(1)] by auto
qed

lemma dvd_in_block:
  assumes "(d::nat) dvd s" "d dvd j" "s \<le> j" "j < s + d"
  shows "j = s"
proof -
  have "d dvd j - s" using assms(1,2) by (rule dvd_diff_nat [rotated])
  moreover have "j - s < d" using assms(3,4) by linarith
  ultimately have "j - s = 0" by (metis dvd_imp_le not_less zero_less_iff_neq_zero)
  then show ?thesis using assms(3) by simp
qed

lemma dvd_block_le:
  assumes "(d::nat) dvd c" "d dvd e" "c < e"
  shows "c + d \<le> e"
proof -
  have "d dvd e - c" using assms(1,2) by simp
  then have "d \<le> e - c" using assms(3) by (intro dvd_imp_le) auto
  then show ?thesis using assms(3) by linarith
qed

lemma pow_dvd_le: "k \<le> b \<Longrightarrow> 2 ^ b dvd i \<Longrightarrow> 2 ^ k dvd (i::nat)"
  by (meson dvd_trans le_imp_power_dvd)

text \<open>The buddy of a block, when it is in the pool, starts a block that is not larger.\<close>

lemma buddy_start:
  assumes p: "part n lev" and i: "lev i = Some b" and j: "buddy b i < n"
  shows "\<exists>k\<le>b. lev (buddy b i) = Some k"
proof -
  have di: "2 ^ b dvd i" using partD [OF p i] by simp
  obtain c where c: "2 ^ Suc b dvd c" "(i = c \<and> buddy b i = c + 2 ^ b) \<or> (i = c + 2 ^ b \<and> buddy b i = c)"
    by (rule buddy_base [OF di])
  let ?j = "buddy b i"
  have dj: "2 ^ b dvd ?j" using c(2) di c(1) by (metis dvd_add_left_iff dvd_refl)
  obtain s k where s: "lev s = Some k" "s \<le> ?j" "?j < s + 2 ^ k" using part_cover [OF p j] by blast
  have ds: "2 ^ k dvd s" using partD [OF p s(1)] by simp
  show ?thesis
  proof (cases "k \<le> b")
    case True
    have "?j = s" by (rule dvd_in_block [OF ds pow_dvd_le [OF True dj] s(2,3)])
    then show ?thesis using True s(1) by auto
  next
    case False
    then have bk: "Suc b \<le> k" by simp
    have D: "2 ^ Suc b dvd s" by (rule pow_dvd_le [OF bk ds])
    have D2: "2 ^ Suc b dvd s + 2 ^ k" by (intro dvd_add D le_imp_power_dvd bk)
    have pos: "(0::nat) < 2 ^ b" by simp
    have "\<not> c < s"
    proof
      assume "c < s" then have "c + 2 ^ Suc b \<le> s" by (rule dvd_block_le [OF c(1) D])
      then show False using s(2) c(2) pos by auto
    qed
    moreover have "c < s + 2 ^ k" using s(3) c(2) by auto
    then have "c + 2 ^ Suc b \<le> s + 2 ^ k" by (rule dvd_block_le [OF c(1) D2])
    moreover have "c \<le> i" "i < c + 2 ^ Suc b" using c(2) by auto
    ultimately have "s \<le> i" "i < s + 2 ^ k" by linarith+
    then have "s = i" using part_unique [OF p s(1) i, of i] by simp
    then show ?thesis using s(1) i False by simp
  qed
qed

section \<open>Free lists as lists\<close>

fun first_of :: "nat list \<Rightarrow> int" where
  "first_of [] = -1"
| "first_of (x # xs) = int x"

fun linked :: "(nat \<Rightarrow> int) \<Rightarrow> (nat \<Rightarrow> int) \<Rightarrow> int \<Rightarrow> nat list \<Rightarrow> bool" where
  "linked nx pv p [] = True"
| "linked nx pv p (x # xs) \<longleftrightarrow> pv x = p \<and> nx x = first_of xs \<and> linked nx pv (int x) xs"

fun last_of :: "int \<Rightarrow> nat list \<Rightarrow> int" where
  "last_of p [] = p"
| "last_of p (x # xs) = last_of (int x) xs"

lemma linked_cong: "(\<And>x. x \<in> set xs \<Longrightarrow> nx' x = nx x \<and> pv' x = pv x) \<Longrightarrow> linked nx' pv' p xs = linked nx pv p xs"
  by (induction xs arbitrary: p) auto

lemma last_of_neg: "last_of p xs < 0 \<longleftrightarrow> xs = [] \<and> p < 0"
  by (induction xs arbitrary: p) auto

lemma last_of_in: "xs \<noteq> [] \<Longrightarrow> nat (last_of p xs) \<in> set xs"
proof (induction xs arbitrary: p)
  case (Cons x xs)
  then show ?case by (cases xs) auto
qed simp

lemma linked_middle:
  "linked nx pv p (xs @ i # ys) \<Longrightarrow> pv i = last_of p xs \<and> nx i = first_of ys"
  by (induction xs arbitrary: p) auto

lemma linked_unlink:
  assumes "linked nx pv p (xs @ i # ys)" "distinct (xs @ i # ys)"
    and "nx' = (if xs = [] then nx else nx(nat (last_of p xs) := first_of ys))"
    and "pv' = (case ys of [] \<Rightarrow> pv | y # _ \<Rightarrow> pv(y := last_of p xs))"
  shows "linked nx' pv' p (xs @ ys)"
  using assms
proof (induction xs arbitrary: p nx')
  case Nil
  show ?case
  proof (cases ys)
    case (Cons y zs)
    have "linked nx (pv(y := p)) (int y) zs = linked nx pv (int y) zs"
      by (rule linked_cong) (use Nil.prems(2) Cons in auto)
    then show ?thesis using Nil.prems Cons by (simp add: fun_upd_def)
  qed simp
next
  case (Cons x xs)
  let ?n = "if xs = [] then nx else nx(nat (last_of (int x) xs) := first_of ys)"
  have d: "x \<notin> set xs" "x \<notin> set ys" using Cons.prems(2) by auto
  have IH: "linked ?n pv' (int x) (xs @ ys)"
    by (rule Cons.IH) (use Cons.prems in \<open>auto split: list.splits\<close>)
  have pvx: "pv' x = p" using Cons.prems d by (auto split: list.splits)
  show ?case
  proof (cases "xs = []")
    case True
    have "linked nx' pv' (int x) ys = linked nx pv' (int x) ys"
      by (rule linked_cong) (use Cons.prems(3) True d in auto)
    then show ?thesis using IH True pvx Cons.prems(3) by auto
  next
    case False
    then have "nat (last_of (int x) xs) \<noteq> x" using last_of_in [of xs "int x"] d by auto
    moreover have "first_of (xs @ ys) = first_of (xs @ i # ys)" using False by (cases xs) auto
    moreover have "nx' = ?n" using Cons.prems(3) False by (simp add: fun_upd_def)
    ultimately show ?thesis using IH False pvx Cons.prems(1) by (auto simp: fun_upd_def)
  qed
qed

definition on_list :: "Mem5Global \<Rightarrow> nat \<Rightarrow> nat list \<Rightarrow> bool" where
  "on_list m k xs \<longleftrightarrow> distinct xs \<and> aiFreelist m ! k = first_of xs \<and> linked (lnext m) (lprev m) (-1) xs"

section \<open>Invariant\<close>

text \<open>\<open>fr\<close> are the free blocks and \<open>us\<close> the blocks that are checked out; other blocks are held by the
  running operation.\<close>

definition mem5_inv :: "nat \<Rightarrow> Mem5Global \<Rightarrow> (nat \<rightharpoonup> nat) \<Rightarrow> nat set \<Rightarrow> nat set \<Rightarrow> bool" where
  "mem5_inv n m lev fr us \<longleftrightarrow>
     part n lev \<and> n \<le> nBlock m \<and> length (aCtrl m) = nBlock m \<and> length (aiFreelist m) = LOGMAX + 1 \<and>
     fr \<subseteq> dom lev \<and> us \<subseteq> dom lev \<and> fr \<inter> us = {} \<and>
     (\<forall>s\<in>fr. aCtrl m ! s = CTRL_FREE OR of_nat (the (lev s))) \<and>
     (\<forall>s\<in>us. aCtrl m ! s = of_nat (the (lev s))) \<and>
     (\<forall>s\<in>fr. \<forall>k<LOGMAX. lev s = Some k \<longrightarrow> \<not> (buddy k s \<in> fr \<and> lev (buddy k s) = Some k)) \<and>
     (\<forall>k\<le>LOGMAX. \<exists>xs. on_list m k xs \<and> set xs = {s \<in> fr. lev s = Some k})"

lemma mem5_invD:
  assumes "mem5_inv n m lev fr us"
  shows "part n lev" "n \<le> nBlock m" "length (aCtrl m) = nBlock m" "length (aiFreelist m) = LOGMAX + 1"
    "fr \<subseteq> dom lev" "us \<subseteq> dom lev" "fr \<inter> us = {}"
    "s \<in> fr \<Longrightarrow> aCtrl m ! s = CTRL_FREE OR of_nat (the (lev s))"
    "s \<in> us \<Longrightarrow> aCtrl m ! s = of_nat (the (lev s))"
    "s \<in> fr \<Longrightarrow> k < LOGMAX \<Longrightarrow> lev s = Some k \<Longrightarrow> buddy k s \<in> fr \<Longrightarrow> lev (buddy k s) \<noteq> Some k"
    "k \<le> LOGMAX \<Longrightarrow> \<exists>xs. on_list m k xs \<and> set xs = {s \<in> fr. lev s = Some k}"
  using assms unfolding mem5_inv_def by blast+

lemma mem5_lt:
  assumes "mem5_inv n m lev fr us" "s \<in> dom lev"
  shows "s < nBlock m"
  using assms partD(4) [OF mem5_invD(1) [OF assms(1)]] mem5_invD(2) [OF assms(1)] by fastforce

text \<open>The links in the memory of the atoms outside of \<open>S\<close> are as they were.\<close>

definition links_kept :: "nat set \<Rightarrow> Mem5Global \<Rightarrow> Mem5Global \<Rightarrow> bool" where
  "links_kept S m m' \<longleftrightarrow> (\<forall>x. x \<notin> S \<longrightarrow> lnext m' x = lnext m x \<and> lprev m' x = lprev m x)"

lemma links_kept_refl [simp]: "links_kept S m m"
  by (simp add: links_kept_def)

lemma links_kept_trans: "links_kept S m m1 \<Longrightarrow> links_kept T m1 m2 \<Longrightarrow> S \<subseteq> U \<Longrightarrow> T \<subseteq> U \<Longrightarrow> links_kept U m m2"
  unfolding links_kept_def by (metis subsetD)

lemma ctrl_set_inv:
  assumes v: "mem5_inv n m lev fr us" and i: "i < nBlock m" "i \<notin> fr" "i \<notin> us"
  shows "\<exists>m'. ctrl_set m i c = Some m' \<and> mem5_inv n m' lev fr us \<and> aCtrl m' = (aCtrl m)[i := c] \<and>
    nBlock m' = nBlock m \<and> szAtom m' = szAtom m \<and> links_kept {} m m'"
proof -
  let ?m = "m\<lparr>aCtrl := (aCtrl m)[i := c]\<rparr>"
  have "ctrl_set m i c = Some ?m" using mem5_invD(3) [OF v] i by (simp add: ctrl_set_def)
  moreover have "aCtrl ?m ! s = aCtrl m ! s" if "s \<in> fr \<union> us" for s
    by (cases "s = i") (use that i in auto)
  then have "mem5_inv n ?m lev fr us" using v unfolding mem5_inv_def on_list_def by simp
  ultimately show ?thesis by (simp add: links_kept_def)
qed

lemma split_inv:
  assumes v: "mem5_inv n m lev fr us" and i: "lev i = Some (Suc b)" "i \<notin> fr" "i \<notin> us"
  shows "mem5_inv n m (lev(i \<mapsto> b, i + 2 ^ b \<mapsto> b)) fr us" "i + 2 ^ b \<notin> fr" "i + 2 ^ b \<notin> us"
proof -
  note p = part_split [OF mem5_invD(1) [OF v] i(1)]
  show j: "i + 2 ^ b \<notin> fr" "i + 2 ^ b \<notin> us" using p(2) mem5_invD(5,6) [OF v] by blast+
  have same: "(lev(i \<mapsto> b, i + 2 ^ b \<mapsto> b)) s = lev s" if "s \<in> fr \<union> us" for s using that i j by auto
  have "{s \<in> fr. (lev(i \<mapsto> b, i + 2 ^ b \<mapsto> b)) s = Some k} = {s \<in> fr. lev s = Some k}" for k
    by (intro Collect_cong conj_cong refl) (subst same, simp_all)
  moreover have "fr \<subseteq> dom (lev(i \<mapsto> b, i + 2 ^ b \<mapsto> b))" "us \<subseteq> dom (lev(i \<mapsto> b, i + 2 ^ b \<mapsto> b))"
    using mem5_invD(5,6) [OF v] by auto
  ultimately show "mem5_inv n m (lev(i \<mapsto> b, i + 2 ^ b \<mapsto> b)) fr us"
    using v p(1) same unfolding mem5_inv_def by (simp del: fun_upd_apply)
qed

lemma merge_inv:
  assumes v: "mem5_inv n m lev fr us" and i: "lev i = Some b" "lev (i + 2 ^ b) = Some b" "2 ^ Suc b dvd i" "b < LOGMAX"
    and o: "i \<notin> fr \<union> us" "i + 2 ^ b \<notin> fr \<union> us"
  shows "mem5_inv n m (lev(i + 2 ^ b := None, i \<mapsto> Suc b)) fr us"
proof -
  note p = part_merge [OF mem5_invD(1) [OF v] i]
  let ?l = "lev(i + 2 ^ b := None, i \<mapsto> Suc b)"
  have same: "?l s = lev s" if "s \<in> fr \<union> us" for s using that o by auto
  have "{s \<in> fr. ?l s = Some k} = {s \<in> fr. lev s = Some k}" for k
    by (intro Collect_cong conj_cong refl) (subst same, simp_all)
  moreover have "fr \<subseteq> dom ?l" "us \<subseteq> dom ?l" using mem5_invD(5,6) [OF v] o by auto
  ultimately show ?thesis
    using v p(1) same unfolding mem5_inv_def by (simp del: fun_upd_apply)
qed

lemma use_inv:
  assumes "mem5_inv n m lev fr us" "lev i = Some k" "i \<notin> fr" "aCtrl m ! i = of_nat k"
  shows "mem5_inv n m lev fr (insert i us)"
  using assms unfolding mem5_inv_def by auto

lemma unuse_inv: "mem5_inv n m lev fr us \<Longrightarrow> mem5_inv n m lev fr (us - X)"
  unfolding mem5_inv_def by blast

lemma first_of_in: "first_of xs \<ge> 0 \<Longrightarrow> nat (first_of xs) \<in> set xs"
  by (cases xs) auto

lemma first_of_neg: "first_of xs < 0 \<longleftrightarrow> xs = []"
  by (cases xs) auto

text \<open>The lists of other sizes do not change when the links of one list do.\<close>

lemma other_lists:
  assumes l: "\<forall>k\<le>LOGMAX. \<exists>xs. on_list m k xs \<and> set xs = {s \<in> fr. lev s = Some k}"
    and k: "k \<le> LOGMAX" and xs: "on_list m' k xs" "set xs = {s \<in> fr'. lev s = Some k}"
    and fl: "\<And>j. j \<noteq> k \<Longrightarrow> aiFreelist m' ! j = aiFreelist m ! j"
    and same: "\<And>s. s \<in> fr \<Longrightarrow> lev s \<noteq> Some k \<Longrightarrow> lnext m' s = lnext m s \<and> lprev m' s = lprev m s"
    and fr: "\<And>s. lev s \<noteq> Some k \<Longrightarrow> s \<in> fr' \<longleftrightarrow> s \<in> fr"
  shows "\<forall>k\<le>LOGMAX. \<exists>xs. on_list m' k xs \<and> set xs = {s \<in> fr'. lev s = Some k}"
proof (intro allI impI)
  fix j assume j: "j \<le> LOGMAX"
  show "\<exists>xs. on_list m' j xs \<and> set xs = {s \<in> fr'. lev s = Some j}"
  proof (cases "j = k")
    case True then show ?thesis using xs by blast
  next
    case False
    obtain ys where ys: "on_list m j ys" "set ys = {s \<in> fr. lev s = Some j}" using l j by blast
    have "linked (lnext m') (lprev m') (-1) ys = linked (lnext m) (lprev m) (-1) ys"
      by (rule linked_cong) (use same ys(2) False in auto)
    then have "on_list m' j ys" using ys(1) fl [OF False] by (simp add: on_list_def)
    moreover have "set ys = {s \<in> fr'. lev s = Some j}" using ys(2) fr False by auto
    ultimately show ?thesis by blast
  qed
qed

lemma unlink_inv:
  assumes v: "mem5_inv n m lev fr us" and i: "i \<in> fr" "lev i = Some k"
  shows "\<exists>m'. memsys5Unlink m i k = Some m' \<and> mem5_inv n m' lev (fr - {i}) us \<and> aCtrl m' = aCtrl m \<and>
    nBlock m' = nBlock m \<and> szAtom m' = szAtom m \<and> links_kept fr m m'"
proof -
  have kL: "k \<le> LOGMAX" using partD(1) [OF mem5_invD(1) [OF v] i(2)] .
  obtain zs where zs: "on_list m k zs" "set zs = {s \<in> fr. lev s = Some k}" using mem5_invD(11) [OF v kL] by blast
  then have "i \<in> set zs" using i by simp
  then obtain xs ys where sp: "zs = xs @ i # ys" by (meson split_list)
  note L = zs(1) [unfolded on_list_def sp]
  have mid: "lprev m i = last_of (-1) xs" "lnext m i = first_of ys" using linked_middle L by blast+
  have inb: "s < nBlock m" if "s \<in> set zs" for s
    using that zs(2) mem5_invD(5) [OF v] by (intro mem5_lt [OF v]) auto
  let ?nx = "if xs = [] then lnext m else (lnext m)(nat (last_of (-1) xs) := first_of ys)"
  let ?pv = "case ys of [] \<Rightarrow> lprev m | y # _ \<Rightarrow> (lprev m)(y := last_of (-1) xs)"
  let ?fl = "if xs = [] then (aiFreelist m)[k := first_of ys] else aiFreelist m"
  let ?m = "m\<lparr>lnext := ?nx, lprev := ?pv, aiFreelist := ?fl\<rparr>"
  have ch: "last_of (-1) xs < 0 \<or> nat (last_of (-1) xs) < nBlock m" "first_of ys < 0 \<or> nat (first_of ys) < nBlock m"
  proof -
    show "last_of (-1) xs < 0 \<or> nat (last_of (-1) xs) < nBlock m"
      using last_of_in [of xs "-1"] inb [of "nat (last_of (-1) xs)"] sp by (cases "xs = []") auto
    show "first_of ys < 0 \<or> nat (first_of ys) < nBlock m" using inb sp by (cases ys) auto
  qed
  have eq: "memsys5Unlink m i k = Some ?m"
    using ch kL mem5_invD(4) [OF v] mem5_lt [OF v, of i] mem5_invD(5) [OF v] i(1)
    by (auto simp: memsys5Unlink_def mid last_of_neg Let_def first_of_neg split: list.splits)
  have lk: "linked ?nx ?pv (-1) (xs @ ys)" by (rule linked_unlink) (use L in auto)
  have fst: "?fl ! k = first_of (xs @ ys)"
    using L kL mem5_invD(4) [OF v] by (cases xs) auto
  have on: "on_list ?m k (xs @ ys)" using lk fst L by (simp add: on_list_def)
  have st: "set (xs @ ys) = {s \<in> fr - {i}. lev s = Some k}" using zs(2) L sp by auto
  have "\<forall>k\<le>LOGMAX. \<exists>xs. on_list ?m k xs \<and> set xs = {s \<in> fr - {i}. lev s = Some k}"
  proof (rule other_lists [where m = m and fr = fr, OF _ kL on st])
    show "\<forall>k\<le>LOGMAX. \<exists>xs. on_list m k xs \<and> set xs = {s \<in> fr. lev s = Some k}" using mem5_invD(11) [OF v] by blast
    show "lnext ?m s = lnext m s \<and> lprev ?m s = lprev m s" if "s \<in> fr" "lev s \<noteq> Some k" for s
    proof -
      have "s \<notin> set xs" "s \<notin> set ys" using that zs(2) sp by auto
      then show ?thesis using last_of_in [of xs "-1"] by (auto split: list.splits)
    qed
  qed (use i in auto)
  then have "mem5_inv n ?m lev (fr - {i}) us"
    using v unfolding mem5_inv_def by auto
  moreover have "lnext ?m x = lnext m x \<and> lprev ?m x = lprev m x" if "x \<notin> fr" for x
  proof -
    have "x \<notin> set xs" "x \<notin> set ys" using that zs(2) sp by auto
    then show ?thesis using last_of_in [of xs "-1"] by (auto split: list.splits)
  qed
  ultimately show ?thesis using eq by (simp add: links_kept_def)
qed

lemma link_inv:
  assumes v: "mem5_inv n m lev fr us" and i: "i \<notin> fr" "i \<notin> us" "lev i = Some k" "aCtrl m ! i = CTRL_FREE OR of_nat k"
    and bud: "k < LOGMAX \<Longrightarrow> buddy k i \<in> fr \<Longrightarrow> lev (buddy k i) \<noteq> Some k"
  shows "\<exists>m'. memsys5Link m i k = Some m' \<and> mem5_inv n m' lev (insert i fr) us \<and> aCtrl m' = aCtrl m \<and>
    nBlock m' = nBlock m \<and> szAtom m' = szAtom m \<and> links_kept (insert i fr) m m'"
proof -
  have kL: "k \<le> LOGMAX" and di: "2 ^ k dvd i" using partD [OF mem5_invD(1) [OF v] i(3)] by auto
  obtain xs where xs: "on_list m k xs" "set xs = {s \<in> fr. lev s = Some k}" using mem5_invD(11) [OF v kL] by blast
  have inb: "s < nBlock m" if "s \<in> set xs" for s
    using that xs(2) mem5_invD(5) [OF v] by (intro mem5_lt [OF v]) auto
  have ni: "i \<notin> set xs" using xs(2) i(1) by simp
  let ?nx = "(lnext m)(i := first_of xs)"
  let ?pv = "case xs of [] \<Rightarrow> (lprev m)(i := -1) | x # _ \<Rightarrow> (lprev m)(i := -1, x := int i)"
  let ?m = "m\<lparr>lnext := ?nx, lprev := ?pv, aiFreelist := (aiFreelist m)[k := int i]\<rparr>"
  have eq: "memsys5Link m i k = Some ?m"
    using xs(1) inb kL mem5_invD(4) [OF v] mem5_lt [OF v, of i] i(3)
    by (cases xs) (auto simp: memsys5Link_def on_list_def Let_def)
  have "linked ?nx ?pv (int i) xs"
  proof (cases xs)
    case (Cons x ys)
    have "linked ?nx ?pv (int x) ys = linked (lnext m) (lprev m) (int x) ys"
      by (rule linked_cong) (use Cons ni xs(1) in \<open>auto simp: on_list_def\<close>)
    then show ?thesis using Cons ni xs(1) by (simp add: on_list_def fun_upd_def)
  qed simp
  moreover have "?pv i = -1" using ni by (auto split: list.splits)
  ultimately have on: "on_list ?m k (i # xs)"
    using kL mem5_invD(4) [OF v] ni xs(1) by (simp add: on_list_def)
  have st: "set (i # xs) = {s \<in> insert i fr. lev s = Some k}" using xs(2) i(3) by auto
  have lists: "\<forall>k\<le>LOGMAX. \<exists>xs. on_list ?m k xs \<and> set xs = {s \<in> insert i fr. lev s = Some k}"
  proof (rule other_lists [where m = m and fr = fr, OF _ kL on st])
    show "\<forall>k\<le>LOGMAX. \<exists>xs. on_list m k xs \<and> set xs = {s \<in> fr. lev s = Some k}" using mem5_invD(11) [OF v] by blast
    show "lnext ?m s = lnext m s \<and> lprev ?m s = lprev m s" if "s \<in> fr" "lev s \<noteq> Some k" for s
    proof -
      have "s \<notin> set xs" "s \<noteq> i" using that xs(2) i by auto
      then show ?thesis by (auto split: list.splits)
    qed
  qed (use i in auto)
  have co: "\<not> (buddy j s \<in> insert i fr \<and> lev (buddy j s) = Some j)"
    if s: "s \<in> insert i fr" "j < LOGMAX" "lev s = Some j" for s j
  proof
    assume b: "buddy j s \<in> insert i fr \<and> lev (buddy j s) = Some j"
    have ds: "2 ^ j dvd s" using partD(2) [OF mem5_invD(1) [OF v] s(3)] .
    have ne: "buddy j s \<noteq> s" by (rule buddy_base [OF ds]) auto
    show False
    proof (cases "s = i")
      case True
      then show False using b bud s i(3) ne by auto
    next
      case False
      then have sf: "s \<in> fr" using s by simp
      show False
      proof (cases "buddy j s = i")
        case True
        then have "j = k" "buddy k i = s" using b i(3) buddy_buddy [OF ds] by auto
        then show False using bud sf s by simp
      next
        case f: False
        then show False using mem5_invD(10) [OF v sf s(2,3)] b by simp
      qed
    qed
  qed
  have "insert i fr \<subseteq> dom lev" "insert i fr \<inter> us = {}" using mem5_invD(5,7) [OF v] i by auto
  moreover have "\<forall>s\<in>insert i fr. aCtrl ?m ! s = CTRL_FREE OR of_nat (the (lev s))" using mem5_invD(8) [OF v] i by auto
  ultimately have "mem5_inv n ?m lev (insert i fr) us"
    using mem5_invD [OF v] lists co unfolding mem5_inv_def by simp
  moreover have "lnext ?m x = lnext m x \<and> lprev ?m x = lprev m x" if "x \<notin> insert i fr" for x
  proof -
    have "x \<notin> set xs" "x \<noteq> i" using that xs(2) by auto
    then show ?thesis by (auto split: list.splits)
  qed
  ultimately show ?thesis using eq by (simp add: links_kept_def)
qed

section \<open>Allocation keeps the invariant\<close>

lemma split_block_inv:
  assumes "mem5_inv n m lev fr us" "lev i = Some (b + d)" "i \<notin> fr" "i \<notin> us" "dom lev = insert i (fr \<union> us)"
  shows "\<exists>m' lev' fr'. split_block m i b d = Some m' \<and> mem5_inv n m' lev' fr' us \<and> lev' i = Some b \<and> i \<notin> fr' \<and>
    (\<forall>s\<in>us. lev' s = lev s) \<and> dom lev' = insert i (fr' \<union> us) \<and> nBlock m' = nBlock m \<and> szAtom m' = szAtom m \<and>
    fr \<subseteq> fr' \<and> links_kept fr' m m'"
  using assms
proof (induction d arbitrary: m lev fr)
  case 0
  then show ?case by auto
next
  case (Suc d)
  let ?c = "b + d" let ?j = "i + 2 ^ ?c" let ?l = "lev(i \<mapsto> ?c, ?j \<mapsto> ?c)"
  have li: "lev i = Some (Suc ?c)" using Suc.prems by simp
  note sp = split_inv [OF Suc.prems(1) li Suc.prems(3,4)]
  have jb: "?j < nBlock m" by (rule mem5_lt [OF sp(1)]) simp
  have di: "2 ^ Suc ?c dvd i" by (rule partD(2) [OF mem5_invD(1) [OF Suc.prems(1)] li])
  obtain m1 where m1: "ctrl_set m ?j (CTRL_FREE OR of_nat ?c) = Some m1" "mem5_inv n m1 ?l fr us"
    "aCtrl m1 = (aCtrl m)[?j := CTRL_FREE OR of_nat ?c]" "nBlock m1 = nBlock m" "szAtom m1 = szAtom m" "links_kept {} m m1"
    using ctrl_set_inv [OF sp(1) jb sp(2,3)] by blast
  have lj: "?l ?j = Some ?c" by simp
  have cj: "aCtrl m1 ! ?j = CTRL_FREE OR of_nat ?c" using jb mem5_invD(3) [OF sp(1)] by (simp add: m1(3))
  have bj: "buddy ?c ?j \<notin> fr" using buddy_pair [OF di] Suc.prems(3) by simp
  obtain m2 where m2: "memsys5Link m1 ?j ?c = Some m2" "mem5_inv n m2 ?l (insert ?j fr) us"
    "nBlock m2 = nBlock m1" "szAtom m2 = szAtom m1" "links_kept (insert ?j fr) m1 m2"
    using link_inv [OF m1(2) sp(2,3) lj cj] bj by blast
  have "?l i = Some ?c" "i \<notin> insert ?j fr" "dom ?l = insert i (insert ?j fr \<union> us)" using Suc.prems(3,5) by auto
  from Suc.IH [OF m2(2) this(1,2) Suc.prems(4) this(3)] obtain m3 lev' fr' where
    m3: "split_block m2 i b d = Some m3" "mem5_inv n m3 lev' fr' us" "lev' i = Some b" "i \<notin> fr'"
      "\<forall>s\<in>us. lev' s = ?l s" "dom lev' = insert i (fr' \<union> us)" "nBlock m3 = nBlock m2" "szAtom m3 = szAtom m2"
      "insert ?j fr \<subseteq> fr'" "links_kept fr' m2 m3" by blast
  have "links_kept fr' m m3"
    by (rule links_kept_trans [OF links_kept_trans [OF m1(6) m2(5) _ order_refl] m3(10)]) (use m3(9) in auto)
  moreover have same: "\<forall>s\<in>us. lev' s = lev s" using m3(5) Suc.prems(4) sp(3) by auto
  moreover have "split_block m i b (Suc d) = Some m3"
    using m1(1) m2(1) m3(1) by (simp add: Let_def)
  ultimately show ?case using m3(2-4,6-9) m1(4,5) m2(3,4)
    by (intro exI [of _ m3] exI [of _ lev'] exI [of _ fr']) simp
qed

lemma round_loop_spec:
  assumes "0 < sz"
  shows "\<exists>k\<ge>l. round_loop n (sz * 2 ^ l) l = (sz * 2 ^ k, k) \<and> n \<le> sz * 2 ^ k \<and> (\<forall>j. l \<le> j \<longrightarrow> j < k \<longrightarrow> sz * 2 ^ j < n)"
proof (induction "n - sz * 2 ^ l" arbitrary: l rule: less_induct)
  case less
  show ?case
  proof (cases "sz * 2 ^ l < n")
    case True
    have "n - sz * 2 ^ Suc l < n - sz * 2 ^ l" using True assms by (intro diff_less_mono2) auto
    then obtain k where k: "k \<ge> Suc l" "round_loop n (sz * 2 ^ Suc l) (Suc l) = (sz * 2 ^ k, k)" "n \<le> sz * 2 ^ k"
      "\<forall>j. Suc l \<le> j \<longrightarrow> j < k \<longrightarrow> sz * 2 ^ j < n" using less [of "Suc l"] by blast
    have "round_loop n (sz * 2 ^ l) l = (sz * 2 ^ k, k)"
      using k(2) True assms by (subst round_loop.simps) (simp add: mult.commute mult.left_commute)
    moreover have "\<forall>j. l \<le> j \<longrightarrow> j < k \<longrightarrow> sz * 2 ^ j < n" using k(4) True by (metis Suc_leI le_neq_implies_less)
    ultimately show ?thesis using k by (intro exI [of _ k]) auto
  next
    case False
    then show ?thesis by (subst round_loop.simps) auto
  qed
qed

lemma find_bin_spec:
  "b \<le> find_bin fl b \<and> (\<forall>j. b \<le> j \<longrightarrow> j < find_bin fl b \<longrightarrow> fl ! j < 0) \<and> (find_bin fl b \<le> LOGMAX \<longrightarrow> fl ! find_bin fl b \<ge> 0)"
proof (induction fl b rule: find_bin.induct)
  case (1 fl b)
  show ?case
  proof (cases "b \<le> LOGMAX \<and> fl ! b < 0")
    case True
    then have "find_bin fl b = find_bin fl (b + 1)" by (subst find_bin.simps) simp
    moreover have "fl ! j < 0" if "b \<le> j" "j < find_bin fl (b + 1)" for j
      using that 1 True by (cases "j = b") auto
    ultimately show ?thesis using 1 True by auto
  next
    case False
    then have "find_bin fl b = b" by (subst find_bin.simps) (rule if_not_P)
    then show ?thesis using False by auto
  qed
qed

text \<open>A request either takes a block of the least sufficient size, or there is no free block of that
  size or a larger one.\<close>

lemma malloc_inv:
  assumes v: "mem5_inv n m lev fr us" and dm: "dom lev = fr \<union> us" and sz: "0 < szAtom m" and nb: "nByte \<le> 0x40000000"
  obtains (fail) k where "memsys5MallocUnsafe m nByte = Some (None, m)" "\<forall>s\<in>fr. the (lev s) < k"
      "\<forall>j<k. szAtom m * 2 ^ j < nByte"
    | (block) i m' k lev' fr' where "memsys5MallocUnsafe m nByte = Some (Some i, m')" "i \<notin> us"
      "mem5_inv n m' lev' fr' (insert i us)" "lev' i = Some k" "nByte \<le> szAtom m * 2 ^ k" "\<forall>j<k. szAtom m * 2 ^ j < nByte"
      "\<forall>s\<in>us. lev' s = lev s" "dom lev' = fr' \<union> insert i us" "nBlock m' = nBlock m" "szAtom m' = szAtom m"
      "links_kept (fr \<union> fr') m m'"
proof -
  obtain k where k: "round_loop nByte (szAtom m) 0 = (szAtom m * 2 ^ k, k)" "nByte \<le> szAtom m * 2 ^ k" "\<forall>j<k. szAtom m * 2 ^ j < nByte"
    using round_loop_spec [OF sz, of 0 nByte] by auto
  define iBin where "iBin = find_bin (aiFreelist m) k"
  note fb = find_bin_spec [of k "aiFreelist m", folded iBin_def]
  show thesis
  proof (cases "iBin > LOGMAX")
    case True
    have "the (lev s) < k" if s: "s \<in> fr" for s
    proof (rule ccontr)
      assume n: "\<not> the (lev s) < k"
      obtain j where j: "lev s = Some j" using s mem5_invD(5) [OF v] by blast
      have jL: "j \<le> LOGMAX" using partD(1) [OF mem5_invD(1) [OF v] j] .
      then have "aiFreelist m ! j < 0" using fb True n j by simp
      moreover obtain xs where "on_list m j xs" "set xs = {s \<in> fr. lev s = Some j}" using mem5_invD(11) [OF v jL] by blast
      ultimately show False using s j by (auto simp: on_list_def first_of_neg)
    qed
    moreover have "memsys5MallocUnsafe m nByte = Some (None, m)"
      using nb k(1) True by (simp add: memsys5MallocUnsafe_def iBin_def)
    ultimately show thesis using fail k(3) by blast
  next
    case False
    then have bL: "iBin \<le> LOGMAX" and pos: "aiFreelist m ! iBin \<ge> 0" and kb: "k \<le> iBin" using fb by auto
    obtain xs where xs: "on_list m iBin xs" "set xs = {s \<in> fr. lev s = Some iBin}" using mem5_invD(11) [OF v bL] by blast
    define i where "i = nat (aiFreelist m ! iBin)"
    have "i \<in> set xs" using first_of_in [of xs] pos xs(1) by (simp add: i_def on_list_def)
    then have i: "i \<in> fr" "lev i = Some iBin" "i \<notin> us" using xs(2) mem5_invD(7) [OF v] by auto
    obtain m1 where m1: "memsys5Unlink m i iBin = Some m1" "mem5_inv n m1 lev (fr - {i}) us" "nBlock m1 = nBlock m" "szAtom m1 = szAtom m" "links_kept fr m m1"
      using unlink_inv [OF v i(1,2)] by blast
    have "lev i = Some (k + (iBin - k))" "i \<notin> fr - {i}" "dom lev = insert i (fr - {i} \<union> us)" using i kb dm by auto
    from split_block_inv [OF m1(2) this(1,2) i(3) this(3)] obtain m2 lev' fr' where
      m2: "split_block m1 i k (iBin - k) = Some m2" "mem5_inv n m2 lev' fr' us" "lev' i = Some k" "i \<notin> fr'"
        "\<forall>s\<in>us. lev' s = lev s" "dom lev' = insert i (fr' \<union> us)" "nBlock m2 = nBlock m1" "szAtom m2 = szAtom m1"
        "links_kept fr' m1 m2" by blast
    have ib: "i < nBlock m2" by (rule mem5_lt [OF m2(2)]) (use m2(3) in auto)
    obtain m3 where m3: "ctrl_set m2 i (of_nat k) = Some m3" "mem5_inv n m3 lev' fr' us" "aCtrl m3 = (aCtrl m2)[i := of_nat k]"
      "nBlock m3 = nBlock m2" "szAtom m3 = szAtom m2" "links_kept {} m2 m3"
      using ctrl_set_inv [OF m2(2) ib m2(4) i(3)] by blast
    have lk: "links_kept (fr \<union> fr') m m3"
      by (rule links_kept_trans [OF links_kept_trans [OF m1(5) m2(9) Un_upper1 Un_upper2] m3(6)]) auto
    have "aCtrl m3 ! i = of_nat k" using ib mem5_invD(3) [OF m2(2)] by (simp add: m3(3))
    from use_inv [OF m3(2) m2(3,4) this] have v3: "mem5_inv n m3 lev' fr' (insert i us)" .
    have "memsys5MallocUnsafe m nByte = Some (Some i, m3)"
      using nb k(1) False m1(1) m2(1) m3(1)
      by (simp add: memsys5MallocUnsafe_def Let_def flip: iBin_def i_def)
    moreover have "dom lev' = fr' \<union> insert i us" "nBlock m3 = nBlock m" "szAtom m3 = szAtom m"
      using m2(6-8) m3(4,5) m1(3,4) by auto
    ultimately show thesis using lk by (rule block [OF _ i(3) v3 m2(3) k(2,3) m2(5)])
  qed
qed

section \<open>Release keeps the invariant\<close>

lemma ctrl_bits:
  assumes "k \<le> LOGMAX"
  shows "unat ((of_nat k :: u8) AND CTRL_LOGSIZE) = k" "unat ((CTRL_FREE OR of_nat k) AND CTRL_LOGSIZE) = k"
    "(of_nat k :: u8) AND CTRL_FREE = 0" "(CTRL_FREE OR of_nat k) AND CTRL_FREE = CTRL_FREE"
    "(of_nat k :: u8) AND CTRL_LOGSIZE = of_nat k"
proof -
  have "\<forall>k\<in>set [0..<31]. unat ((of_nat k :: u8) AND CTRL_LOGSIZE) = k \<and> unat ((CTRL_FREE OR of_nat k) AND CTRL_LOGSIZE) = k \<and>
    (of_nat k :: u8) AND CTRL_FREE = 0 \<and> (CTRL_FREE OR of_nat k) AND CTRL_FREE = CTRL_FREE \<and>
    (of_nat k :: u8) AND CTRL_LOGSIZE = of_nat k" by code_simp
  moreover have "k \<in> set [0..<31]" using assms by (simp add: LOGMAX_def)
  ultimately show "unat ((of_nat k :: u8) AND CTRL_LOGSIZE) = k" "unat ((CTRL_FREE OR of_nat k) AND CTRL_LOGSIZE) = k"
    "(of_nat k :: u8) AND CTRL_FREE = 0" "(CTRL_FREE OR of_nat k) AND CTRL_FREE = CTRL_FREE"
    "(of_nat k :: u8) AND CTRL_LOGSIZE = of_nat k" by blast+
qed

lemma ctrl_free_inj:
  "k \<le> LOGMAX \<Longrightarrow> b \<le> LOGMAX \<Longrightarrow> (CTRL_FREE OR of_nat k) = (CTRL_FREE OR of_nat b) \<Longrightarrow> k = b"
  by (metis ctrl_bits(2))

lemma ctrl_used_free: "k \<le> LOGMAX \<Longrightarrow> b \<le> LOGMAX \<Longrightarrow> of_nat k \<noteq> (CTRL_FREE OR of_nat b)"
proof
  assume "k \<le> LOGMAX" "b \<le> LOGMAX" and eq: "of_nat k = CTRL_FREE OR of_nat b"
  then have "(of_nat k :: u8) AND CTRL_FREE = 0" "(of_nat k :: u8) AND CTRL_FREE = CTRL_FREE"
    using ctrl_bits(3) [of k] ctrl_bits(4) [of b] by simp_all
  then have "CTRL_FREE = 0" by metis
  then show False by (simp add: CTRL_FREE_def)
qed

lemma odd_block: "(drop_bit b i AND 1 = (1::nat)) \<longleftrightarrow> odd (i div 2 ^ b)"
  by (simp only: drop_bit_eq_div and_one_eq odd_iff_mod_2_eq_one)

lemma merge_loop_step:
  "merge_loop m i b (Suc left) =
     (if even (i div 2 ^ b) \<and> buddy b i \<ge> nBlock m then Some (m, i, b)
      else Option.bind (ctrl_get m (buddy b i)) (\<lambda>c.
        if c \<noteq> CTRL_FREE OR of_nat b then Some (m, i, b)
        else Option.bind (memsys5Unlink m (buddy b i) b) (\<lambda>m.
          if buddy b i < i
          then Option.bind (ctrl_set m (buddy b i) (CTRL_FREE OR of_nat (b + 1))) (\<lambda>m.
            Option.bind (ctrl_set m i 0) (\<lambda>m. merge_loop m (buddy b i) (b + 1) left))
          else Option.bind (ctrl_set m i (CTRL_FREE OR of_nat (b + 1))) (\<lambda>m.
            Option.bind (ctrl_set m (buddy b i) 0) (\<lambda>m. merge_loop m i (b + 1) left)))))"
  unfolding merge_loop.simps Let_def odd_block buddy_def [symmetric] not_not ..

declare merge_loop.simps(2) [simp del]

text \<open>The control byte of the buddy says whether it is a free block of the same size.\<close>

lemma buddy_ctrl:
  assumes v: "mem5_inv n m lev fr us" and dm: "dom lev = insert i (fr \<union> us)" and i: "lev i = Some b" "i \<notin> fr \<union> us"
    and n: "buddy b i < n"
  shows "aCtrl m ! buddy b i = CTRL_FREE OR of_nat b \<longleftrightarrow> buddy b i \<in> fr \<and> lev (buddy b i) = Some b"
proof -
  note p = mem5_invD(1) [OF v]
  have bL: "b \<le> LOGMAX" and di: "2 ^ b dvd i" using partD [OF p i(1)] by auto
  obtain k where k: "k \<le> b" "lev (buddy b i) = Some k" using buddy_start [OF p i(1) n] by blast
  have kL: "k \<le> LOGMAX" using k bL by simp
  have "buddy b i \<noteq> i" by (rule buddy_base [OF di]) auto
  then have "buddy b i \<in> fr \<or> buddy b i \<in> us" using dm k(2) by auto
  then show ?thesis
  proof
    assume f: "buddy b i \<in> fr"
    then show ?thesis using mem5_invD(8) [OF v f] k ctrl_free_inj [OF kL bL] by auto
  next
    assume u: "buddy b i \<in> us"
    then show ?thesis using mem5_invD(9) [OF v u] mem5_invD(7) [OF v] k ctrl_used_free [OF kL bL] by auto
  qed
qed

lemma merge_loop_inv:
  assumes "mem5_inv (nBlock m) m lev fr us" "lev i = Some b" "i \<notin> fr \<union> us" "dom lev = insert i (fr \<union> us)"
    "aCtrl m ! i = CTRL_FREE OR of_nat b" "left = LOGMAX - b"
  shows "\<exists>m' i' b' lev' fr'. merge_loop m i b left = Some (m', i', b') \<and> mem5_inv (nBlock m) m' lev' fr' us \<and>
    lev' i' = Some b' \<and> i' \<notin> fr' \<union> us \<and> dom lev' = insert i' (fr' \<union> us) \<and> aCtrl m' ! i' = CTRL_FREE OR of_nat b' \<and>
    (b' < LOGMAX \<longrightarrow> buddy b' i' \<in> fr' \<longrightarrow> lev' (buddy b' i') \<noteq> Some b') \<and> (\<forall>s\<in>us. lev' s = lev s) \<and>
    nBlock m' = nBlock m \<and> szAtom m' = szAtom m \<and> links_kept fr m m'"
  using assms
proof (induction left arbitrary: m lev fr i b)
  case 0
  then show ?case by (intro exI [of _ m] exI [of _ i] exI [of _ b] exI [of _ lev] exI [of _ fr]) simp
next
  case (Suc left)
  note v = Suc.prems(1) and li = Suc.prems(2) and ni = Suc.prems(3) and dm = Suc.prems(4)
  note p = mem5_invD(1) [OF v]
  have bL: "b < LOGMAX" using Suc.prems(6) by simp
  have di: "2 ^ b dvd i" by (rule partD(2) [OF p li])
  let ?j = "buddy b i"
  have oddb: "?j < nBlock m" if "odd (i div 2 ^ b)"
    using buddy_odd(3) [OF di that] partD(4) [OF p li] by linarith
  show ?case
  proof (cases "?j < nBlock m \<and> ?j \<in> fr \<and> lev ?j = Some b")
    case False
    have "merge_loop m i b (Suc left) = Some (m, i, b)"
    proof (cases "?j < nBlock m")
      case True
      then have "aCtrl m ! ?j \<noteq> CTRL_FREE OR of_nat b" using False buddy_ctrl [OF v dm li ni True] by blast
      then show ?thesis using True mem5_invD(3) [OF v]
        by (simp add: merge_loop_step ctrl_get_def)
    next
      case f: False
      then have "\<not> odd (i div 2 ^ b)" using oddb by blast
      then show ?thesis using f by (simp add: merge_loop_step)
    qed
    moreover have "?j < nBlock m" if "lev ?j = Some b" using partD(4) [OF p that] .
    ultimately show ?thesis using False Suc.prems
      by (intro exI [of _ m] exI [of _ i] exI [of _ b] exI [of _ lev] exI [of _ fr]) auto
  next
    case True
    then have jb: "?j < nBlock m" and jf: "?j \<in> fr" and lj: "lev ?j = Some b" by auto
    have cj: "aCtrl m ! ?j = CTRL_FREE OR of_nat b" using buddy_ctrl [OF v dm li ni jb] jf lj by blast
    have gj: "ctrl_get m ?j = Some (CTRL_FREE OR of_nat b)" using jb mem5_invD(3) [OF v] cj by (simp add: ctrl_get_def)
    obtain m1 where m1: "memsys5Unlink m ?j b = Some m1" "mem5_inv (nBlock m) m1 lev (fr - {?j}) us" "nBlock m1 = nBlock m" "szAtom m1 = szAtom m" "links_kept fr m m1"
      using unlink_inv [OF v jf lj] by blast
    have ju: "?j \<notin> us" "?j \<noteq> i" using jf mem5_invD(7) [OF v] ni by auto
    have ib: "i < nBlock m1" using partD(4) [OF p li] m1(3) by simp
    define c e where "c = min i ?j" and "e = max i ?j"
    have ce: "2 ^ Suc b dvd c" "e = c + 2 ^ b" "(i = c \<and> ?j = e) \<or> (i = e \<and> ?j = c)"
    proof -
      obtain c' where c': "2 ^ Suc b dvd c'" "(i = c' \<and> ?j = c' + 2 ^ b) \<or> (i = c' + 2 ^ b \<and> ?j = c')" by (rule buddy_base [OF di])
      then have "c = c'" "e = c' + 2 ^ b" by (auto simp: c_def e_def)
      then show "2 ^ Suc b dvd c" "e = c + 2 ^ b" "(i = c \<and> ?j = e) \<or> (i = e \<and> ?j = c)" using c' by auto
    qed
    have cb: "c < nBlock m1" "e < nBlock m1" "c \<notin> fr - {?j}" "e \<notin> fr - {?j}" "c \<notin> us" "e \<notin> us"
      using ce(3) ib jb m1(3) ni ju by auto
    obtain m2 where m2: "ctrl_set m1 c (CTRL_FREE OR of_nat (Suc b)) = Some m2" "mem5_inv (nBlock m) m2 lev (fr - {?j}) us"
      "aCtrl m2 = (aCtrl m1)[c := CTRL_FREE OR of_nat (Suc b)]" "nBlock m2 = nBlock m1" "szAtom m2 = szAtom m1" "links_kept {} m1 m2"
      using ctrl_set_inv [OF m1(2) cb(1,3,5)] by blast
    have eb: "e < nBlock m2" using cb m2(4) by simp
    obtain m3 where m3: "ctrl_set m2 e 0 = Some m3" "mem5_inv (nBlock m) m3 lev (fr - {?j}) us"
      "aCtrl m3 = (aCtrl m2)[e := 0]" "nBlock m3 = nBlock m2" "szAtom m3 = szAtom m2" "links_kept {} m2 m3"
      using ctrl_set_inv [OF m2(2) eb cb(4,6)] by blast
    let ?l = "lev(c + 2 ^ b := None, c \<mapsto> Suc b)"
    have lc: "lev c = Some b" "lev (c + 2 ^ b) = Some b" "c \<notin> fr - {?j} \<union> us" "c + 2 ^ b \<notin> fr - {?j} \<union> us"
      using ce(3) li lj cb unfolding ce(2) [symmetric] by (elim disjE; simp)+
    have v3: "mem5_inv (nBlock m3) m3 ?l (fr - {?j}) us"
      using merge_inv [OF m3(2) lc(1,2) ce(1) bL lc(3,4)] m3(4) m2(4) m1(3) by simp
    have ne: "c \<noteq> e" using ce(2) by simp
    have c3: "aCtrl m3 ! c = CTRL_FREE OR of_nat (Suc b)"
      using cb(1) mem5_invD(3) [OF m1(2)] ne by (simp add: m3(3) m2(3))
    have "dom ?l = insert c (dom lev - {e})" unfolding ce(2) by (auto split: if_splits)
    then have d3: "dom ?l = insert c (fr - {?j} \<union> us)" using dm ce(3) cb(3-6) ni ne by auto
    have "?l c = Some (Suc b)" "left = LOGMAX - Suc b" using Suc.prems(6) by auto
    from Suc.IH [OF v3 this(1) lc(3) d3 c3 this(2)] obtain m' i' b' lev' fr' where
      r: "merge_loop m3 c (Suc b) left = Some (m', i', b')" "mem5_inv (nBlock m3) m' lev' fr' us"
        "lev' i' = Some b'" "i' \<notin> fr' \<union> us" "dom lev' = insert i' (fr' \<union> us)" "aCtrl m' ! i' = CTRL_FREE OR of_nat b'"
        "b' < LOGMAX \<longrightarrow> buddy b' i' \<in> fr' \<longrightarrow> lev' (buddy b' i') \<noteq> Some b'" "\<forall>s\<in>us. lev' s = ?l s"
        "nBlock m' = nBlock m3" "szAtom m' = szAtom m3" "links_kept (fr - {?j}) m3 m'" by blast
    have "links_kept fr m m3" by (rule links_kept_trans [OF links_kept_trans [OF m1(5) m2(6)] m3(6)]) auto
    then have lk: "links_kept fr m m'" by (rule links_kept_trans [OF _ r(11)]) auto
    have us: "\<forall>s\<in>us. lev' s = lev s" using r(8) cb(5,6) ce(2) by auto
    have step: "merge_loop m i b (Suc left) = merge_loop m3 c (Suc b) left"
    proof (cases "?j < i")
      case True
      then have "?j = c" "i = e" by (auto simp: c_def e_def)
      then show ?thesis using True jb gj m1(1) m2(1) m3(1) by (simp add: merge_loop_step)
    next
      case False
      then have "?j = e" "i = c" by (auto simp: c_def e_def)
      then show ?thesis using False jb gj m1(1) m2(1) m3(1) by (simp add: merge_loop_step)
    qed
    show ?thesis
      using r(1-7) us r(9,10) m3(4,5) m2(4,5) m1(3,4) lk unfolding step
      by (intro exI [of _ m'] exI [of _ i'] exI [of _ b'] exI [of _ lev'] exI [of _ fr']) simp
  qed
qed

text \<open>Releasing a block that is checked out succeeds and leaves the other blocks alone. It also marks
  the last atom of the block, where no block starts unless the block is one atom.\<close>

lemma free_inv:
  assumes v: "mem5_inv (nBlock m) m lev fr us" and dm: "dom lev = fr \<union> us" and i: "i \<in> us"
  obtains m' lev' fr' where "memsys5FreeUnsafe m i = Some m'" "mem5_inv (nBlock m) m' lev' fr' (us - {i})"
    "dom lev' = fr' \<union> (us - {i})" "\<forall>s\<in>us - {i}. lev' s = lev s" "nBlock m' = nBlock m" "szAtom m' = szAtom m"
    "links_kept (fr \<union> fr') m m'"
proof -
  note p = mem5_invD(1) [OF v]
  obtain b where b: "lev i = Some b" using i mem5_invD(6) [OF v] by blast
  have bL: "b \<le> LOGMAX" and ilt: "i < nBlock m" and hi: "i + 2 ^ b \<le> nBlock m" using partD [OF p b] by auto
  have nf: "i \<notin> fr" using i mem5_invD(7) [OF v] by auto
  let ?u = "us - {i}" let ?e = "i + 2 ^ b - 1"
  have v0: "mem5_inv (nBlock m) m lev fr ?u" by (rule unuse_inv [OF v])
  have gi: "ctrl_get m i = Some (of_nat b)" using ilt mem5_invD(3,9) [OF v] i b by (simp add: ctrl_get_def)
  obtain m1 where m1: "ctrl_set m i (of_nat b OR CTRL_FREE) = Some m1" "mem5_inv (nBlock m) m1 lev fr ?u"
    "nBlock m1 = nBlock m" "szAtom m1 = szAtom m" "links_kept {} m m1" using ctrl_set_inv [OF v0 ilt nf] by blast
  have pos: "(1::nat) \<le> 2 ^ b" by simp
  have elt: "?e < nBlock m1" using hi pos m1(3) by linarith
  have enot: "?e \<notin> fr" "?e \<notin> ?u"
  proof -
    have "?e = i" if e: "?e \<in> dom lev"
    proof -
      obtain k where "lev ?e = Some k" using e by blast
      moreover have "i \<le> ?e" "?e < i + 2 ^ b" using pos by linarith+
      ultimately show ?thesis using part_unique [OF p b, of ?e k ?e] by simp
    qed
    then show "?e \<notin> fr" "?e \<notin> ?u" using dm nf by auto
  qed
  obtain x where x: "ctrl_get m1 ?e = Some x" using elt mem5_invD(3) [OF m1(2)] by (simp add: ctrl_get_def)
  obtain m2 where m2: "ctrl_set m1 ?e (x OR CTRL_FREE) = Some m2" "mem5_inv (nBlock m) m2 lev fr ?u"
    "nBlock m2 = nBlock m1" "szAtom m2 = szAtom m1" "links_kept {} m1 m2" using ctrl_set_inv [OF m1(2) elt enot] by blast
  have i2: "i < nBlock m2" "i \<notin> ?u" using ilt m1 m2 by auto
  obtain m3 where m3: "ctrl_set m2 i (CTRL_FREE OR of_nat b) = Some m3" "mem5_inv (nBlock m) m3 lev fr ?u"
    "aCtrl m3 = (aCtrl m2)[i := CTRL_FREE OR of_nat b]" "nBlock m3 = nBlock m2" "szAtom m3 = szAtom m2" "links_kept {} m2 m3"
    using ctrl_set_inv [OF m2(2) i2(1) nf i2(2)] by blast
  have c3: "aCtrl m3 ! i = CTRL_FREE OR of_nat b" using i2(1) mem5_invD(3) [OF m2(2)] by (simp add: m3(3))
  have n3: "nBlock m3 = nBlock m" "szAtom m3 = szAtom m" using m1 m2 m3 by auto
  have "mem5_inv (nBlock m3) m3 lev fr ?u" "i \<notin> fr \<union> ?u" "dom lev = insert i (fr \<union> ?u)" using m3(2) n3 nf dm i by auto
  from merge_loop_inv [OF this(1) b this(2,3) c3 refl] obtain m4 i' b' lev' fr' where
    m4: "merge_loop m3 i b (LOGMAX - b) = Some (m4, i', b')" "mem5_inv (nBlock m) m4 lev' fr' ?u"
      "lev' i' = Some b'" "i' \<notin> fr' \<union> ?u" "dom lev' = insert i' (fr' \<union> ?u)" "aCtrl m4 ! i' = CTRL_FREE OR of_nat b'"
      "b' < LOGMAX \<longrightarrow> buddy b' i' \<in> fr' \<longrightarrow> lev' (buddy b' i') \<noteq> Some b'" "\<forall>s\<in>?u. lev' s = lev s"
      "nBlock m4 = nBlock m" "szAtom m4 = szAtom m" "links_kept fr m3 m4" unfolding n3 by blast
  have i4: "i' \<notin> fr'" "i' \<notin> ?u" using m4(4) by auto
  obtain m5 where m5: "memsys5Link m4 i' b' = Some m5" "mem5_inv (nBlock m) m5 lev' (insert i' fr') ?u"
    "nBlock m5 = nBlock m4" "szAtom m5 = szAtom m4" "links_kept (insert i' fr') m4 m5"
    using link_inv [OF m4(2) i4 m4(3,6)] m4(7) by blast
  have "links_kept fr m m4"
    by (rule links_kept_trans [OF links_kept_trans [OF links_kept_trans [OF m1(5) m2(5)] m3(6)] m4(11)]) auto
  then have lk: "links_kept (fr \<union> insert i' fr') m m5" by (rule links_kept_trans [OF _ m5(5)]) auto
  have "memsys5FreeUnsafe m i = Some m5"
    using gi m1(1) x m2(1) m3(1) m4(1) m5(1) ctrl_bits(1,5) [OF bL] by (simp add: memsys5FreeUnsafe_def Let_def)
  moreover have "dom lev' = insert i' fr' \<union> ?u" using m4(5) by auto
  ultimately show thesis using that m5(2-4) m4(8-10) lk by simp
qed

section \<open>Start-up establishes the invariant\<close>

lemma part_extend:
  assumes p: "part n lev" and d: "2 ^ k dvd n" and k: "k \<le> LOGMAX"
  shows "part (n + 2 ^ k) (lev(n \<mapsto> k))"
proof -
  have lt: "s + 2 ^ j \<le> n" "s < n" if "lev s = Some j" for s j using partD(3,4) [OF p that] .
  let ?l = "lev(n \<mapsto> k)"
  have 1: "j \<le> LOGMAX \<and> 2 ^ j dvd s \<and> s + 2 ^ j \<le> n + 2 ^ k" if "?l s = Some j" for s j
    using that d k partD [OF p, of s j] by (auto split: if_splits)
  have 2: "\<exists>s j. ?l s = Some j \<and> s \<le> a \<and> a < s + 2 ^ j" if a: "a < n + 2 ^ k" for a
  proof (cases "a < n")
    case True
    obtain s j where "lev s = Some j" "s \<le> a" "a < s + 2 ^ j" using part_cover [OF p True] by blast
    then show ?thesis using lt [of s j] by (intro exI [of _ s] exI [of _ j]) auto
  next
    case False
    then show ?thesis using a by (intro exI [of _ n] exI [of _ k]) auto
  qed
  have 3: "s + 2 ^ j \<le> s'" if "?l s = Some j" "?l s' = Some j'" "s < s'" for s j s' j'
    using that lt [of s j] lt [of s' j'] part_apart [OF p, of s j s' j'] by (auto split: if_splits)
  from 1 2 3 show ?thesis unfolding part_def by blast
qed

lemma extend_inv:
  assumes v: "mem5_inv n m lev fr us" and d: "2 ^ k dvd n" "k \<le> LOGMAX" "n + 2 ^ k \<le> nBlock m"
  shows "mem5_inv (n + 2 ^ k) m (lev(n \<mapsto> k)) fr us" "n \<notin> fr" "n \<notin> us"
proof -
  have nn: "n \<notin> dom lev" using partD(4) [OF mem5_invD(1) [OF v]] by blast
  then show nf: "n \<notin> fr" "n \<notin> us" using mem5_invD(5,6) [OF v] by auto
  let ?l = "lev(n \<mapsto> k)"
  have same: "?l s = lev s" if "s \<in> fr \<union> us" for s using that nf by auto
  have "{s \<in> fr. ?l s = Some j} = {s \<in> fr. lev s = Some j}" for j
    by (intro Collect_cong conj_cong refl) (subst same, simp_all)
  moreover have "fr \<subseteq> dom ?l" "us \<subseteq> dom ?l" using mem5_invD(5,6) [OF v] by auto
  ultimately show "mem5_inv (n + 2 ^ k) m ?l fr us"
    using v part_extend [OF mem5_invD(1) [OF v] d(1,2)] d(3) same unfolding mem5_inv_def by (simp del: fun_upd_apply)
qed

lemma init_loop_inv:
  assumes "mem5_inv off m lev fr {}" "dom lev = fr" "2 ^ ii dvd off" "ii \<le> LOGMAX + 1" "off \<le> nBlock m" "nBlock m < off + 2 ^ ii"
  shows "\<exists>m' lev' fr'. init_loop ii m off = Some (m', nBlock m) \<and> mem5_inv (nBlock m) m' lev' fr' {} \<and> dom lev' = fr' \<and>
    nBlock m' = nBlock m \<and> szAtom m' = szAtom m"
  using assms
proof (induction ii arbitrary: m lev fr off)
  case 0
  then have "off = nBlock m" by simp
  then show ?case using 0 by auto
next
  case (Suc k)
  have d: "2 ^ k dvd off" by (rule pow_dvd_le [OF _ Suc.prems(3)]) simp
  have kL: "k \<le> LOGMAX" using Suc.prems(4) by simp
  show ?case
  proof (cases "off + 2 ^ k \<le> nBlock m")
    case False
    then have "init_loop (Suc k) m off = init_loop k m off" by simp
    moreover have "nBlock m < off + 2 ^ k" "k \<le> LOGMAX + 1" using False kL by auto
    ultimately show ?thesis using Suc.IH [OF Suc.prems(1,2) d _ Suc.prems(5)] by metis
  next
    case True
    let ?l = "lev(off \<mapsto> k)"
    note e = extend_inv [OF Suc.prems(1) d kL True]
    have lo: "?l off = Some k" by simp
    have ob: "off < nBlock m" by (rule mem5_lt [OF e(1)]) simp
    obtain m1 where m1: "ctrl_set m off (of_nat k OR CTRL_FREE) = Some m1" "mem5_inv (off + 2 ^ k) m1 ?l fr {}"
      "aCtrl m1 = (aCtrl m)[off := of_nat k OR CTRL_FREE]" "nBlock m1 = nBlock m" "szAtom m1 = szAtom m"
      using ctrl_set_inv [OF e(1) ob e(2,3)] by blast
    have c1: "aCtrl m1 ! off = CTRL_FREE OR of_nat k"
      using ob mem5_invD(3) [OF e(1)] by (simp add: m1(3) or.commute)
    have "buddy k off \<notin> fr"
      using buddy_pair [OF Suc.prems(3)] partD(4) [OF mem5_invD(1) [OF Suc.prems(1)]] Suc.prems(2) by fastforce
    then obtain m2 where m2: "memsys5Link m1 off k = Some m2" "mem5_inv (off + 2 ^ k) m2 ?l (insert off fr) {}"
      "nBlock m2 = nBlock m1" "szAtom m2 = szAtom m1"
      using link_inv [OF m1(2) e(2,3) lo c1] by blast
    have dm: "dom ?l = insert off fr" using Suc.prems(2) by simp
    have dd: "2 ^ k dvd off + 2 ^ k" using d by simp
    have hi: "nBlock m2 < off + 2 ^ k + 2 ^ k" "off + 2 ^ k \<le> nBlock m2" "k \<le> LOGMAX + 1" using Suc.prems(6) m2(3) m1(4) True kL by auto
    from Suc.IH [OF m2(2) dm dd hi(3,2,1)] obtain m' lev' fr' where
      "init_loop k m2 (off + 2 ^ k) = Some (m', nBlock m2)" "mem5_inv (nBlock m2) m' lev' fr' {}" "dom lev' = fr'"
      "nBlock m' = nBlock m2" "szAtom m' = szAtom m2" by blast
    then show ?thesis using True m1(1,4,5) m2(1,3,4) by (intro exI [of _ m'] exI [of _ lev'] exI [of _ fr']) simp
  qed
qed

lemma grow_atom_pow: "\<exists>k\<ge>3. grow_atom (2 ^ l) = 2 ^ k"
proof (induction "8 - (2::nat) ^ l" arbitrary: l rule: less_induct)
  case less
  show ?case
  proof (cases "(2::nat) ^ l < 8")
    case True
    have "8 - (2::nat) ^ Suc l < 8 - 2 ^ l" using True by (intro diff_less_mono2) auto
    then obtain k where "k \<ge> 3" "grow_atom (2 ^ Suc l) = 2 ^ k" using less [of "Suc l"] by blast
    moreover have "grow_atom (2 ^ l) = grow_atom (2 ^ Suc l)" using True by (subst grow_atom.simps) (simp add: mult.commute)
    ultimately show ?thesis by auto
  next
    case False
    then have "(2::nat) ^ 3 \<le> 2 ^ l" by simp
    then have "3 \<le> l" by (rule power_le_imp_le_exp [rotated]) simp
    then show ?thesis using False by (subst grow_atom.simps) auto
  qed
qed

lemma init_inv:
  assumes n: "nHeap < 2 ^ 31"
  shows "\<exists>m lev fr. memsys5Init nHeap mnReq links junk = Some m \<and> mem5_inv (nBlock m) m lev fr {} \<and> dom lev = fr \<and>
    (\<exists>k. szAtom m = 2 ^ k) \<and> nBlock m = nHeap div (szAtom m + 1)"
proof -
  obtain k where k: "init_szAtom mnReq = 2 ^ k" using grow_atom_pow by (auto simp: init_szAtom_def)
  let ?n = "nHeap div (2 ^ k + 1)"
  let ?m = "\<lparr>szAtom = 2 ^ k, nBlock = ?n, lnext = fst \<circ> links, lprev = snd \<circ> links,
    aiFreelist = replicate (LOGMAX + 1) (-1), aCtrl = map junk [0..<?n]\<rparr>"
  have "part 0 Map.empty" by (simp add: part_def)
  moreover have "on_list ?m k []" if "k \<le> LOGMAX" for k using that by (simp add: on_list_def del: replicate_Suc)
  ultimately have v: "mem5_inv 0 ?m Map.empty {} {}" by (auto simp: mem5_inv_def simp del: replicate_Suc)
  have "?n < 2 ^ 31" using n by (meson div_le_dividend le_less_trans)
  then have "nBlock ?m < 0 + 2 ^ (LOGMAX + 1)" by (simp add: LOGMAX_def)
  from init_loop_inv [OF v _ _ _ _ this] obtain m' lev' fr' where
    "init_loop (LOGMAX + 1) ?m 0 = Some (m', nBlock ?m)" "mem5_inv (nBlock ?m) m' lev' fr' {}" "dom lev' = fr'"
    "nBlock m' = nBlock ?m" "szAtom m' = szAtom ?m" by auto
  then show ?thesis by (intro exI [of _ m'] exI [of _ lev'] exI [of _ fr']) (auto simp: memsys5Init_def Let_def k simp del: replicate_Suc)
qed

section \<open>Runs\<close>

text \<open>The size, as a logarithm, that the control byte of a block gives.\<close>

definition block_log :: "Mem5Global \<Rightarrow> nat \<Rightarrow> nat" where
  "block_log m p = unat (aCtrl m ! p AND CTRL_LOGSIZE)"

definition in_use :: "Mem5Global \<Rightarrow> (nat \<rightharpoonup> nat) \<Rightarrow> nat \<Rightarrow> bool" where
  "in_use m A s \<longleftrightarrow> (\<exists>p\<in>dom A. p \<le> s \<and> s < p + 2 ^ block_log m p)"

text \<open>The states that start-up and the calls of a client lead to. \<open>A\<close> are the outstanding
  allocations with the number of bytes requested. A client may overwrite the memory it has been given,
  and with it what \<open>lnext\<close> and \<open>lprev\<close> read there.\<close>

inductive mem5_reach :: "Mem5Global \<Rightarrow> (nat \<rightharpoonup> nat) \<Rightarrow> bool" where
  start: "mem5_reach m Map.empty" if "nHeap < 2 ^ 31" "memsys5Init nHeap mnReq links junk = Some m"
| malloc: "mem5_reach m' (case r of None \<Rightarrow> A | Some p \<Rightarrow> A(p \<mapsto> nat n))"
    if "mem5_reach m A" "memsys5Malloc m n = Some (r, m')"
| free: "mem5_reach m' (A(p := None))" if "mem5_reach m A" "p \<in> dom A" "memsys5Free m p = Some m'"
| realloc: "mem5_reach m' (case r of None \<Rightarrow> A | Some q \<Rightarrow> (A(p := None))(q \<mapsto> n))"
    if "mem5_reach m A" "p \<in> dom A" "memsys5Realloc m p n = Some (r, m')"
| client: "mem5_reach (m\<lparr>lnext := nx, lprev := pv\<rparr>) A"
    if "mem5_reach m A" "\<forall>s. \<not> in_use m A s \<longrightarrow> nx s = lnext m s \<and> pv s = lprev m s"

definition run_inv :: "Mem5Global \<Rightarrow> (nat \<rightharpoonup> nat) \<Rightarrow> (nat \<rightharpoonup> nat) \<Rightarrow> nat set \<Rightarrow> bool" where
  "run_inv m A lev fr \<longleftrightarrow> mem5_inv (nBlock m) m lev fr (dom A) \<and> dom lev = fr \<union> dom A \<and> 0 < szAtom m \<and>
     (\<forall>p n. A p = Some n \<longrightarrow> n \<le> szAtom m * 2 ^ the (lev p))"

lemma run_inv_req: "run_inv m A lev fr \<Longrightarrow> A p = Some n \<Longrightarrow> n \<le> szAtom m * 2 ^ the (lev p)"
  by (simp add: run_inv_def)

lemma used_ctrl:
  assumes "mem5_inv n m lev fr us" "p \<in> us" "lev p = Some k"
  shows "block_log m p = k" "memsys5Size m p = Some (szAtom m * 2 ^ k)"
proof -
  have k: "k \<le> LOGMAX" using partD(1) [OF mem5_invD(1) [OF assms(1)] assms(3)] .
  have c: "aCtrl m ! p = of_nat k" using mem5_invD(9) [OF assms(1,2)] assms(3) by simp
  have "p < length (aCtrl m)" using mem5_lt [OF assms(1)] assms(3) mem5_invD(3) [OF assms(1)] by auto
  then show "block_log m p = k" "memsys5Size m p = Some (szAtom m * 2 ^ k)"
    using ctrl_bits(1) [OF k] c by (auto simp: block_log_def memsys5Size_def ctrl_get_def)
qed

lemma run_inv_malloc:
  assumes v: "run_inv m A lev fr"
  obtains (fail) "memsys5Malloc m n = Some (None, m)"
    | (block) p m' lev' fr' where "memsys5Malloc m n = Some (Some p, m')" "0 < n" "p \<notin> dom A" "run_inv m' (A(p \<mapsto> nat n)) lev' fr'"
      "\<forall>q\<in>dom A. lev' q = lev q" "nBlock m' = nBlock m" "szAtom m' = szAtom m" "links_kept (fr \<union> fr') m m'"
proof (cases "0 < n \<and> nat n \<le> 0x40000000")
  case False
  then show thesis by (intro fail) (auto simp: memsys5Malloc_def memsys5MallocUnsafe_def)
next
  case True
  then have n: "0 < n" "nat n \<le> 0x40000000" and eq: "memsys5Malloc m n = memsys5MallocUnsafe m (nat n)" by (simp_all add: memsys5Malloc_def)
  from v have "mem5_inv (nBlock m) m lev fr (dom A)" "dom lev = fr \<union> dom A" "0 < szAtom m"
    and req: "\<And>p n. A p = Some n \<Longrightarrow> n \<le> szAtom m * 2 ^ the (lev p)" by (auto simp: run_inv_def)
  from this(1-3) n(2) show thesis
  proof (cases rule: malloc_inv)
    case (fail k)
    then show thesis using that(1) eq by simp
  next
    case (block i m' k lev' fr')
    have "run_inv m' (A(i \<mapsto> nat n)) lev' fr'"
      using block(3-5,7-10) v req by (auto simp: run_inv_def domI)
    then show thesis using block(1,2,7,9-11) that(2) eq n(1) by simp
  qed
qed

lemma run_inv_free:
  assumes v: "run_inv m A lev fr" and p: "p \<in> dom A"
  obtains m' lev' fr' where "memsys5Free m p = Some m'" "run_inv m' (A(p := None)) lev' fr'"
    "\<forall>q\<in>dom A - {p}. lev' q = lev q" "nBlock m' = nBlock m" "szAtom m' = szAtom m" "links_kept (fr \<union> fr') m m'"
proof -
  from v have i: "mem5_inv (nBlock m) m lev fr (dom A)" "dom lev = fr \<union> dom A" by (auto simp: run_inv_def)
  obtain m' lev' fr' where f: "memsys5FreeUnsafe m p = Some m'" "mem5_inv (nBlock m) m' lev' fr' (dom A - {p})"
    "dom lev' = fr' \<union> (dom A - {p})" "\<forall>q\<in>dom A - {p}. lev' q = lev q" "nBlock m' = nBlock m" "szAtom m' = szAtom m"
    "links_kept (fr \<union> fr') m m'"
    by (rule free_inv [OF i p])
  have "run_inv m' (A(p := None)) lev' fr'" using f(1-6) v by (auto simp: run_inv_def domI)
  then show thesis using that f by (simp add: memsys5Free_def)
qed

text \<open>No free block starts in a block that is in use.\<close>

lemma free_not_in_use:
  assumes v: "run_inv m A lev fr" and s: "s \<in> fr"
  shows "\<not> in_use m A s"
proof
  from v have i: "mem5_inv (nBlock m) m lev fr (dom A)" "dom lev = fr \<union> dom A" by (auto simp: run_inv_def)
  assume "in_use m A s"
  then obtain p where p: "p \<in> dom A" "p \<le> s" "s < p + 2 ^ block_log m p" by (auto simp: in_use_def)
  obtain k j where k: "lev p = Some k" "lev s = Some j" using p(1) s i(2) by blast
  have "p = s" using part_unique [OF mem5_invD(1) [OF i(1)] k, of s] p used_ctrl(1) [OF i(1) p(1) k(1)] by simp
  then show False using p(1) s mem5_invD(7) [OF i(1)] by auto
qed

lemma run_inv_client:
  assumes v: "run_inv m A lev fr" and same: "\<forall>s. \<not> in_use m A s \<longrightarrow> nx s = lnext m s \<and> pv s = lprev m s"
  shows "run_inv (m\<lparr>lnext := nx, lprev := pv\<rparr>) A lev fr"
proof -
  let ?m = "m\<lparr>lnext := nx, lprev := pv\<rparr>"
  have i: "mem5_inv (nBlock m) m lev fr (dom A)" using v by (simp add: run_inv_def)
  have "on_list ?m k xs" if "on_list m k xs" "set xs = {s \<in> fr. lev s = Some k}" for k xs
  proof -
    have "linked nx pv (-1) xs = linked (lnext m) (lprev m) (-1) xs"
      by (rule linked_cong) (use that(2) same free_not_in_use [OF v] in blast)
    then show ?thesis using that(1) by (simp add: on_list_def)
  qed
  then have "\<forall>k\<le>LOGMAX. \<exists>xs. on_list ?m k xs \<and> set xs = {s \<in> fr. lev s = Some k}" using mem5_invD(11) [OF i] by meson
  then have "mem5_inv (nBlock m) ?m lev fr (dom A)" using i by (simp add: mem5_inv_def)
  then show ?thesis using v by (simp add: run_inv_def)
qed

lemma run_inv_copy:
  assumes v: "run_inv m A lev fr" and q: "q \<in> dom A" "n \<le> szAtom m * 2 ^ the (lev q)"
  shows "run_inv (copy_block m q p n) A lev fr"
  unfolding copy_block_def
proof (rule run_inv_client [OF v], intro allI impI)
  from v have i: "mem5_inv (nBlock m) m lev fr (dom A)" "dom lev = fr \<union> dom A" "0 < szAtom m" by (auto simp: run_inv_def)
  obtain k where k: "lev q = Some k" using q(1) i(2) by blast
  have "n div szAtom m \<le> 2 ^ k" using q(2) k i(3) div_le_mono [of n "szAtom m * 2 ^ k" "szAtom m"] by simp
  moreover fix s assume "\<not> in_use m A s"
  ultimately have "\<not> (q \<le> s \<and> s < q + n div szAtom m)" using q(1) used_ctrl(1) [OF i(1) q(1) k] by (auto simp: in_use_def)
  then show "(if q \<le> s \<and> s < q + n div szAtom m then lnext m (p + (s - q)) else lnext m s) = lnext m s \<and>
      (if q \<le> s \<and> s < q + n div szAtom m then lprev m (p + (s - q)) else lprev m s) = lprev m s" by (simp only: if_False simp_thms)
qed

lemma run_inv_realloc:
  assumes v: "run_inv m A lev fr" and p: "p \<in> dom A"
  obtains (same) "memsys5Realloc m p n = Some (None, m)"
    | (fits) "memsys5Realloc m p n = Some (Some p, m)" "run_inv m (A(p \<mapsto> n)) lev fr"
    | (move) q m1 m' lev1 fr1 lev' fr' where "memsys5Malloc m (int n) = Some (Some q, m1)" "run_inv m1 (A(q \<mapsto> n)) lev1 fr1" "p \<noteq> q"
      "memsys5Size m p = Some (szAtom m * 2 ^ the (lev p))" "szAtom m * 2 ^ the (lev p) < n"
      "run_inv (copy_block m1 q p (szAtom m * 2 ^ the (lev p))) (A(q \<mapsto> n)) lev1 fr1"
      "memsys5Free (copy_block m1 q p (szAtom m * 2 ^ the (lev p))) p = Some m'"
      "memsys5Realloc m p n = Some (Some q, m')" "run_inv m' ((A(p := None))(q \<mapsto> n)) lev' fr'"
proof -
  from v have i: "mem5_inv (nBlock m) m lev fr (dom A)" "dom lev = fr \<union> dom A" by (auto simp: run_inv_def)
  obtain k where k: "lev p = Some k" using p i(2) by blast
  note u = used_ctrl(2) [OF i(1) p k]
  show thesis
  proof (cases "n = 0 \<or> n \<le> szAtom m * 2 ^ k")
    case True
    have "run_inv m (A(p \<mapsto> n)) lev fr" if "n \<le> szAtom m * 2 ^ k"
      using that v p k by (auto simp: run_inv_def insert_absorb)
    then show thesis using True u same fits by (cases "n = 0") (auto simp: memsys5Realloc_def)
  next
    case False
    from v show thesis
    proof (cases rule: run_inv_malloc [where n = "int n"])
      case fail
      then show thesis using False u same by (auto simp: memsys5Realloc_def)
    next
      case (block q m1 lev1 fr1)
      let ?m = "copy_block m1 q p (szAtom m * 2 ^ k)"
      have pq: "p \<noteq> q" "p \<in> dom (A(q \<mapsto> n))" using block(3) p by auto
      have b4: "run_inv m1 (A(q \<mapsto> n)) lev1 fr1" using block(4) by simp
      have "szAtom m * 2 ^ k \<le> szAtom m1 * 2 ^ the (lev1 q)" using run_inv_req [OF b4, of q n] False by simp
      then have c: "run_inv ?m (A(q \<mapsto> n)) lev1 fr1" by (intro run_inv_copy [OF b4]) simp_all
      obtain m2 l2 f2 where f: "memsys5Free ?m p = Some m2" "run_inv m2 ((A(q \<mapsto> n))(p := None)) l2 f2"
        by (rule run_inv_free [OF c pq(2)])
      have "(A(q \<mapsto> n))(p := None) = (A(p := None))(q \<mapsto> n)" using pq(1) by auto
      moreover have "memsys5Realloc m p n = Some (Some q, m2)" using False u block(1) f(1) by (auto simp: memsys5Realloc_def)
      ultimately show thesis using move [of q m1 lev1 fr1 m2 l2 f2] block(1,4) pq(1) u False c f k by simp
    qed
  qed
qed

lemma reach_run_inv: "mem5_reach m A \<Longrightarrow> \<exists>lev fr. run_inv m A lev fr"
proof (induction rule: mem5_reach.induct)
  case (start nHeap mnReq links junk m)
  obtain m' lev fr k where i: "memsys5Init nHeap mnReq links junk = Some m'" "mem5_inv (nBlock m') m' lev fr {}" "dom lev = fr" "szAtom m' = 2 ^ k"
    using init_inv [OF start(1)] by blast
  have "run_inv m' Map.empty lev fr" using i(2-4) by (simp add: run_inv_def)
  then show ?case using start(2) i(1) by auto
next
  case (malloc m A n r m')
  then obtain lev fr where "run_inv m A lev fr" by blast
  then show ?case
  proof (cases rule: run_inv_malloc [where n = n])
    case fail
    then show ?thesis using malloc by auto
  next
    case (block p m'' lev' fr')
    then have "r = Some p" "m' = m''" using malloc(2) by auto
    then show ?thesis using block(4) by (auto simp del: fun_upd_apply)
  qed
next
  case (free m A p m')
  then obtain lev fr where v: "run_inv m A lev fr" by blast
  obtain m'' lev' fr' where "memsys5Free m p = Some m''" "run_inv m'' (A(p := None)) lev' fr'"
    by (rule run_inv_free [OF v free(2)])
  then show ?case using free(3) by (auto simp del: fun_upd_apply)
next
  case (realloc m A p n r m')
  then obtain lev fr where v: "run_inv m A lev fr" by blast
  show ?case
  proof (rule run_inv_realloc [OF v realloc(2), of n])
    assume "memsys5Realloc m p n = Some (Some p, m)" "run_inv m (A(p \<mapsto> n)) lev fr"
    then show ?thesis using realloc(3) by (auto simp del: fun_upd_apply)
  qed (use realloc(3) v in \<open>auto simp del: fun_upd_apply\<close>)
next
  case (client m A nx pv)
  then show ?case using run_inv_client by blast
qed

section \<open>Correctness\<close>

lemma free_run:
  assumes v: "run_inv m A lev fr" and k: "k \<le> LOGMAX" and a: "2 ^ k dvd a" "a + 2 ^ k \<le> nBlock m"
    and un: "\<forall>s. a \<le> s \<and> s < a + 2 ^ k \<longrightarrow> \<not> in_use m A s"
  shows "\<exists>s\<in>fr. k \<le> the (lev s)"
proof (rule ccontr)
  assume "\<not> (\<exists>s\<in>fr. k \<le> the (lev s))"
  then have small: "the (lev s) < k" if "s \<in> fr" for s using that by auto
  from v have i: "mem5_inv (nBlock m) m lev fr (dom A)" "dom lev = fr \<union> dom A" by (auto simp: run_inv_def)
  note p = mem5_invD(1) [OF i(1)]
  have frI: "s \<in> fr" if "lev s = Some j" "a < s + 2 ^ j" "s < a + 2 ^ k" for s j
  proof (rule ccontr)
    assume "s \<notin> fr"
    then have sA: "s \<in> dom A" using that(1) i(2) by auto
    have "in_use m A (max s a)" using sA used_ctrl(1) [OF i(1) sA that(1)] that by (auto simp: in_use_def intro!: bexI [of _ s])
    then show False using un that by auto
  qed
  let ?P = "\<lambda>j. \<exists>s. lev s = Some j \<and> a \<le> s \<and> s < a + 2 ^ k"
  have "\<exists>j. ?P j"
  proof -
    have "a < nBlock m" using a(2) by (rule less_le_trans [rotated]) simp
    then obtain s j where s: "lev s = Some j" "s \<le> a" "a < s + 2 ^ j" using part_cover [OF p] by blast
    have "s < a + 2 ^ k" using s(2) by (rule le_less_trans) simp
    then have "s \<in> fr" by (rule frI [OF s(1,3)])
    then have "j < k" using small [of s] s(1) by simp
    then have "2 ^ j dvd a" by (intro pow_dvd_le [OF _ a(1)]) simp
    then have "a = s" using dvd_in_block [OF partD(2) [OF p s(1)] _ s(2,3)] by blast
    then show ?thesis using s(1) by (intro exI [of _ j] exI [of _ s]) simp
  qed
  then have L: "?P (LEAST j. ?P j)" by (rule LeastI_ex)
  define j where "j = (LEAST j. ?P j)"
  obtain s where s: "lev s = Some j" "a \<le> s" "s < a + 2 ^ k" using L unfolding j_def by blast
  have min: "j \<le> j'" if "lev s' = Some j'" "a \<le> s'" "s' < a + 2 ^ k" for s' j'
    unfolding j_def by (rule Least_le) (use that in blast)
  have "a < s + 2 ^ j" using s(2) by (rule le_less_trans) simp
  then have sf: "s \<in> fr" using s by (intro frI)
  have jk: "j < k" using small [OF sf] s(1) by simp
  obtain c where c: "2 ^ Suc j dvd c" "(s = c \<and> buddy j s = c + 2 ^ j) \<or> (s = c + 2 ^ j \<and> buddy j s = c)"
    by (rule buddy_base [OF partD(2) [OF p s(1)]])
  have da: "2 ^ Suc j dvd a" "2 ^ Suc j dvd a + 2 ^ k"
    using jk by (auto intro!: pow_dvd_le [OF _ a(1)] dvd_add le_imp_power_dvd simp del: power_Suc)
  have cs: "c \<le> s" "s < c + 2 ^ Suc j" using c(2) by auto
  have "c + 2 ^ Suc j \<le> a" if "c < a" by (rule dvd_block_le [OF c(1) da(1) that])
  then have ca: "a \<le> c" using cs s(2) by linarith
  have "c < a + 2 ^ k" using cs s(3) by linarith
  then have "c + 2 ^ Suc j \<le> a + 2 ^ k" by (rule dvd_block_le [OF c(1) da(2)])
  moreover have "c \<le> buddy j s" "buddy j s < c + 2 ^ Suc j" using c(2) by auto
  ultimately have b: "a \<le> buddy j s" "buddy j s < a + 2 ^ k" using ca by linarith+
  then obtain j' where j': "j' \<le> j" "lev (buddy j s) = Some j'" using buddy_start [OF p s(1)] a(2) by auto
  then have "j' = j" using min b by fastforce
  have "a < buddy j s + 2 ^ j'" using b(1) by (rule le_less_trans) simp
  then have "buddy j s \<in> fr" using j' b by (intro frI)
  then show False using mem5_invD(10) [OF i(1) sf _ s(1)] jk k j' \<open>j' = j\<close> by simp
qed

text \<open>C2. Safety of the buddy allocator. In every state that start-up and any sequence of calls of
  \<open>memsys5Malloc\<close>, \<open>memsys5Free\<close> and \<open>memsys5Realloc\<close> leads to, with the client overwriting the memory
  it was given in any way: each outstanding allocation is at least as large as requested and lies in the
  pool, two outstanding allocations do not overlap, and neither an allocation nor the release of an
  outstanding block reads or writes outside the pool, the control bytes and the free lists.\<close>

theorem mem5_safe:
  assumes "mem5_reach m A"
  shows "(\<forall>p n. A p = Some n \<longrightarrow> (\<exists>z. memsys5Size m p = Some z \<and> n \<le> z \<and> p * szAtom m + z \<le> nBlock m * szAtom m)) \<and>
    (\<forall>p q z. p \<in> dom A \<longrightarrow> q \<in> dom A \<longrightarrow> p < q \<longrightarrow> memsys5Size m p = Some z \<longrightarrow> p * szAtom m + z \<le> q * szAtom m) \<and>
    (\<forall>n. memsys5Malloc m n \<noteq> None) \<and> (\<forall>p\<in>dom A. memsys5Free m p \<noteq> None \<and> (\<forall>n. memsys5Realloc m p n \<noteq> None))"
proof (intro conjI allI impI ballI)
  obtain lev fr where v: "run_inv m A lev fr" using reach_run_inv [OF assms] by blast
  then have i: "mem5_inv (nBlock m) m lev fr (dom A)" "dom lev = fr \<union> dom A"
    and req: "\<And>p n. A p = Some n \<Longrightarrow> n \<le> szAtom m * 2 ^ the (lev p)" by (auto simp: run_inv_def)
  note pt = mem5_invD(1) [OF i(1)]
  have lev: "\<exists>k. lev p = Some k \<and> memsys5Size m p = Some (szAtom m * 2 ^ k)" if "p \<in> dom A" for p
    using that i(2) used_ctrl(2) [OF i(1) that] by blast
  have mul: "p * szAtom m + szAtom m * 2 ^ k \<le> e * szAtom m" if "p + 2 ^ k \<le> e" for p k e
    using mult_le_mono1 [OF that, of "szAtom m"] by (simp add: algebra_simps)
  show "\<exists>z. memsys5Size m p = Some z \<and> n \<le> z \<and> p * szAtom m + z \<le> nBlock m * szAtom m" if A: "A p = Some n" for p n
  proof -
    obtain k where k: "lev p = Some k" "memsys5Size m p = Some (szAtom m * 2 ^ k)" using lev A by blast
    then show ?thesis using mul [OF partD(3) [OF pt k(1)]] req [OF A] by auto
  qed
  show "p * szAtom m + z \<le> q * szAtom m" if h: "p \<in> dom A" "q \<in> dom A" "p < q" "memsys5Size m p = Some z" for p q z
  proof -
    obtain k j where k: "lev p = Some k" "z = szAtom m * 2 ^ k" "lev q = Some j" using lev [OF h(1)] lev [OF h(2)] h(4) by auto
    then show ?thesis using mul part_apart [OF pt k(1,3) h(3)] by simp
  qed
  show "memsys5Malloc m n \<noteq> None" for n using v by (cases rule: run_inv_malloc [where n = n]) auto
  show "memsys5Free m p \<noteq> None" if "p \<in> dom A" for p by (rule run_inv_free [OF v that]) simp
  show "memsys5Realloc m p n \<noteq> None" if "p \<in> dom A" for p n by (rule run_inv_realloc [OF v that, of n]) auto
qed

text \<open>A pool of 100 bytes with atoms of 8 bytes has 11 of them.\<close>

definition mem5_demo :: Mem5Global where
  "mem5_demo = the (memsys5Init 100 8 (\<lambda>_. (7, 7)) (\<lambda>_. 0))"

definition mem5_demo2 :: Mem5Global where
  "mem5_demo2 = snd (the (memsys5Malloc mem5_demo 20))"

lemma mem5_demo_init: "memsys5Init 100 8 (\<lambda>_. (7, 7)) (\<lambda>_. 0) = Some mem5_demo"
proof -
  obtain m where "memsys5Init 100 8 (\<lambda>_. (7, 7)) (\<lambda>_. 0) = Some m" using init_inv [of 100 8] by auto
  then show ?thesis by (simp add: mem5_demo_def)
qed

lemma mem5_demo_reach: "mem5_reach mem5_demo Map.empty"
  by (rule mem5_reach.start [OF _ mem5_demo_init]) simp

lemma init_loop_numeral:
  "init_loop (numeral v) m off =
     (if off + 2 ^ pred_numeral v \<le> nBlock m then
        Option.bind (ctrl_set m off (of_nat (pred_numeral v) OR CTRL_FREE)) (\<lambda>m.
          Option.bind (memsys5Link m off (pred_numeral v)) (\<lambda>m. init_loop (pred_numeral v) m (off + 2 ^ pred_numeral v)))
      else init_loop (pred_numeral v) m off)"
  by (simp add: numeral_eq_Suc)

lemma replicate_numeral_Cons: "replicate (numeral v) x = x # replicate (pred_numeral v) x"
  by (simp add: numeral_eq_Suc)

lemma mem5_demo_eq:
  "mem5_demo = \<lparr>szAtom = 8, nBlock = 11, lnext = (\<lambda>_. 7)(0 := -1, 8 := -1, 10 := -1), lprev = (\<lambda>_. 7)(0 := -1, 8 := -1, 10 := -1),
     aiFreelist = [10, 8, -1, 0] @ replicate 27 (-1), aCtrl = [0x23, 0, 0, 0, 0, 0, 0, 0, 0x21, 0, 0x20]\<rparr>"
proof -
  have 1: "init_szAtom 8 = 8" by (simp add: init_szAtom_def memsys5Log_def log_loop.simps grow_atom.simps)
  have 2: "map (\<lambda>_. 0) [0..<11] = [0, 0, 0, 0, 0, 0, 0, 0, 0, 0, 0::u8]" by code_simp
  show ?thesis
    by (simp add: mem5_demo_def memsys5Init_def 1 2 LOGMAX_def init_loop_numeral ctrl_set_def memsys5Link_def CTRL_FREE_def comp_def Let_def replicate_numeral_Cons)
qed

lemma mem5_demo_malloc_eq:
  "memsys5Malloc mem5_demo 20 = Some (Some 0, mem5_demo\<lparr>lnext := (lnext mem5_demo)(4 := -1), lprev := (lprev mem5_demo)(4 := -1),
     aiFreelist := [10, 8, 4, -1] @ replicate 27 (-1), aCtrl := [2, 0, 0, 0, 0x22, 0, 0, 0, 0x21, 0, 0x20]\<rparr>)"
  by (simp add: mem5_demo_eq memsys5Malloc_def memsys5MallocUnsafe_def round_loop.simps find_bin.simps LOGMAX_def ctrl_set_def memsys5Link_def
    memsys5Unlink_def CTRL_FREE_def Let_def)

lemma mem5_demo_malloc: "memsys5Malloc mem5_demo 20 = Some (Some 0, mem5_demo2)"
  by (simp add: mem5_demo2_def mem5_demo_malloc_eq)

lemma mem5_demo2_facts: "szAtom mem5_demo2 = 8" "nBlock mem5_demo2 = 11" "block_log mem5_demo2 0 = 2"
  by (simp_all add: mem5_demo2_def mem5_demo_malloc_eq block_log_def CTRL_LOGSIZE_def) (simp_all add: mem5_demo_eq)

lemma mem5_demo2_reach: "mem5_reach mem5_demo2 [0 \<mapsto> 20]"
  using mem5_reach.malloc [OF mem5_demo_reach mem5_demo_malloc] by simp

theorem mem5_safe_witness: "\<exists>z. memsys5Size mem5_demo2 0 = Some z \<and> 20 \<le> z"
proof -
  have "\<exists>z. memsys5Size mem5_demo2 0 = Some z \<and> 20 \<le> z \<and> 0 * szAtom mem5_demo2 + z \<le> nBlock mem5_demo2 * szAtom mem5_demo2"
    by (rule conjunct1 [OF mem5_safe [OF mem5_demo2_reach], rule_format]) simp
  then show ?thesis by blast
qed

lemma alloc_succeeds:
  assumes "mem5_reach m A" and "0 < n" "n \<le> 0x40000000" and "n \<le> szAtom m * 2 ^ k" "k \<le> LOGMAX"
    and "2 ^ k dvd a" "a + 2 ^ k \<le> nBlock m" and "\<forall>s. a \<le> s \<and> s < a + 2 ^ k \<longrightarrow> \<not> in_use m A s"
  shows "\<exists>p m'. memsys5Malloc m (int n) = Some (Some p, m') \<and> p \<notin> dom A"
proof -
  obtain lev fr where v: "run_inv m A lev fr" using reach_run_inv [OF assms(1)] by blast
  obtain s where s: "s \<in> fr" "k \<le> the (lev s)" using free_run [OF v assms(5-)] by blast
  from v have "mem5_inv (nBlock m) m lev fr (dom A)" "dom lev = fr \<union> dom A" "0 < szAtom m" by (auto simp: run_inv_def)
  from this assms(3) have "\<exists>p m'. memsys5MallocUnsafe m n = Some (Some p, m') \<and> p \<notin> dom A"
  proof (cases rule: malloc_inv)
    case (fail j)
    then have "k < j" using s by fastforce
    then show ?thesis using fail(3) assms(4) by fastforce
  qed auto
  then show ?thesis using assms(2) by (simp add: memsys5Malloc_def)
qed

text \<open>C13. The allocator finds memory when there is some. If a run of \<open>2 ^ k\<close> atoms, starting at a
  multiple of \<open>2 ^ k\<close> and large enough for the request, has no atom in use, then the request succeeds.
  The blocks released before have been merged as far as this needs, whatever the order of the calls.\<close>

theorem mem5_malloc_succeeds:
  assumes "mem5_reach m A" and "0 < n" "n \<le> 0x40000000" and "n \<le> szAtom m * 2 ^ k" "k \<le> LOGMAX"
    and "2 ^ k dvd a" "a + 2 ^ k \<le> nBlock m" and "\<forall>s. a \<le> s \<and> s < a + 2 ^ k \<longrightarrow> \<not> in_use m A s"
  shows "\<exists>p m'. memsys5Malloc m (int n) = Some (Some p, m') \<and> p \<notin> dom A"
  by (rule alloc_succeeds [OF assms])

theorem mem5_malloc_succeeds_witness:
  "\<exists>p m'. memsys5Malloc mem5_demo2 (int 32) = Some (Some p, m') \<and> p \<notin> dom [0 \<mapsto> (20::nat)]"
  by (rule mem5_malloc_succeeds [OF mem5_demo2_reach, where n = 32 and k = 2 and a = 4])
      (auto simp: mem5_demo2_facts LOGMAX_def in_use_def split: if_splits)

text \<open>A block as its owner sees it: its size, and all memory of its atoms that the allocator may read and write.\<close>

definition block_kept :: "Mem5Global \<Rightarrow> Mem5Global \<Rightarrow> nat \<Rightarrow> bool" where
  "block_kept m m' q \<longleftrightarrow> memsys5Size m' q = memsys5Size m q \<and> block_log m' q = block_log m q \<and>
     (\<forall>x. q \<le> x \<and> x < q + 2 ^ block_log m q \<longrightarrow> lnext m' x = lnext m x \<and> lprev m' x = lprev m x)"

lemma block_kept_trans: "block_kept m m1 q \<Longrightarrow> block_kept m1 m2 q \<Longrightarrow> block_kept m m2 q"
  by (simp add: block_kept_def)

lemma run_inv_kept:
  assumes v: "run_inv m A lev fr" and v': "run_inv m' A' lev' fr'" and q: "q \<in> dom A" "q \<in> dom A'" "lev' q = lev q"
    and sz: "szAtom m' = szAtom m" and lk: "links_kept (fr \<union> fr') m m'"
  shows "block_kept m m' q"
proof -
  have i: "mem5_inv (nBlock m) m lev fr (dom A)" "dom lev = fr \<union> dom A" "mem5_inv (nBlock m') m' lev' fr' (dom A')"
    using v v' by (auto simp: run_inv_def)
  then obtain k where k: "lev q = Some k" using q(1) by blast
  have u: "block_log m q = k" "memsys5Size m q = Some (szAtom m * 2 ^ k)" "block_log m' q = k" "memsys5Size m' q = Some (szAtom m' * 2 ^ k)"
    using used_ctrl [OF i(1) q(1) k] used_ctrl [OF i(3) q(2)] k q(3) by simp_all
  have "x \<notin> fr \<union> fr'" if "q \<le> x" "x < q + 2 ^ k" for x
  proof -
    have "in_use m A x" "in_use m' A' x" using q(1,2) that u(1,3) by (auto simp: in_use_def)
    then show ?thesis using free_not_in_use [OF v] free_not_in_use [OF v'] by auto
  qed
  then show ?thesis using u sz lk by (simp add: block_kept_def links_kept_def)
qed

lemma malloc_kept:
  assumes v: "run_inv m A lev fr" and r: "memsys5Malloc m n = Some (r, m')"
  shows "(case r of None \<Rightarrow> m' = m | Some p \<Rightarrow> p \<notin> dom A \<and> (\<exists>lev' fr'. run_inv m' (A(p \<mapsto> nat n)) lev' fr') \<and>
    nBlock m' = nBlock m \<and> szAtom m' = szAtom m \<and> (\<forall>q\<in>dom A. block_kept m m' q))"
  using v
proof (cases rule: run_inv_malloc [where n = n])
  case fail
  then show ?thesis using r by simp
next
  case (block p m'' lev' fr')
  have "block_kept m m'' q" if "q \<in> dom A" for q
    by (rule run_inv_kept [OF v block(4) that _ _ block(7,8)]) (use that block(5) in auto)
  then show ?thesis using r block(1,3,4,6,7) by auto
qed

lemma free_kept:
  assumes v: "run_inv m A lev fr" and p: "p \<in> dom A" and f: "memsys5Free m p = Some m'"
  shows "nBlock m' = nBlock m \<and> szAtom m' = szAtom m \<and> (\<forall>q\<in>dom A - {p}. block_kept m m' q)"
proof -
  obtain m2 lev' fr' where r: "memsys5Free m p = Some m2" "run_inv m2 (A(p := None)) lev' fr'"
    "\<forall>q\<in>dom A - {p}. lev' q = lev q" "nBlock m2 = nBlock m" "szAtom m2 = szAtom m" "links_kept (fr \<union> fr') m m2" by (rule run_inv_free [OF v p])
  have "block_kept m m2 q" if "q \<in> dom A - {p}" for q
    by (rule run_inv_kept [OF v r(2) _ _ _ r(5,6)]) (use that r(3) in auto)
  then show ?thesis using f r(1,4,5) by simp
qed

lemma copy_kept:
  assumes v: "run_inv m A lev fr" and q: "q \<in> dom A" "n \<le> szAtom m * 2 ^ the (lev q)" and x: "x \<in> dom A" "x \<noteq> q"
  shows "block_kept m (copy_block m q p n) x"
proof -
  from v have i: "mem5_inv (nBlock m) m lev fr (dom A)" "dom lev = fr \<union> dom A" "0 < szAtom m" by (auto simp: run_inv_def)
  obtain k j where k: "lev q = Some k" "lev x = Some j" using q(1) x(1) i(2) by blast
  have n: "n div szAtom m \<le> 2 ^ k" using q(2) k i(3) div_le_mono [of n "szAtom m * 2 ^ k" "szAtom m"] by simp
  have "\<not> (q \<le> y \<and> y < q + n div szAtom m)" if "x \<le> y" "y < x + 2 ^ j" for y
    using part_unique [OF mem5_invD(1) [OF i(1)] k, of y] that x(2) n by auto
  then show ?thesis using used_ctrl(1) [OF i(1) x(1) k(2)]
    by (auto simp: block_kept_def copy_block_def memsys5Size_def ctrl_get_def block_log_def)
qed

lemma realloc_kept:
  assumes v: "run_inv m A lev fr" and p: "p \<in> dom A" and r: "memsys5Realloc m p n = Some (r, m')"
  shows "nBlock m' = nBlock m \<and> szAtom m' = szAtom m \<and> (r = None \<longrightarrow> m' = m) \<and> (\<forall>x\<in>dom A - {p}. block_kept m m' x) \<and>
    (\<forall>q y. r = Some q \<and> y < 2 ^ block_log m p \<longrightarrow> lnext m' (q + y) = lnext m (p + y) \<and> lprev m' (q + y) = lprev m (p + y))"
proof (rule run_inv_realloc [OF v p, of n])
  fix q m1 m2 lev1 fr1 lev2 fr2
  let ?m = "copy_block m1 q p (szAtom m * 2 ^ the (lev p))"
  assume a: "memsys5Malloc m (int n) = Some (Some q, m1)" "run_inv m1 (A(q \<mapsto> n)) lev1 fr1" "p \<noteq> q"
      "memsys5Size m p = Some (szAtom m * 2 ^ the (lev p))" "szAtom m * 2 ^ the (lev p) < n"
      "run_inv ?m (A(q \<mapsto> n)) lev1 fr1" "memsys5Free ?m p = Some m2" "memsys5Realloc m p n = Some (Some q, m2)"
      "run_inv m2 ((A(p := None))(q \<mapsto> n)) lev2 fr2"
  have k: "q \<notin> dom A" "nBlock m1 = nBlock m" "szAtom m1 = szAtom m" "\<forall>x\<in>dom A. block_kept m m1 x" using malloc_kept [OF v a(1)] by auto
  have pA: "p \<in> dom (A(q \<mapsto> n))" using p by auto
  note f = free_kept [OF a(6) pA a(7)]
  have l1: "szAtom m * 2 ^ the (lev p) \<le> szAtom m1 * 2 ^ the (lev1 q)" using run_inv_req [OF a(2), of q n] a(5) by simp
  have "block_kept m m2 x" if x: "x \<in> dom A - {p}" for x
  proof (rule block_kept_trans [of m m1], rule_tac [2] block_kept_trans [of m1 ?m])
    show "block_kept m m1 x" using k(4) x by blast
    show "block_kept m1 ?m x" by (rule copy_kept [OF a(2) _ l1]) (use x k(1) in auto)
    show "block_kept ?m m2 x" using f x by auto
  qed
  moreover have "lnext m2 (q + y) = lnext m (p + y) \<and> lprev m2 (q + y) = lprev m (p + y)" if y: "y < 2 ^ block_log m p" for y
  proof -
    from v have i: "mem5_inv (nBlock m) m lev fr (dom A)" "dom lev = fr \<union> dom A" "0 < szAtom m" by (auto simp: run_inv_def)
    obtain b where b: "lev p = Some b" using p i(2) by blast
    from a(6) have i1: "mem5_inv (nBlock ?m) ?m lev1 fr1 (dom (A(q \<mapsto> n)))" "dom lev1 = fr1 \<union> dom (A(q \<mapsto> n))" by (auto simp: run_inv_def)
    obtain c where c: "lev1 q = Some c" using i1(2) by auto
    have y': "y < 2 ^ b" using y used_ctrl(1) [OF i(1) p b] by simp
    have "2 ^ b \<le> (2::nat) ^ c" using l1 b c k(3) i(3) by simp
    then have "y < 2 ^ c" using y' by (rule less_le_trans [rotated])
    then have "y < 2 ^ block_log ?m q" using used_ctrl(1) [OF i1(1) _ c] by simp
    moreover have "block_kept ?m m2 q" using f a(3) by auto
    ultimately have "lnext m2 (q + y) = lnext ?m (q + y) \<and> lprev m2 (q + y) = lprev ?m (q + y)" by (simp add: block_kept_def)
    moreover have "lnext ?m (q + y) = lnext m1 (p + y) \<and> lprev ?m (q + y) = lprev m1 (p + y)" using y' b k(3) i(3) by (simp add: copy_block_def)
    moreover have "lnext m1 (p + y) = lnext m (p + y) \<and> lprev m1 (p + y) = lprev m (p + y)" using k(4) p y by (auto simp: block_kept_def)
    ultimately show ?thesis by simp
  qed
  ultimately show ?thesis using f k(2,3) a(8) r by (auto simp: copy_block_def)
qed (use r in \<open>auto simp: block_kept_def\<close>)

lemma demo2_malloc: "\<exists>p m'. memsys5Malloc mem5_demo2 32 = Some (Some p, m')"
proof -
  obtain p m' where "memsys5Malloc mem5_demo2 (int 32) = Some (Some p, m')"
    using alloc_succeeds [OF mem5_demo2_reach, where n = 32 and k = 2 and a = 4]
    by (auto simp: mem5_demo2_facts LOGMAX_def in_use_def split: if_splits)
  then show ?thesis by auto
qed

text \<open>C26. An operation on one block does not touch the others. An allocation returns a block that was
  not outstanding; an allocation, a release or a reallocation leaves the size of every other outstanding block, the links that the allocator would read from and write to
  the memory of any atom of it, and the geometry of the pool as they were; an allocation or reallocation that fails changes nothing; and a
  reallocation hands over what these links read in the old block.\<close>

theorem mem5_frame:
  assumes "mem5_reach m A"
  shows "(\<forall>n p m'. memsys5Malloc m n = Some (Some p, m') \<longrightarrow>
      p \<notin> dom A \<and> nBlock m' = nBlock m \<and> szAtom m' = szAtom m \<and> (\<forall>q\<in>dom A. block_kept m m' q)) \<and>
    (\<forall>n m'. memsys5Malloc m n = Some (None, m') \<longrightarrow> m' = m) \<and>
    (\<forall>p m'. p \<in> dom A \<and> memsys5Free m p = Some m' \<longrightarrow>
      nBlock m' = nBlock m \<and> szAtom m' = szAtom m \<and> (\<forall>q\<in>dom A - {p}. block_kept m m' q)) \<and>
    (\<forall>p n r m'. p \<in> dom A \<and> memsys5Realloc m p n = Some (r, m') \<longrightarrow>
      nBlock m' = nBlock m \<and> szAtom m' = szAtom m \<and> (r = None \<longrightarrow> m' = m) \<and> (\<forall>q\<in>dom A - {p}. block_kept m m' q) \<and>
      (\<forall>q y. r = Some q \<and> y < 2 ^ block_log m p \<longrightarrow> lnext m' (q + y) = lnext m (p + y) \<and> lprev m' (q + y) = lprev m (p + y)))"
proof -
  obtain lev fr where v: "run_inv m A lev fr" using reach_run_inv [OF assms] by blast
  have "\<forall>n p m'. memsys5Malloc m n = Some (Some p, m') \<longrightarrow>
      p \<notin> dom A \<and> nBlock m' = nBlock m \<and> szAtom m' = szAtom m \<and> (\<forall>q\<in>dom A. block_kept m m' q)"
    and "\<forall>n m'. memsys5Malloc m n = Some (None, m') \<longrightarrow> m' = m" using malloc_kept [OF v] by fastforce+
  then show ?thesis using free_kept [OF v] realloc_kept [OF v] by blast
qed

theorem mem5_frame_witness:
  "\<exists>p m'. memsys5Malloc mem5_demo2 32 = Some (Some p, m') \<and> p \<noteq> 0 \<and> block_kept mem5_demo2 m' 0"
proof -
  obtain p m' where "memsys5Malloc mem5_demo2 32 = Some (Some p, m')" using demo2_malloc by blast
  then show ?thesis using conjunct1 [OF mem5_frame [OF mem5_demo2_reach], rule_format, of 32 p m'] by fastforce
qed

lemma round_loop_unique:
  assumes "n \<le> 2 ^ a * 2 ^ j" "j = 0 \<or> 2 ^ a * 2 ^ (j - 1) < n"
  shows "round_loop n (2 ^ a) 0 = (2 ^ a * 2 ^ j, j)"
proof -
  obtain k where k: "round_loop n (2 ^ a) 0 = (2 ^ a * 2 ^ k, k)" "n \<le> 2 ^ a * 2 ^ k" "\<forall>i. i < k \<longrightarrow> 2 ^ a * 2 ^ i < n"
    using round_loop_spec [of "2 ^ a" 0 n] by auto
  have "\<not> j < k" using k(3) assms(1) by fastforce
  moreover have "\<not> k < j"
  proof
    assume "k < j"
    then have "(2::nat) ^ k \<le> 2 ^ (j - 1)" by (intro power_increasing) auto
    then have "2 ^ a * 2 ^ k \<le> (2::nat) ^ a * 2 ^ (j - 1)" by (rule mult_le_mono2)
    then show False using k(2) assms(2) \<open>k < j\<close> by linarith
  qed
  ultimately have "k = j" by simp
  then show ?thesis using k(1) by simp
qed

lemma roundup_loop_spec:
  assumes "2 ^ j < n"
  shows "\<exists>i\<ge>j + 2. roundup_loop n (2 ^ (j + 2)) = 2 ^ i \<and> n \<le> 2 ^ i \<and> 2 ^ (i - 2) < n"
  using assms
proof (induction "n - 2 ^ (j + 2)" arbitrary: j rule: less_induct)
  case less
  show ?case
  proof (cases "2 ^ (j + 2) < n")
    case True
    have "n - 2 ^ (j + 2 + 2) < n - 2 ^ (j + 2)" using True by (intro diff_less_mono2) auto
    then obtain i where i: "i \<ge> j + 2 + 2" "roundup_loop n (2 ^ (j + 2 + 2)) = 2 ^ i" "n \<le> 2 ^ i" "2 ^ (i - 2) < n"
      using less(1) [of "j + 2"] True by blast
    have "roundup_loop n (2 ^ (j + 2)) = roundup_loop n (2 ^ (j + 2) * 4)" using True by (subst roundup_loop.simps) simp
    also have "2 ^ (j + 2) * 4 = (2::nat) ^ (j + 2 + 2)" by (simp add: power_add)
    finally show ?thesis using i by (intro exI [of _ i]) auto
  next
    case False
    then have "roundup_loop n (2 ^ (j + 2)) = 2 ^ (j + 2)" by (subst roundup_loop.simps) simp
    then show ?thesis using False less(2) by (intro exI [of _ "j + 2"]) auto
  qed
qed

text \<open>\<open>memsys5Roundup\<close>, which goes up in steps of four and then perhaps back by two, gives exactly
  the number of bytes that \<open>memsys5MallocUnsafe\<close> sets aside for a request of up to 1 GiB, and zero for
  a larger one.\<close>

theorem memsys5Roundup_malloc:
  assumes sz: "szAtom m = 2 ^ a" and a: "a < 30"
  shows "memsys5Roundup m n = (if n \<le> 0x40000000 then fst (round_loop n (szAtom m) 0) else 0)"
proof -
  have R: "round_loop n (szAtom m) 0 = (2 ^ i, i - a)" if "a \<le> i" "n \<le> 2 ^ i" "i = a \<or> 2 ^ (i - 1) < n" for i
  proof -
    obtain j where j: "i = a + j" using le_Suc_ex [OF \<open>a \<le> i\<close>] by blast
    have "j = 0 \<or> 2 ^ a * 2 ^ (j - 1) < n"
    proof (cases j)
      case (Suc l)
      then show ?thesis using that(3) j by (simp add: power_add)
    qed simp
    then show ?thesis using round_loop_unique [of n a j] that(2) j sz by (simp add: power_add)
  qed
  have big: "2 * 2 ^ a \<le> (0x40000000::nat)"
  proof -
    have "2 * 2 ^ a = (2::nat) ^ Suc a" by simp
    also have "\<dots> \<le> 2 ^ 30" using a by (intro power_increasing) auto
    finally show ?thesis by simp
  qed
  consider "n \<le> 2 ^ a" | "2 ^ a < n" "n \<le> 2 ^ Suc a" | "2 ^ Suc a < n" "n > 0x40000000" | "2 ^ Suc a < n" "n \<le> 0x40000000" "n > 0x20000000"
    | "2 ^ Suc a < n" "n \<le> 0x20000000" "n > 0x10000000" | "2 ^ Suc a < n" "n \<le> 0x10000000" by linarith
  then show ?thesis
  proof cases
    case 1
    have "round_loop n (szAtom m) 0 = (2 ^ a, 0)" using R [of a] 1 by simp
    then show ?thesis using 1 sz big by (simp add: memsys5Roundup_def)
  next
    case 2
    have "round_loop n (szAtom m) 0 = (2 ^ Suc a, 1)" using R [of "Suc a"] 2 by simp
    then show ?thesis using 2 sz big by (simp add: memsys5Roundup_def)
  next
    case 3
    then show ?thesis using sz by (simp add: memsys5Roundup_def)
  next
    case 4
    have "round_loop n (szAtom m) 0 = (2 ^ 30, 30 - a)" using R [of 30] a 4 by simp
    then show ?thesis using 4 sz by (simp add: memsys5Roundup_def)
  next
    case 5
    have "(2::nat) ^ Suc a < 2 ^ 29" using 5 by simp
    then have "Suc a < 29" by (rule power_less_imp_less_exp [rotated]) simp
    then have "round_loop n (szAtom m) 0 = (2 ^ 29, 29 - a)" using R [of 29] 5 by simp
    then show ?thesis using 5 sz by (simp add: memsys5Roundup_def)
  next
    case 6
    obtain i where i: "i \<ge> Suc a + 2" "roundup_loop n (2 ^ (Suc a + 2)) = 2 ^ i" "n \<le> 2 ^ i" "2 ^ (i - 2) < n"
      using roundup_loop_spec [OF 6(1)] by blast
    have eq: "szAtom m * 8 = 2 ^ (Suc a + 2)" using sz by (simp add: power_add)
    have half: "(2::nat) ^ i div 2 = 2 ^ (i - 1)" using i(1) by (cases i) auto
    have r: "memsys5Roundup m n = (if n \<le> 2 ^ (i - 1) then 2 ^ (i - 1) else 2 ^ i)"
    proof -
      have "\<not> n \<le> szAtom m * 2" using 6(1) sz by simp
      moreover have "roundup_loop n (szAtom m * 8) = 2 ^ i" unfolding eq by (rule i(2))
      ultimately show ?thesis using 6(2) half by (simp add: memsys5Roundup_def Let_def)
    qed
    show ?thesis
    proof (cases "n \<le> 2 ^ (i - 1)")
      case True
      then have "round_loop n (szAtom m) 0 = (2 ^ (i - 1), i - 1 - a)" using R [of "i - 1"] i by (simp add: numeral_2_eq_2)
      then show ?thesis using True r 6 by simp
    next
      case False
      then have "round_loop n (szAtom m) 0 = (2 ^ i, i - a)" using R [of i] i by simp
      then show ?thesis using False r 6 by simp
    qed
  qed
qed

theorem memsys5Roundup_malloc_witness:
  "memsys5Roundup mem5_demo2 100 = fst (round_loop 100 (szAtom mem5_demo2) 0)"
  using memsys5Roundup_malloc [of mem5_demo2 3 100] by (simp add: mem5_demo2_facts)

end
