(* ===== verification/WalFrame.thy ===== *)
theory WalFrame
  imports Varint
begin

text \<open>
  The frames of the write-ahead log and the header of its index (\<open>wal.c\<close>, \<open>wal.h\<close>): the checksum, writing
  and checking a frame header, writing and reading the index header. The machine is little-endian, so
  \<open>SQLITE_BIGENDIAN\<close> is 0 and a native word has its low byte first. The loops of the checksum count
  groups of bytes, which is what the loops of the source do for the positive multiples of eight that it asserts.
\<close>

unbundle bit_operations_syntax

section \<open>Checksums\<close>

definition SQLITE_BIGENDIAN :: u8 where "SQLITE_BIGENDIAN = 0"

definition native32 :: "mem \<Rightarrow> nat \<Rightarrow> u32" where
  "native32 m p = ucast (m p) + push_bit 8 (ucast (m (p + 1))) + push_bit 16 (ucast (m (p + 2))) + push_bit 24 (ucast (m (p + 3)))"

definition BYTESWAP32 :: "u32 \<Rightarrow> u32" where
  "BYTESWAP32 x = push_bit 24 (x AND 0x000000FF) + push_bit 8 (x AND 0x0000FF00)
     + drop_bit 8 (x AND 0x00FF0000) + drop_bit 24 (x AND 0xFF000000)"

fun cksum_loop :: "(u32 \<Rightarrow> u32) \<Rightarrow> mem \<Rightarrow> nat \<Rightarrow> nat \<Rightarrow> u32 \<times> u32 \<Rightarrow> u32 \<times> u32" where
  "cksum_loop f a p 0 s = s"
| "cksum_loop f a p (Suc n) (s1, s2) =
     (let s1 = s1 + (f (native32 a p) + s2); s2 = s2 + (f (native32 a (p + 4)) + s1)
      in cksum_loop f a (p + 8) n (s1, s2))"

text \<open>The loop that is unrolled eight times.\<close>

fun cksum_loop64 :: "mem \<Rightarrow> nat \<Rightarrow> nat \<Rightarrow> u32 \<times> u32 \<Rightarrow> u32 \<times> u32" where
  "cksum_loop64 a p 0 s = s"
| "cksum_loop64 a p (Suc n) (s1, s2) =
     (let s1 = s1 + (native32 a p + s2); s2 = s2 + (native32 a (p + 4) + s1);
          s1 = s1 + (native32 a (p + 8) + s2); s2 = s2 + (native32 a (p + 12) + s1);
          s1 = s1 + (native32 a (p + 16) + s2); s2 = s2 + (native32 a (p + 20) + s1);
          s1 = s1 + (native32 a (p + 24) + s2); s2 = s2 + (native32 a (p + 28) + s1);
          s1 = s1 + (native32 a (p + 32) + s2); s2 = s2 + (native32 a (p + 36) + s1);
          s1 = s1 + (native32 a (p + 40) + s2); s2 = s2 + (native32 a (p + 44) + s1);
          s1 = s1 + (native32 a (p + 48) + s2); s2 = s2 + (native32 a (p + 52) + s1);
          s1 = s1 + (native32 a (p + 56) + s2); s2 = s2 + (native32 a (p + 60) + s1)
      in cksum_loop64 a (p + 64) n (s1, s2))"

definition walChecksumBytes :: "bool \<Rightarrow> mem \<Rightarrow> nat \<Rightarrow> nat \<Rightarrow> (u32 \<times> u32) option \<Rightarrow> u32 \<times> u32" where
  "walChecksumBytes nativeCksum a p nByte aIn =
     (let s = (case aIn of Some s \<Rightarrow> s | None \<Rightarrow> (0, 0))
      in if \<not> nativeCksum then cksum_loop BYTESWAP32 a p (nByte div 8) s
         else if nByte mod 64 = 0 then cksum_loop64 a p (nByte div 64) s
         else cksum_loop (\<lambda>x. x) a p (nByte div 8) s)"

section \<open>Frame headers\<close>

text \<open>The index header; \<open>aSalt\<close> are the eight bytes of the salts.\<close>

record WalIndexHdr =
  iVersion :: u32
  unused :: u32
  iChange :: u32
  isInit :: u8
  bigEndCksum :: u8
  hdr_szPage :: u16
  mxFrame :: nat
  nPage :: u32
  aFrameCksum :: "u32 \<times> u32"
  aSalt :: "u8 list"
  aCksum :: "u32 \<times> u32"

definition WAL_FRAME_HDRSIZE :: nat where "WAL_FRAME_HDRSIZE = 24"
definition WAL_HDRSIZE :: nat where "WAL_HDRSIZE = 32"

definition walFrameOffset :: "nat \<Rightarrow> nat \<Rightarrow> nat" where
  "walFrameOffset iFrame szPage = WAL_HDRSIZE + (iFrame - 1) * (szPage + WAL_FRAME_HDRSIZE)"

definition walEncodeFrame :: "nat \<Rightarrow> nat \<Rightarrow> WalIndexHdr \<Rightarrow> u32 \<Rightarrow> u32 \<Rightarrow> mem \<Rightarrow> mem \<Rightarrow> mem \<times> WalIndexHdr" where
  "walEncodeFrame iReCksum szPage hdr iPage nTruncate aData aFrame =
     (let aFrame = sqlite3Put4byte aFrame 0 iPage;
          aFrame = sqlite3Put4byte aFrame 4 nTruncate
      in if iReCksum = 0 then
           let aFrame = mem_write aFrame 8 (aSalt hdr);
               nativeCksum = (bigEndCksum hdr = SQLITE_BIGENDIAN);
               c = walChecksumBytes nativeCksum aFrame 0 8 (Some (aFrameCksum hdr));
               c = walChecksumBytes nativeCksum aData 0 szPage (Some c);
               aFrame = sqlite3Put4byte aFrame 16 (fst c);
               aFrame = sqlite3Put4byte aFrame 20 (snd c)
           in (aFrame, hdr\<lparr>aFrameCksum := c\<rparr>)
         else (mem_write aFrame 8 (replicate 16 0), hdr))"

text \<open>The page number and the truncation size of a valid frame. The running checksum in the header
  has advanced also when it does not match.\<close>

definition walDecodeFrame :: "nat \<Rightarrow> WalIndexHdr \<Rightarrow> mem \<Rightarrow> mem \<Rightarrow> (u32 \<times> u32) option \<times> WalIndexHdr" where
  "walDecodeFrame szPage hdr aData aFrame =
     (if mem_read aFrame 8 8 \<noteq> aSalt hdr then (None, hdr)
      else if sqlite3Get4byte aFrame 0 = 0 then (None, hdr)
      else
        let nativeCksum = (bigEndCksum hdr = SQLITE_BIGENDIAN);
            c = walChecksumBytes nativeCksum aFrame 0 8 (Some (aFrameCksum hdr));
            c = walChecksumBytes nativeCksum aData 0 szPage (Some c);
            hdr = hdr\<lparr>aFrameCksum := c\<rparr>
        in if fst c \<noteq> sqlite3Get4byte aFrame 16 \<or> snd c \<noteq> sqlite3Get4byte aFrame 20 then (None, hdr)
           else (Some (sqlite3Get4byte aFrame 0, sqlite3Get4byte aFrame 4), hdr))"

section \<open>The header of the index\<close>

text \<open>The bytes of the structure in memory, without its checksum.\<close>

definition native_bytes4 :: "u32 \<Rightarrow> u8 list" where
  "native_bytes4 v = [ucast v, ucast (drop_bit 8 v), ucast (drop_bit 16 v), ucast (drop_bit 24 v)]"

definition hdr_bytes :: "WalIndexHdr \<Rightarrow> u8 list" where
  "hdr_bytes h = native_bytes4 (iVersion h) @ native_bytes4 (unused h) @ native_bytes4 (iChange h) @ [isInit h, bigEndCksum h] @
     [ucast (hdr_szPage h), ucast (drop_bit 8 (hdr_szPage h))] @ native_bytes4 (of_nat (mxFrame h)) @ native_bytes4 (nPage h) @
     native_bytes4 (fst (aFrameCksum h)) @ native_bytes4 (snd (aFrameCksum h)) @ aSalt h"

definition WALINDEX_MAX_VERSION :: u32 where "WALINDEX_MAX_VERSION = 3007000"

text \<open>The header that \<open>walIndexWriteHdr\<close> copies to both places in shared memory.\<close>

definition walIndexWriteHdr :: "WalIndexHdr \<Rightarrow> WalIndexHdr" where
  "walIndexWriteHdr hdr =
     (let hdr = hdr\<lparr>isInit := 1, iVersion := WALINDEX_MAX_VERSION\<rparr>
      in hdr\<lparr>aCksum := walChecksumBytes True (mem_write (\<lambda>_. 0) 0 (hdr_bytes hdr)) 0 40 None\<rparr>)"

text \<open>\<open>h1\<close> and \<open>h2\<close> are the two copies as they were read. The result is \<open>None\<close> for a read that cannot be used, otherwise
  whether the header has changed and the new header.\<close>

definition walIndexTryHdr :: "WalIndexHdr \<Rightarrow> WalIndexHdr \<Rightarrow> WalIndexHdr \<Rightarrow> (bool \<times> WalIndexHdr) option" where
  "walIndexTryHdr hdr h1 h2 =
     (if h1 \<noteq> h2 then None
      else if isInit h1 = 0 then None
      else if walChecksumBytes True (mem_write (\<lambda>_. 0) 0 (hdr_bytes h1)) 0 40 None \<noteq> aCksum h1 then None
      else if hdr \<noteq> h1 then Some (True, h1) else Some (False, hdr))"

section \<open>The checksum as a fold\<close>

definition word_at :: "bool \<Rightarrow> mem \<Rightarrow> nat \<Rightarrow> u32" where
  "word_at nativeCksum a p = (if nativeCksum then native32 a p else sqlite3Get4byte a p)"

lemma add4_or:
  fixes a b c d :: u32
  assumes "a AND b = 0" "(a OR b) AND c = 0" "((a OR b) OR c) AND d = 0"
  shows "a + b + c + d = ((a OR b) OR c) OR d"
  using assms by (simp add: disjunctive_add_eq_or)

lemma native32_or:
  "native32 m p = ((ucast (m p) OR push_bit 8 (ucast (m (p + 1)))) OR push_bit 16 (ucast (m (p + 2)))) OR push_bit 24 (ucast (m (p + 3)))"
  unfolding native32_def by (rule add4_or; rule u32_eqI; simp add: word_bits)

lemma BYTESWAP32_or:
  "BYTESWAP32 x = ((push_bit 24 (x AND 0x000000FF) OR push_bit 8 (x AND 0x0000FF00)) OR
     drop_bit 8 (x AND 0x00FF0000)) OR drop_bit 24 (x AND 0xFF000000)"
  unfolding BYTESWAP32_def by (rule add4_or; rule u32_eqI; simp add: word_bits)

lemma BYTESWAP32_native32: "BYTESWAP32 (native32 a p) = sqlite3Get4byte a p"
  unfolding BYTESWAP32_or native32_or sqlite3Get4byte_def by (rule u32_eqI) (simp add: word_bits)

lemma cksum_loop64_eq: "cksum_loop64 a p n s = cksum_loop (\<lambda>x. x) a p (8 * n) s"
proof (induction n arbitrary: p s)
  case (Suc n)
  obtain s1 s2 where s: "s = (s1, s2)" by (cases s)
  have e: "8 * Suc n = Suc (Suc (Suc (Suc (Suc (Suc (Suc (Suc (8 * n))))))))" by simp
  have p: "p + 8 + 4 = p + 12" "p + 8 + 8 = p + 16" "p + 16 + 4 = p + 20" "p + 16 + 8 = p + 24" "p + 24 + 4 = p + 28" "p + 24 + 8 = p + 32" "p + 32 + 4 = p + 36" "p + 32 + 8 = p + 40" "p + 40 + 4 = p + 44" "p + 40 + 8 = p + 48" "p + 48 + 4 = p + 52" "p + 48 + 8 = p + 56" "p + 56 + 4 = p + 60" "p + 56 + 8 = p + 64"
    by simp_all
  show ?case unfolding s e by (simp only: cksum_loop64.simps cksum_loop.simps Let_def p Suc.IH)
qed simp

text \<open>One step, and the pair of words it adds.\<close>

definition cksum_step :: "u32 \<times> u32 \<Rightarrow> u32 \<times> u32 \<Rightarrow> u32 \<times> u32" where
  "cksum_step s w = (let s1 = fst s + fst w + snd s in (s1, snd s + snd w + s1))"

definition pairs_at :: "bool \<Rightarrow> mem \<Rightarrow> nat \<Rightarrow> nat \<Rightarrow> (u32 \<times> u32) list" where
  "pairs_at nativeCksum a p n = map (\<lambda>i. (word_at nativeCksum a (p + 8 * i), word_at nativeCksum a (p + 8 * i + 4))) [0..<n]"

lemma pairs_at_Suc: "pairs_at b a p (Suc n) = (word_at b a p, word_at b a (p + 4)) # pairs_at b a (p + 8) n"
  by (simp add: pairs_at_def upt_conv_Cons map_Suc_upt [symmetric] add.assoc del: upt_Suc)

lemma cksum_loop_fold:
  assumes "\<And>q. f (native32 a q) = word_at b a q"
  shows "cksum_loop f a p n s = foldl cksum_step s (pairs_at b a p n)"
proof (induction n arbitrary: p s)
  case 0
  show ?case by (simp add: pairs_at_def)
next
  case (Suc n)
  then show ?case using assms by (cases s) (simp add: pairs_at_Suc cksum_step_def Let_def add.assoc)
qed

text \<open>Both byte orders and both loops compute the same fold over pairs of words.\<close>

lemma walChecksumBytes_fold:
  "walChecksumBytes b a p nByte aIn = foldl cksum_step (case aIn of Some s \<Rightarrow> s | None \<Rightarrow> (0, 0)) (pairs_at b a p (nByte div 8))"
proof -
  have sw: "cksum_loop BYTESWAP32 a p n s = foldl cksum_step s (pairs_at False a p n)" for n s
    by (rule cksum_loop_fold) (simp add: word_at_def BYTESWAP32_native32)
  have na: "cksum_loop (\<lambda>x. x) a p n s = foldl cksum_step s (pairs_at True a p n)" for n s
    by (rule cksum_loop_fold) (simp add: word_at_def)
  have "8 * (nByte div 64) = nByte div 8" if h: "nByte mod 64 = 0"
  proof -
    obtain k where "nByte = 64 * k" using mod_0_imp_dvd [OF h] by (auto elim: dvdE)
    then show ?thesis by simp
  qed
  then show ?thesis by (cases b) (simp_all add: walChecksumBytes_def Let_def sw na cksum_loop64_eq)
qed

lemma hdr_bytes_aCksum [simp]: "hdr_bytes (h\<lparr>aCksum := c\<rparr>) = hdr_bytes h"
  by (simp add: hdr_bytes_def)

text \<open>A header that was written is accepted when both copies are read unchanged.\<close>

lemma walIndexTryHdr_written:
  "walIndexTryHdr hdr (walIndexWriteHdr h) (walIndexWriteHdr h) = Some (hdr \<noteq> walIndexWriteHdr h, walIndexWriteHdr h)"
  by (simp add: walIndexTryHdr_def walIndexWriteHdr_def Let_def)

section \<open>Detection of changes\<close>

lemma cksum_step_inj:
  "cksum_step s w = cksum_step s' w \<longleftrightarrow> s = s'" "cksum_step s w = cksum_step s w' \<longleftrightarrow> w = w'"
proof -
  show "cksum_step s w = cksum_step s' w \<longleftrightarrow> s = s'"
  proof
    assume e: "cksum_step s w = cksum_step s' w"
    then have f: "fst s + fst w + snd s = fst s' + fst w + snd s'" by (simp add: cksum_step_def Let_def)
    have "snd s + snd w + (fst s + fst w + snd s) = snd s' + snd w + (fst s' + fst w + snd s')"
      using e by (simp add: cksum_step_def Let_def)
    then have g: "snd s = snd s'" unfolding f by (simp only: add_right_cancel)
    then have "fst s = fst s'" using f by simp
    then show "s = s'" using g by (simp add: prod_eq_iff)
  qed simp
  show "cksum_step s w = cksum_step s w' \<longleftrightarrow> w = w'"
  proof
    assume e: "cksum_step s w = cksum_step s w'"
    then have f: "fst w = fst w'" by (simp add: cksum_step_def Let_def)
    then have "snd w = snd w'" using e by (simp add: cksum_step_def Let_def)
    then show "w = w'" using f by (simp add: prod_eq_iff)
  qed simp
qed

lemma foldl_cksum_inj: "foldl cksum_step s ws = foldl cksum_step s' ws \<longleftrightarrow> s = s'"
  by (induction ws arbitrary: s s') (simp_all add: cksum_step_inj)

lemma foldl_cksum_change: "w \<noteq> w' \<Longrightarrow> foldl cksum_step s (xs @ w # ys) \<noteq> foldl cksum_step s (xs @ w' # ys)"
  by (simp add: foldl_cksum_inj cksum_step_inj)

lemma Get4byte_bytes: "sqlite3Get4byte m p = sqlite3Get4byte m' p \<longleftrightarrow> (\<forall>i<4. m (p + i) = m' (p + i))"
proof -
  have "sqlite3Get4byte m p = sqlite3Get4byte m' p \<longleftrightarrow> mem_read m p 4 = mem_read m' p 4"
    using bytes4_Get4byte sqlite3Get4byte_bytes4 by metis
  then show ?thesis by (simp add: list_eq_iff_nth_eq)
qed

lemma word_at_bytes: "word_at b m p = word_at b m' p \<longleftrightarrow> (\<forall>i<4. m (p + i) = m' (p + i))"
proof (cases b)
  case False
  then show ?thesis by (simp add: word_at_def Get4byte_bytes)
next
  case True
  have "native32 m p = native32 m' p" if "\<forall>i<4. m (p + i) = m' (p + i)"
    using that spec [OF that, of 0] spec [OF that, of 1] spec [OF that, of 2] spec [OF that, of 3] by (simp add: native32_def)
  moreover have "\<forall>i<4. m (p + i) = m' (p + i)" if "native32 m p = native32 m' p"
    using arg_cong [OF that, of BYTESWAP32] by (simp add: BYTESWAP32_native32 Get4byte_bytes)
  ultimately show ?thesis using True by (auto simp: word_at_def)
qed

text \<open>The bytes \<open>q\<close> to \<open>q + 7\<close>.\<close>

definition pair_at :: "bool \<Rightarrow> mem \<Rightarrow> nat \<Rightarrow> u32 \<times> u32" where
  "pair_at b m q = (word_at b m q, word_at b m (q + 4))"

lemma pair_at_bytes: "pair_at b m q = pair_at b m' q \<longleftrightarrow> (\<forall>i<8. m (q + i) = m' (q + i))"
proof
  assume "pair_at b m q = pair_at b m' q"
  then have h: "\<forall>i<4. m (q + i) = m' (q + i)" "\<forall>i<4. m (q + 4 + i) = m' (q + 4 + i)"
    by (simp_all add: pair_at_def word_at_bytes)
  show "\<forall>i<8. m (q + i) = m' (q + i)"
  proof (intro allI impI)
    fix i :: nat assume "i < 8"
    then show "m (q + i) = m' (q + i)" using h(1) h(2) [rule_format, of "i - 4"] by (cases "i < 4") auto
  qed
next
  assume "\<forall>i<8. m (q + i) = m' (q + i)"
  then show "pair_at b m q = pair_at b m' q" by (simp add: pair_at_def word_at_bytes add.assoc)
qed

text \<open>The groups of eight bytes of a frame that go into the checksum: the first of the header, and those of the page.\<close>

definition frame_pairs :: "bool \<Rightarrow> nat \<Rightarrow> mem \<Rightarrow> mem \<Rightarrow> (u32 \<times> u32) list" where
  "frame_pairs b szPage aFrame aData = pair_at b aFrame 0 # map (\<lambda>j. pair_at b aData (8 * j)) [0..<szPage div 8]"

lemma frame_cksum:
  "walChecksumBytes b aData 0 szPage (Some (walChecksumBytes b aFrame 0 8 (Some c))) = foldl cksum_step c (frame_pairs b szPage aFrame aData)"
  by (simp add: walChecksumBytes_fold pairs_at_def frame_pairs_def pair_at_def)

lemma walDecodeFrame_iff:
  "fst (walDecodeFrame szPage hdr aData aFrame) = Some r \<longleftrightarrow>
     mem_read aFrame 8 8 = aSalt hdr \<and> sqlite3Get4byte aFrame 0 \<noteq> 0 \<and>
     foldl cksum_step (aFrameCksum hdr) (frame_pairs (bigEndCksum hdr = SQLITE_BIGENDIAN) szPage aFrame aData) =
       (sqlite3Get4byte aFrame 16, sqlite3Get4byte aFrame 20) \<and>
     r = (sqlite3Get4byte aFrame 0, sqlite3Get4byte aFrame 4)"
  by (auto simp: walDecodeFrame_def Let_def frame_cksum prod_eq_iff)

text \<open>A frame with its page behind the header, as the recovery reads it.\<close>

definition whole_pairs :: "bool \<Rightarrow> nat \<Rightarrow> mem \<Rightarrow> (u32 \<times> u32) list" where
  "whole_pairs b szPage buf = frame_pairs b szPage buf (\<lambda>i. buf (24 + i))"

lemma whole_pairs_eq:
  "whole_pairs b szPage buf = pair_at b buf 0 # map (\<lambda>j. pair_at b buf (8 * (3 + j))) [0..<szPage div 8]"
proof -
  have "pair_at b (\<lambda>i. buf (24 + i)) (8 * j) = pair_at b buf (8 * (3 + j))" for j
    by (simp add: pair_at_def word_at_def native32_def sqlite3Get4byte_def add.assoc)
  then show ?thesis by (simp add: whole_pairs_def frame_pairs_def)
qed

lemma whole_cksum_change:
  assumes g: "g < 3 + n" "g \<noteq> 1" "g \<noteq> 2" "n = szPage div 8" and ne: "pair_at b buf' (8 * g) \<noteq> pair_at b buf (8 * g)"
    and eq: "\<And>h. h < 3 + n \<Longrightarrow> h \<noteq> g \<Longrightarrow> pair_at b buf' (8 * h) = pair_at b buf (8 * h)"
  shows "foldl cksum_step c (whole_pairs b szPage buf') \<noteq> foldl cksum_step c (whole_pairs b szPage buf)"
proof (cases "g = 0")
  case True
  let ?xs = "map (\<lambda>j. pair_at b buf (8 * (3 + j))) [0..<n]"
  have "whole_pairs b szPage buf' = pair_at b buf' 0 # ?xs" "whole_pairs b szPage buf = pair_at b buf 0 # ?xs"
    using eq [of "3 + _"] True g(4) by (simp_all add: whole_pairs_eq)
  then show ?thesis using foldl_cksum_change [of "pair_at b buf' 0" "pair_at b buf 0" c "[]" ?xs] ne True by simp
next
  case False
  let ?j = "g - 3"
  let ?p = "\<lambda>m j. pair_at b m (8 * (3 + j))"
  have g3: "3 \<le> g" "?j < n" using False g by auto
  have split: "[0..<szPage div 8] = [0..<?j] @ ?j # [Suc ?j..<n]"
    using g3(2) upt_add_eq_append [of 0 ?j "n - ?j"] upt_conv_Cons [OF g3(2)] g(4) by simp
  have eqp: "?p buf' j = ?p buf j" if "j < n" "j \<noteq> ?j" for j using eq [of "3 + j"] that g3 by simp
  have "whole_pairs b szPage buf' = (pair_at b buf 0 # map (?p buf) [0..<?j]) @ ?p buf' ?j # map (?p buf) [Suc ?j..<n]"
    unfolding whole_pairs_eq split using eq [of 0] False eqp g3(2) by simp
  moreover have "whole_pairs b szPage buf = (pair_at b buf 0 # map (?p buf) [0..<?j]) @ ?p buf ?j # map (?p buf) [Suc ?j..<n]"
    unfolding whole_pairs_eq split by simp
  moreover have "?p buf' ?j \<noteq> ?p buf ?j" using ne g3(1) by simp
  ultimately show ?thesis using foldl_cksum_change by metis
qed

section \<open>Properties\<close>

text \<open>C4. Every damage to a valid frame of the log that stays within one aligned group of eight bytes, of
  its header or of its page, is detected: the frame that was accepted is rejected after the change. The
  running checksum loses no difference of a single group, in either byte order and whatever was before it in the log.\<close>

theorem walDecodeFrame_detects:
  assumes valid: "fst (walDecodeFrame szPage hdr (\<lambda>i. buf (24 + i)) buf) = Some r"
    and g: "g < 3 + szPage div 8" "\<exists>i<8. buf' (8 * g + i) \<noteq> buf (8 * g + i)"
    and other: "\<forall>h i. h < 3 + szPage div 8 \<and> h \<noteq> g \<and> i < 8 \<longrightarrow> buf' (8 * h + i) = buf (8 * h + i)"
  shows "fst (walDecodeFrame szPage hdr (\<lambda>i. buf' (24 + i)) buf') = None"
proof (rule ccontr)
  assume "fst (walDecodeFrame szPage hdr (\<lambda>i. buf' (24 + i)) buf') \<noteq> None"
  then obtain r' where v': "fst (walDecodeFrame szPage hdr (\<lambda>i. buf' (24 + i)) buf') = Some r'" by blast
  let ?b = "bigEndCksum hdr = SQLITE_BIGENDIAN"
  note d = valid [unfolded walDecodeFrame_iff, folded whole_pairs_def] and d' = v' [unfolded walDecodeFrame_iff, folded whole_pairs_def]
  have grp: "pair_at c buf' (8 * h) = pair_at c buf (8 * h)" if "h < 3 + szPage div 8" "h \<noteq> g" for c h
    using other that by (simp add: pair_at_bytes)
  have ne: "pair_at c buf' (8 * g) \<noteq> pair_at c buf (8 * g)" for c using g(2) by (simp add: pair_at_bytes)
  have pair2: "pair_at False m 16 = (sqlite3Get4byte m 16, sqlite3Get4byte m 20)" for m by (simp add: pair_at_def word_at_def)
  have "mem_read buf' 8 8 \<noteq> mem_read buf 8 8" if "g = 1" using g(2) that by (simp add: list_eq_iff_nth_eq)
  then have g1: "g \<noteq> 1" using d d' by auto
  have g2: "g \<noteq> 2"
  proof
    assume g2: "g = 2"
    then have "whole_pairs ?b szPage buf' = whole_pairs ?b szPage buf"
      using grp [of 0 ?b] grp [of "3 + _" ?b] by (simp add: whole_pairs_eq)
    then have "pair_at False buf' 16 = pair_at False buf 16" using d d' by (simp add: pair2)
    then show False using ne [of False] g2 by simp
  qed
  have "pair_at False buf' 16 = pair_at False buf 16" using grp [of 2 False] g2 by simp
  then show False using d d' whole_cksum_change [OF g(1) g1 g2 refl ne [of ?b] grp [where c = ?b], of "aFrameCksum hdr"] by (simp add: pair2)
qed

definition demo_hdr :: WalIndexHdr where
  "demo_hdr = \<lparr>iVersion = 0, unused = 0, iChange = 0, isInit = 1, bigEndCksum = 0, hdr_szPage = 0, mxFrame = 0, nPage = 0,
     aFrameCksum = (0, 0), aSalt = [11, 12, 13, 14, 15, 16, 17, 18], aCksum = (0, 0)\<rparr>"

definition demo_frame :: mem where
  "demo_frame i = (if i < 32 then [0, 0, 0, 7, 0, 0, 0, 9, 11, 12, 13, 14, 15, 16, 17, 18, 27, 3, 2, 1, 51, 10, 8, 6, 1, 2, 3, 4, 5, 6, 7, 8] ! i else 0)"

theorem walDecodeFrame_detects_witness:
  "fst (walDecodeFrame 8 demo_hdr (\<lambda>i. demo_frame (24 + i)) demo_frame) = Some (7, 9) \<and>
   fst (walDecodeFrame 8 demo_hdr (\<lambda>i. (demo_frame(30 := 9)) (24 + i)) (demo_frame(30 := 9))) = None"
proof -
  have v: "fst (walDecodeFrame 8 demo_hdr (\<lambda>i. demo_frame (24 + i)) demo_frame) = Some (7, 9)" by code_simp
  have "\<exists>i<8. (demo_frame(30 := 9)) (8 * 3 + i) \<noteq> demo_frame (8 * 3 + i)"
    by (intro exI [of _ 6]) (simp add: demo_frame_def)
  then have "fst (walDecodeFrame 8 demo_hdr (\<lambda>i. (demo_frame(30 := 9)) (24 + i)) (demo_frame(30 := 9))) = None"
    by (intro walDecodeFrame_detects [OF v, of 3]) auto
  then show ?thesis using v by blast
qed

lemma mem_read_apart: "p + n \<le> q \<or> q + length bs \<le> p \<Longrightarrow> mem_read (mem_write m q bs) p n = mem_read m p n"
  by (auto simp: list_eq_iff_nth_eq)

text \<open>A frame written while checksums are computed, which is always unless the log is being rewritten.\<close>

lemma encode_checked:
  assumes "length (aSalt hdr) = 8"
  obtains f' c where "walEncodeFrame 0 szPage hdr iPage nTruncate aData fr = (f', hdr\<lparr>aFrameCksum := c\<rparr>)"
    "mem_read f' 0 4 = bytes4 iPage" "mem_read f' 4 4 = bytes4 nTruncate" "\<forall>i\<ge>24. f' i = fr i"
    "walDecodeFrame szPage hdr aData f' = (if iPage = 0 then (None, hdr) else (Some (iPage, nTruncate), hdr\<lparr>aFrameCksum := c\<rparr>))"
proof -
  let ?b = "bigEndCksum hdr = SQLITE_BIGENDIAN"
  let ?f = "mem_write (mem_write (mem_write fr 0 (bytes4 iPage)) 4 (bytes4 nTruncate)) 8 (aSalt hdr)"
  let ?c = "foldl cksum_step (aFrameCksum hdr) (frame_pairs ?b szPage ?f aData)"
  let ?f' = "mem_write (mem_write ?f 16 (bytes4 (fst ?c))) 20 (bytes4 (snd ?c))"
  have e: "walEncodeFrame 0 szPage hdr iPage nTruncate aData fr = (?f', hdr\<lparr>aFrameCksum := ?c\<rparr>)"
    by (simp add: walEncodeFrame_def Let_def sqlite3Put4byte_eq frame_cksum)
  have r: "mem_read ?f' 0 4 = bytes4 iPage" "mem_read ?f' 4 4 = bytes4 nTruncate" "mem_read ?f' 8 8 = aSalt hdr"
    "mem_read ?f' 16 4 = bytes4 (fst ?c)" "mem_read ?f' 20 4 = bytes4 (snd ?c)" "mem_read ?f' 0 8 = mem_read ?f 0 8"
    using assms mem_read_write [of _ _ "aSalt hdr"] mem_read_write [of _ _ "bytes4 _"] by (simp_all add: mem_read_apart)
  have "pair_at ?b ?f' 0 = pair_at ?b ?f 0" using r(6) by (simp add: pair_at_bytes list_eq_iff_nth_eq)
  then have p: "frame_pairs ?b szPage ?f' aData = frame_pairs ?b szPage ?f aData" by (simp add: frame_pairs_def)
  have d: "walDecodeFrame szPage hdr aData ?f' = (if iPage = 0 then (None, hdr) else (Some (iPage, nTruncate), hdr\<lparr>aFrameCksum := ?c\<rparr>))"
    using r by (simp add: walDecodeFrame_def Let_def frame_cksum p sqlite3Get4byte_bytes4)
  have "\<forall>i\<ge>24. ?f' i = fr i" using assms by simp
  then show ?thesis using that [OF e r(1,2) _ d] by blast
qed

text \<open>A frame written while the checksums are deferred to a later rewrite (\<open>iReCksum\<close> is set).\<close>

lemma encode_deferred:
  assumes "iReCksum \<noteq> 0" "walEncodeFrame iReCksum szPage hdr iPage nTruncate aData fr = (f', hdr')"
  shows "hdr' = hdr" "mem_read f' 0 4 = bytes4 iPage" "mem_read f' 4 4 = bytes4 nTruncate" "mem_read f' 8 16 = replicate 16 0"
    "\<forall>i\<ge>24. f' i = fr i"
proof -
  have e: "f' = mem_write (mem_write (mem_write fr 0 (bytes4 iPage)) 4 (bytes4 nTruncate)) 8 (replicate 16 0)" "hdr' = hdr"
    using assms by (auto simp: walEncodeFrame_def Let_def sqlite3Put4byte_eq)
  show "hdr' = hdr" by (rule e(2))
  show "mem_read f' 0 4 = bytes4 iPage" "mem_read f' 4 4 = bytes4 nTruncate" "mem_read f' 8 16 = replicate 16 0"
    using mem_read_write [of _ _ "replicate 16 (0::u8)"] mem_read_write [of _ _ "bytes4 _"] unfolding e(1) by (simp_all add: mem_read_apart)
  show "\<forall>i\<ge>24. f' i = fr i" unfolding e(1) by simp
qed

lemma decode_deferred:
  assumes "mem_read f' 8 16 = replicate 16 0" "aSalt hdr \<noteq> replicate 8 0"
  shows "walDecodeFrame szPage hdr aData f' = (None, hdr)"
proof -
  have "mem_read f' 8 8 = take 8 (mem_read f' 8 16)" by (simp add: list_eq_iff_nth_eq)
  then have "mem_read f' 8 8 = replicate 8 0" using assms(1) by simp
  then show ?thesis using assms(2) by (simp add: walDecodeFrame_def)
qed

text \<open>C28. The frame header that \<open>walEncodeFrame\<close> writes holds the page number and the commit size, and nothing behind
  its 24 bytes is touched. While the checksums are not deferred (\<open>iReCksum\<close> is 0), \<open>walDecodeFrame\<close> accepts the frame
  of every page but page 0, gives back the page number and the commit size, and leaves the same running checksum as the
  writer, so a whole log is read back frame by frame. While they are deferred the salt and checksum fields are zero, the
  running checksum stays, and the frame is rejected under every salt but the zero one until it is encoded again.\<close>

theorem walFrame_roundtrip:
  assumes "length (aSalt hdr) = 8"
  shows "case walEncodeFrame iReCksum szPage hdr iPage nTruncate aData fr of (fr', hdr') \<Rightarrow>
    sqlite3Get4byte fr' 0 = iPage \<and> sqlite3Get4byte fr' 4 = nTruncate \<and> (\<forall>i\<ge>24. fr' i = fr i) \<and>
    (if iReCksum = 0
     then walDecodeFrame szPage hdr aData fr' = (if iPage = 0 then (None, hdr) else (Some (iPage, nTruncate), hdr'))
     else hdr' = hdr \<and> mem_read fr' 8 16 = replicate 16 0 \<and>
       (aSalt hdr \<noteq> replicate 8 0 \<longrightarrow> walDecodeFrame szPage hdr aData fr' = (None, hdr)))"
proof (cases "iReCksum = 0")
  case True
  obtain f' c where "walEncodeFrame 0 szPage hdr iPage nTruncate aData fr = (f', hdr\<lparr>aFrameCksum := c\<rparr>)"
    "mem_read f' 0 4 = bytes4 iPage" "mem_read f' 4 4 = bytes4 nTruncate" "\<forall>i\<ge>24. f' i = fr i"
    "walDecodeFrame szPage hdr aData f' = (if iPage = 0 then (None, hdr) else (Some (iPage, nTruncate), hdr\<lparr>aFrameCksum := c\<rparr>))"
    by (rule encode_checked [OF assms])
  then show ?thesis using True by (simp add: sqlite3Get4byte_bytes4)
next
  case False
  obtain f' hdr' where e: "walEncodeFrame iReCksum szPage hdr iPage nTruncate aData fr = (f', hdr')" by fastforce
  show ?thesis using encode_deferred [OF False e] decode_deferred [of f' hdr szPage aData] False e by (simp add: sqlite3Get4byte_bytes4)
qed

theorem walFrame_roundtrip_witness:
  "(case walEncodeFrame 0 512 demo_hdr 7 9 (\<lambda>i. of_nat i) (\<lambda>_. 0) of (fr', hdr') \<Rightarrow>
     walDecodeFrame 512 demo_hdr (\<lambda>i. of_nat i) fr' = (Some (7, 9), hdr')) \<and>
   walDecodeFrame 512 (demo_hdr\<lparr>aSalt := [1, 2, 3, 4, 5, 6, 7, 8]\<rparr>) (\<lambda>i. of_nat i)
     (fst (walEncodeFrame 3 512 (demo_hdr\<lparr>aSalt := [1, 2, 3, 4, 5, 6, 7, 8]\<rparr>) 7 9 (\<lambda>i. of_nat i) (\<lambda>_. 0))) =
     (None, demo_hdr\<lparr>aSalt := [1, 2, 3, 4, 5, 6, 7, 8]\<rparr>)"
proof -
  define h where "h = demo_hdr\<lparr>aSalt := [1, 2, 3, 4, 5, 6, 7, 8]\<rparr>"
  have l: "length (aSalt demo_hdr) = 8" "length (aSalt h) = 8" "aSalt h \<noteq> replicate 8 0"
    by (simp_all add: demo_hdr_def h_def numeral_eq_Suc)
  show ?thesis
    using walFrame_roundtrip [OF l(1), where iReCksum = 0 and szPage = 512 and iPage = 7 and nTruncate = 9 and aData = "\<lambda>i. of_nat i" and fr = "\<lambda>_. 0"]
      walFrame_roundtrip [OF l(2), where iReCksum = 3 and szPage = 512 and iPage = 7 and nTruncate = 9 and aData = "\<lambda>i. of_nat i" and fr = "\<lambda>_. 0"] l(3)
    unfolding h_def [symmetric] by (simp add: case_prod_beta)
qed

end
