(* ===== verification/WalIndex.thy ===== *)
theory WalIndex
  imports WalFrame
begin

text \<open>
  The hash tables of the index of the write-ahead log (\<open>wal.c\<close>): one table for each 4096 frames, with the page
  numbers of the frames and open addressing by page number. The pages of the index are in
  shared memory; whether page \<open>h\<close> can be mapped is the parameter \<open>xmap h\<close>, the result code of
  \<open>walIndexPage\<close>. Frame numbers are natural numbers, so a log of more than \<open>2 ^ 32\<close> frames is outside of the model;
  page numbers are 32-bit words. Of the end of \<open>walFrames\<close> the count of frames for the log hook (\<open>iCallback\<close>, \<open>pnFrames\<close>) is left out.
\<close>

section \<open>Geometry\<close>

definition WALINDEX_HDR_SIZE :: nat where "WALINDEX_HDR_SIZE = 136"
definition HASHTABLE_NPAGE :: nat where "HASHTABLE_NPAGE = 4096"
definition HASHTABLE_HASH_1 :: u32 where "HASHTABLE_HASH_1 = 383"
definition HASHTABLE_NSLOT :: nat where "HASHTABLE_NSLOT = HASHTABLE_NPAGE * 2"
definition HASHTABLE_NPAGE_ONE :: nat where "HASHTABLE_NPAGE_ONE = HASHTABLE_NPAGE - WALINDEX_HDR_SIZE div 4"

definition walHash :: "u32 \<Rightarrow> nat" where
  "walHash iPage = unat ((iPage * HASHTABLE_HASH_1) AND of_nat (HASHTABLE_NSLOT - 1))"

definition walNextHash :: "nat \<Rightarrow> nat" where
  "walNextHash iPriorHash = (iPriorHash + 1) AND (HASHTABLE_NSLOT - 1)"

definition walFramePage :: "nat \<Rightarrow> nat" where
  "walFramePage iFrame = (iFrame + HASHTABLE_NPAGE - HASHTABLE_NPAGE_ONE - 1) div HASHTABLE_NPAGE"

record wal_page =
  aPgno :: "u32 list"
  aHash :: "u16 list"

text \<open>A connection to the log: its copy of the index header, the header and the pages in shared memory.\<close>

record Wal =
  hdr :: WalIndexHdr
  shm_hdr :: WalIndexHdr
  apWiData :: "nat \<Rightarrow> wal_page"
  minFrame :: nat
  readLock :: int
  bShmUnreliable :: bool
  writeLock :: bool
  nCkpt :: u32
  nBackfill :: nat
  nBackfillAttempted :: nat
  aReadMark :: "nat list"

text \<open>The location of table \<open>iHash\<close>: its page, and one less than the number of its first frame.\<close>

definition iZero :: "nat \<Rightarrow> nat" where
  "iZero iHash = (if iHash = 0 then 0 else HASHTABLE_NPAGE_ONE + (iHash - 1) * HASHTABLE_NPAGE)"

definition walHashGet :: "(nat \<Rightarrow> nat) \<Rightarrow> Wal \<Rightarrow> nat \<Rightarrow> nat \<times> wal_page \<times> nat" where
  "walHashGet xmap pWal iHash = (xmap iHash, apWiData pWal iHash, iZero iHash)"

definition walFramePgno :: "(nat \<Rightarrow> nat) \<Rightarrow> Wal \<Rightarrow> nat \<Rightarrow> u32" where
  "walFramePgno xmap pWal iFrame =
     (let iHash = walFramePage iFrame
      in if iHash = 0 then aPgno (apWiData pWal 0) ! (iFrame - 1)
         else if xmap iHash \<noteq> SQLITE_OK then 0
         else aPgno (apWiData pWal iHash) ! ((iFrame - 1 - HASHTABLE_NPAGE_ONE) mod HASHTABLE_NPAGE))"

section \<open>Operations\<close>

definition set_page :: "Wal \<Rightarrow> nat \<Rightarrow> wal_page \<Rightarrow> Wal" where
  "set_page pWal h pg = pWal\<lparr>apWiData := (apWiData pWal)(h := pg)\<rparr>"

definition walCleanupHash :: "(nat \<Rightarrow> nat) \<Rightarrow> Wal \<Rightarrow> Wal" where
  "walCleanupHash xmap pWal =
     (if mxFrame (hdr pWal) = 0 then pWal
      else
        let h = walFramePage (mxFrame (hdr pWal));
            (rc, pg, z) = walHashGet xmap pWal h
        in if rc \<noteq> SQLITE_OK then pWal
           else
             let iLimit = mxFrame (hdr pWal) - z
             in set_page pWal h
                  \<lparr>aPgno = take iLimit (aPgno pg) @ replicate (length (aPgno pg) - iLimit) 0,
                   aHash = map (\<lambda>v. if unat v > iLimit then 0 else v) (aHash pg)\<rparr>)"

text \<open>The first free slot from \<open>iKey\<close> on, \<open>None\<close> after too many collisions.\<close>

fun find_slot :: "u16 list \<Rightarrow> nat \<Rightarrow> nat \<Rightarrow> nat option" where
  "find_slot ah iKey nCollide =
     (if ah ! iKey = 0 then Some iKey
      else if nCollide = 0 then None
      else find_slot ah (walNextHash iKey) (nCollide - 1))"

declare find_slot.simps [simp del]

text \<open>A new table is zeroed, and what a writer left behind the last frame is removed.\<close>

definition prepare_table :: "(nat \<Rightarrow> nat) \<Rightarrow> Wal \<Rightarrow> nat \<Rightarrow> nat \<Rightarrow> Wal" where
  "prepare_table xmap pWal h idx =
     (let pg = apWiData pWal h;
          pWal = (if idx = 1
                  then set_page pWal h \<lparr>aPgno = map (\<lambda>_. 0) (aPgno pg), aHash = map (\<lambda>_. 0) (aHash pg)\<rparr>
                  else pWal)
      in if aPgno (apWiData pWal h) ! (idx - 1) \<noteq> 0 then walCleanupHash xmap pWal else pWal)"

definition walIndexAppend :: "(nat \<Rightarrow> nat) \<Rightarrow> Wal \<Rightarrow> nat \<Rightarrow> u32 \<Rightarrow> nat \<times> Wal" where
  "walIndexAppend xmap pWal iFrame iPage =
     (let h = walFramePage iFrame;
          (rc, pg, z) = walHashGet xmap pWal h
      in if rc \<noteq> SQLITE_OK then (rc, pWal)
         else
           let idx = iFrame - z;
               pWal = prepare_table xmap pWal h idx;
               pg = apWiData pWal h
           in case find_slot (aHash pg) (walHash iPage) idx of
                None \<Rightarrow> (SQLITE_CORRUPT, pWal)
              | Some iKey \<Rightarrow>
                  (SQLITE_OK, set_page pWal h \<lparr>aPgno = (aPgno pg)[idx - 1 := iPage], aHash = (aHash pg)[iKey := of_nat idx]\<rparr>))"

text \<open>The search of one table, \<open>None\<close> after too many collisions.\<close>

fun scan_hash :: "wal_page \<Rightarrow> nat \<Rightarrow> nat \<Rightarrow> nat \<Rightarrow> u32 \<Rightarrow> nat \<Rightarrow> nat \<Rightarrow> nat \<Rightarrow> nat option" where
  "scan_hash pg z minF iLast pgno iKey nCollide iRead =
     (let iH = unat (aHash pg ! iKey)
      in if iH = 0 then Some iRead
         else
           let iFrame = iH + z;
               iRead = (if iFrame \<le> iLast \<and> iFrame \<ge> minF \<and> aPgno pg ! (iH - 1) = pgno then iFrame else iRead)
           in if nCollide = 0 then None
              else scan_hash pg z minF iLast pgno (walNextHash iKey) (nCollide - 1) iRead)"

declare scan_hash.simps [simp del]

text \<open>The tables \<open>iMinHash\<close> to \<open>iMinHash + n - 1\<close>, from the last one down.\<close>

primrec find_tables :: "(nat \<Rightarrow> nat) \<Rightarrow> Wal \<Rightarrow> u32 \<Rightarrow> nat \<Rightarrow> nat \<Rightarrow> nat \<Rightarrow> nat \<times> nat" where
  "find_tables xmap pWal pgno iLast iMinHash 0 = (SQLITE_OK, 0)"
| "find_tables xmap pWal pgno iLast iMinHash (Suc n) =
     (let (rc, pg, z) = walHashGet xmap pWal (iMinHash + n)
      in if rc \<noteq> SQLITE_OK then (rc, 0)
         else
           case scan_hash pg z (minFrame pWal) iLast pgno (walHash pgno) HASHTABLE_NSLOT 0 of
             None \<Rightarrow> (SQLITE_CORRUPT, 0)
           | Some iRead \<Rightarrow>
               if iRead \<noteq> 0 then (SQLITE_OK, iRead) else find_tables xmap pWal pgno iLast iMinHash n)"

definition walFindFrame :: "(nat \<Rightarrow> nat) \<Rightarrow> Wal \<Rightarrow> u32 \<Rightarrow> nat \<Rightarrow> nat \<times> nat" where
  "walFindFrame xmap pWal pgno iLast =
     (if iLast = 0 \<or> readLock pWal = 0 \<and> \<not> bShmUnreliable pWal then (SQLITE_OK, 0)
      else
        let iMinHash = walFramePage (minFrame pWal)
        in find_tables xmap pWal pgno iLast iMinHash (walFramePage iLast + 1 - iMinHash))"

definition sqlite3WalFindFrame :: "(nat \<Rightarrow> nat) \<Rightarrow> Wal \<Rightarrow> u32 \<Rightarrow> nat \<times> nat" where
  "sqlite3WalFindFrame xmap pWal pgno = walFindFrame xmap pWal pgno (mxFrame (hdr pWal))"

text \<open>The end of \<open>walFrames\<close>: the pages \<open>ps\<close> that were appended to the log, and \<open>nExtra\<close> copies of the last one that pad
  the transaction to a sector.\<close>

primrec append_loop :: "(nat \<Rightarrow> nat) \<Rightarrow> Wal \<Rightarrow> nat \<Rightarrow> u32 list \<Rightarrow> nat \<times> nat \<times> Wal" where
  "append_loop xmap pWal iFrame [] = (SQLITE_OK, iFrame, pWal)"
| "append_loop xmap pWal iFrame (p # ps) =
     (let (rc, pWal) = walIndexAppend xmap pWal (iFrame + 1) p
      in if rc \<noteq> SQLITE_OK then (rc, iFrame + 1, pWal) else append_loop xmap pWal (iFrame + 1) ps)"

definition walFrames_index :: "(nat \<Rightarrow> nat) \<Rightarrow> Wal \<Rightarrow> nat \<Rightarrow> u32 list \<Rightarrow> u32 \<Rightarrow> nat \<Rightarrow> bool \<Rightarrow> u32 \<Rightarrow> nat \<times> Wal" where
  "walFrames_index xmap pWal szPage ps pLast nExtra isCommit nTruncate =
     (let (rc, iFrame, pWal) = append_loop xmap pWal (mxFrame (hdr pWal)) (ps @ replicate nExtra pLast)
      in if rc \<noteq> SQLITE_OK then (rc, pWal)
         else
           let h = (hdr pWal)\<lparr>hdr_szPage := of_nat ((szPage AND 0xff00) OR (szPage div 65536)), mxFrame := iFrame\<rparr>;
               h = (if isCommit then h\<lparr>iChange := iChange h + 1, nPage := nTruncate\<rparr> else h)
           in if isCommit then (let h = walIndexWriteHdr h in (SQLITE_OK, pWal\<lparr>hdr := h, shm_hdr := h\<rparr>))
              else (SQLITE_OK, pWal\<lparr>hdr := h\<rparr>))"

text \<open>Rollback; \<open>xUndo\<close> is the callback for the page of each frame.\<close>

function undo_loop :: "(nat \<Rightarrow> nat) \<Rightarrow> Wal \<Rightarrow> (u32 \<Rightarrow> nat) \<Rightarrow> nat \<Rightarrow> nat \<Rightarrow> nat \<Rightarrow> nat" where
  "undo_loop xmap pWal xUndo rc iFrame iMax =
     (if rc = SQLITE_OK \<and> iFrame \<le> iMax then undo_loop xmap pWal xUndo (xUndo (walFramePgno xmap pWal iFrame)) (iFrame + 1) iMax else rc)"
  by pat_completeness auto
termination
  by (relation "measure (\<lambda>(xmap, pWal, xUndo, rc, iFrame, iMax). Suc iMax - iFrame)") auto

definition sqlite3WalUndo :: "(nat \<Rightarrow> nat) \<Rightarrow> Wal \<Rightarrow> (u32 \<Rightarrow> nat) \<Rightarrow> nat \<times> Wal" where
  "sqlite3WalUndo xmap pWal xUndo =
     (if writeLock pWal then
        let iMax = mxFrame (hdr pWal);
            pWal = pWal\<lparr>hdr := shm_hdr pWal\<rparr>;
            rc = undo_loop xmap pWal xUndo SQLITE_OK (mxFrame (hdr pWal) + 1) iMax
        in (rc, if iMax \<noteq> mxFrame (hdr pWal) then walCleanupHash xmap pWal else pWal)
      else (SQLITE_OK, pWal))"

type_synonym wal_savepoint = "nat \<times> (u32 \<times> u32) \<times> u32"

definition sqlite3WalSavepoint :: "Wal \<Rightarrow> wal_savepoint" where
  "sqlite3WalSavepoint pWal = (mxFrame (hdr pWal), aFrameCksum (hdr pWal), nCkpt pWal)"

definition sqlite3WalSavepointUndo :: "(nat \<Rightarrow> nat) \<Rightarrow> Wal \<Rightarrow> wal_savepoint \<Rightarrow> Wal \<times> wal_savepoint" where
  "sqlite3WalSavepointUndo xmap pWal aWalData =
     (let (mx, ck, n) = (if snd (snd aWalData) \<noteq> nCkpt pWal then (0, fst (snd aWalData), nCkpt pWal) else aWalData)
      in (if mx < mxFrame (hdr pWal)
          then walCleanupHash xmap (pWal\<lparr>hdr := (hdr pWal)\<lparr>mxFrame := mx, aFrameCksum := ck\<rparr>\<rparr>) else pWal, (mx, ck, n)))"

definition READMARK_NOT_USED :: nat where "READMARK_NOT_USED = 0xffffffff"

definition WAL_NREADER :: nat where "WAL_NREADER = 5"

text \<open>\<open>salt1\<close> are the four random bytes of the new second salt.\<close>

definition walRestartHdr :: "Wal \<Rightarrow> u8 list \<Rightarrow> Wal" where
  "walRestartHdr pWal salt1 =
     (let h = hdr pWal;
          s = sqlite3Get4byte (mem_write (\<lambda>_. 0) 0 (aSalt h)) 0;
          h = walIndexWriteHdr (h\<lparr>mxFrame := 0, aSalt := bytes4 (1 + s) @ salt1\<rparr>)
      in pWal\<lparr>nCkpt := nCkpt pWal + 1, hdr := h, shm_hdr := h, nBackfill := 0, nBackfillAttempted := 0,
           aReadMark := (aReadMark pWal ! 0) # 0 # replicate (WAL_NREADER - 2) READMARK_NOT_USED\<rparr>)"

section \<open>Facts on the geometry\<close>

lemma table_sizes: "0 < HASHTABLE_NPAGE_ONE" "HASHTABLE_NPAGE_ONE < HASHTABLE_NPAGE" "HASHTABLE_NPAGE < HASHTABLE_NSLOT" "0 < HASHTABLE_NPAGE"
  by (simp_all add: HASHTABLE_NPAGE_ONE_def HASHTABLE_NPAGE_def HASHTABLE_NSLOT_def WALINDEX_HDR_SIZE_def)

definition table_size :: "nat \<Rightarrow> nat" where
  "table_size h = (if h = 0 then HASHTABLE_NPAGE_ONE else HASHTABLE_NPAGE)"

lemma table_size_bounds: "0 < table_size h" "table_size h \<le> HASHTABLE_NPAGE" "table_size h < HASHTABLE_NSLOT"
  using table_sizes by (auto simp: table_size_def)

lemma iZero_Suc: "iZero (Suc h) = iZero h + table_size h"
  by (cases h) (simp_all add: iZero_def table_size_def)

lemma iZero_mono: "h \<le> h' \<Longrightarrow> iZero h \<le> iZero h'"
  by (induction rule: dec_induct) (simp_all add: iZero_Suc)

lemma walFramePage_iff:
  assumes "1 \<le> f"
  shows "walFramePage f = h \<longleftrightarrow> iZero h < f \<and> f \<le> iZero h + table_size h"
proof -
  let ?d = "f + HASHTABLE_NPAGE - HASHTABLE_NPAGE_ONE - 1"
  have "walFramePage f = h \<longleftrightarrow> h \<le> ?d div HASHTABLE_NPAGE \<and> ?d div HASHTABLE_NPAGE < h + 1" by (auto simp: walFramePage_def)
  also have "\<dots> \<longleftrightarrow> h * HASHTABLE_NPAGE \<le> ?d \<and> ?d < (h + 1) * HASHTABLE_NPAGE"
    using table_sizes(4) by (simp add: less_eq_div_iff_mult_less_eq div_less_iff_less_mult)
  also have "\<dots> \<longleftrightarrow> iZero h < f \<and> f \<le> iZero h + table_size h"
  proof (cases h)
    case 0
    then show ?thesis using table_sizes assms by (simp add: iZero_def table_size_def) linarith
  next
    case (Suc k)
    have d: "?d + HASHTABLE_NPAGE_ONE + 1 = f + HASHTABLE_NPAGE" using table_sizes assms by linarith
    have h: "h * HASHTABLE_NPAGE = k * HASHTABLE_NPAGE + HASHTABLE_NPAGE" "(h + 1) * HASHTABLE_NPAGE = k * HASHTABLE_NPAGE + HASHTABLE_NPAGE + HASHTABLE_NPAGE"
      using Suc by simp_all
    have z: "iZero h = HASHTABLE_NPAGE_ONE + k * HASHTABLE_NPAGE" "table_size h = HASHTABLE_NPAGE"
      using Suc by (simp_all add: iZero_def table_size_def)
    show ?thesis unfolding h z using d by linarith
  qed
  finally show ?thesis .
qed

lemma walNextHash_mod: "walNextHash i = (i + 1) mod HASHTABLE_NSLOT"
proof -
  have "walNextHash i = take_bit 13 (i + 1)"
    by (simp add: walNextHash_def take_bit_eq_mask mask_eq_exp_minus_1 HASHTABLE_NSLOT_def HASHTABLE_NPAGE_def)
  then show ?thesis by (simp add: take_bit_eq_mod HASHTABLE_NSLOT_def HASHTABLE_NPAGE_def)
qed

lemma walHash_less: "walHash p < HASHTABLE_NSLOT"
proof -
  have "(p * HASHTABLE_HASH_1) AND of_nat (HASHTABLE_NSLOT - 1) = take_bit 13 (p * HASHTABLE_HASH_1)"
    by (simp add: take_bit_eq_mask mask_eq_exp_minus_1 HASHTABLE_NSLOT_def HASHTABLE_NPAGE_def)
  then have "walHash p = take_bit 13 (unat (p * HASHTABLE_HASH_1))" by (simp add: walHash_def unsigned_take_bit_eq)
  then show ?thesis using take_bit_nat_less_exp [of 13 "unat (p * HASHTABLE_HASH_1)"] by (simp add: HASHTABLE_NSLOT_def HASHTABLE_NPAGE_def)
qed

section \<open>Probing\<close>

text \<open>The slot at distance \<open>d\<close> from the first slot of a page number.\<close>

definition slot :: "u32 \<Rightarrow> nat \<Rightarrow> nat" where
  "slot p d = (walHash p + d) mod HASHTABLE_NSLOT"

lemma slot_0: "slot p 0 = walHash p"
  by (simp add: slot_def walHash_less)

lemma slot_less [simp]: "slot p d < HASHTABLE_NSLOT"
  using table_sizes by (simp add: slot_def)

lemma walNextHash_slot: "walNextHash (slot p d) = slot p (Suc d)"
  by (simp add: walNextHash_mod slot_def mod_Suc_eq)

lemma slot_inj_le: "d \<le> e \<Longrightarrow> e < HASHTABLE_NSLOT \<Longrightarrow> slot p d = slot p e \<Longrightarrow> d = e"
proof -
  assume h: "d \<le> e" "e < HASHTABLE_NSLOT" "slot p d = slot p e"
  then have "HASHTABLE_NSLOT dvd (walHash p + e) - (walHash p + d)"
    unfolding slot_def by (subst mod_eq_dvd_iff_nat [symmetric]) simp_all
  then have "HASHTABLE_NSLOT dvd e - d" by simp
  then have "e - d = 0" using h(2) by (meson dvd_imp_le le_less_trans diff_le_self leD neq0_conv)
  then show "d = e" using h(1) by simp
qed

lemma slot_inj: "d < HASHTABLE_NSLOT \<Longrightarrow> e < HASHTABLE_NSLOT \<Longrightarrow> slot p d = slot p e \<Longrightarrow> d = e"
  using slot_inj_le [of d e p] slot_inj_le [of e d p] by (metis nat_le_linear)

lemma find_slot_first:
  assumes "\<And>e. e < n \<Longrightarrow> ah ! slot p (d + e) \<noteq> 0" "ah ! slot p (d + n) = 0" "n \<le> k"
  shows "find_slot ah (slot p d) k = Some (slot p (d + n))"
  using assms
proof (induction n arbitrary: d k)
  case 0
  then show ?case by (simp add: find_slot.simps)
next
  case (Suc n)
  have "ah ! slot p d \<noteq> 0" using Suc.prems(1) [of 0] by simp
  moreover have "ah ! slot p (Suc d + e) \<noteq> 0" if "e < n" for e using Suc.prems(1) [of "Suc e"] that by simp
  then have "find_slot ah (slot p (Suc d)) (k - 1) = Some (slot p (Suc d + n))"
    using Suc.prems(2,3) by (intro Suc.IH) auto
  ultimately show ?case using Suc.prems(3) by (subst find_slot.simps) (simp add: walNextHash_slot)
qed

text \<open>The search of a table visits the slots up to the first free one.\<close>

definition hit :: "wal_page \<Rightarrow> nat \<Rightarrow> nat \<Rightarrow> nat \<Rightarrow> u32 \<Rightarrow> nat \<Rightarrow> bool" where
  "hit pg z minF iLast p v \<longleftrightarrow> v + z \<le> iLast \<and> minF \<le> v + z \<and> aPgno pg ! (v - 1) = p"

lemma scan_hash_fold:
  assumes "\<And>e. e < n \<Longrightarrow> aHash pg ! slot p (d + e) \<noteq> 0" "aHash pg ! slot p (d + n) = 0" "n \<le> k"
  shows "scan_hash pg z minF iLast p (slot p d) k r =
    Some (foldl (\<lambda>r v. if hit pg z minF iLast p v then v + z else r) r (map (\<lambda>e. unat (aHash pg ! slot p (d + e))) [0..<n]))"
  using assms
proof (induction n arbitrary: d k r)
  case 0
  then show ?case by (simp add: scan_hash.simps)
next
  case (Suc n)
  let ?v = "unat (aHash pg ! slot p d)"
  have v: "?v \<noteq> 0" using Suc.prems(1) [of 0] by (simp add: unat_eq_0)
  let ?r = "if hit pg z minF iLast p ?v then ?v + z else r"
  have "scan_hash pg z minF iLast p (slot p (Suc d)) (k - 1) ?r =
      Some (foldl (\<lambda>r v. if hit pg z minF iLast p v then v + z else r) ?r (map (\<lambda>e. unat (aHash pg ! slot p (Suc d + e))) [0..<n]))"
    using Suc.prems(2,3) Suc.prems(1) [of "Suc _"] by (intro Suc.IH) simp_all
  moreover have "map (\<lambda>e. unat (aHash pg ! slot p (d + e))) [0..<Suc n] = ?v # map (\<lambda>e. unat (aHash pg ! slot p (Suc d + e))) [0..<n]"
    by (simp add: upt_conv_Cons map_Suc_upt [symmetric] del: upt_Suc)
  ultimately show ?case using Suc.prems(3) v by (subst scan_hash.simps) (simp add: walNextHash_slot hit_def Let_def)
qed

section \<open>One table\<close>

text \<open>A table of \<open>n\<close> entries that holds the page numbers \<open>ps\<close>. The path from the first slot of a page number to
  its entry has only entries of earlier frames: what was there when the entry was made.\<close>

definition table_ok :: "wal_page \<Rightarrow> nat \<Rightarrow> u32 list \<Rightarrow> bool" where
  "table_ok pg n ps \<longleftrightarrow>
     length (aHash pg) = HASHTABLE_NSLOT \<and> length ps \<le> n \<and> n < HASHTABLE_NSLOT \<and>
     aPgno pg = ps @ replicate (n - length ps) 0 \<and> 0 \<notin> set ps \<and>
     (\<forall>s<HASHTABLE_NSLOT. unat (aHash pg ! s) \<le> length ps) \<and>
     (\<forall>s<HASHTABLE_NSLOT. \<forall>t<HASHTABLE_NSLOT. aHash pg ! s = aHash pg ! t \<and> aHash pg ! s \<noteq> 0 \<longrightarrow> s = t) \<and>
     (\<forall>v<length ps. \<exists>d<HASHTABLE_NSLOT. unat (aHash pg ! slot (ps ! v) d) = Suc v \<and>
        (\<forall>e<d. aHash pg ! slot (ps ! v) e \<noteq> 0 \<and> unat (aHash pg ! slot (ps ! v) e) \<le> v))"

lemma table_okD:
  assumes "table_ok pg n ps"
  shows "length (aHash pg) = HASHTABLE_NSLOT" "length ps \<le> n" "n < HASHTABLE_NSLOT" "aPgno pg = ps @ replicate (n - length ps) 0" "0 \<notin> set ps"
    and "s < HASHTABLE_NSLOT \<Longrightarrow> unat (aHash pg ! s) \<le> length ps"
    and "s < HASHTABLE_NSLOT \<Longrightarrow> t < HASHTABLE_NSLOT \<Longrightarrow> aHash pg ! s = aHash pg ! t \<Longrightarrow> aHash pg ! s \<noteq> 0 \<Longrightarrow> s = t"
    and "v < length ps \<Longrightarrow> \<exists>d<HASHTABLE_NSLOT. unat (aHash pg ! slot (ps ! v) d) = Suc v \<and>
        (\<forall>e<d. aHash pg ! slot (ps ! v) e \<noteq> 0 \<and> unat (aHash pg ! slot (ps ! v) e) \<le> v)"
  using assms unfolding table_ok_def by blast+

lemma table_okI:
  assumes "length (aHash pg) = HASHTABLE_NSLOT" "length ps \<le> n" "n < HASHTABLE_NSLOT" "aPgno pg = ps @ replicate (n - length ps) 0" "0 \<notin> set ps"
    and "\<And>s. s < HASHTABLE_NSLOT \<Longrightarrow> unat (aHash pg ! s) \<le> length ps"
    and "\<And>s t. s < HASHTABLE_NSLOT \<Longrightarrow> t < HASHTABLE_NSLOT \<Longrightarrow> aHash pg ! s = aHash pg ! t \<Longrightarrow> aHash pg ! s \<noteq> 0 \<Longrightarrow> s = t"
    and "\<And>v. v < length ps \<Longrightarrow> \<exists>d<HASHTABLE_NSLOT. unat (aHash pg ! slot (ps ! v) d) = Suc v \<and>
        (\<forall>e<d. aHash pg ! slot (ps ! v) e \<noteq> 0 \<and> unat (aHash pg ! slot (ps ! v) e) \<le> v)"
  shows "table_ok pg n ps"
  unfolding table_ok_def using assms by blast

lemma table_first_free:
  assumes t: "table_ok pg n ps"
  shows "\<exists>m\<le>length ps. (\<forall>e<m. aHash pg ! slot p e \<noteq> 0) \<and> aHash pg ! slot p m = 0"
proof -
  have "\<exists>e\<le>length ps. aHash pg ! slot p e = 0"
  proof (rule ccontr)
    assume "\<not> ?thesis"
    then have nz: "aHash pg ! slot p e \<noteq> 0" if "e \<le> length ps" for e using that by blast
    have len: "length ps < HASHTABLE_NSLOT" using table_okD(2,3) [OF t] by simp
    let ?f = "\<lambda>e. unat (aHash pg ! slot p e)"
    have "inj_on ?f {..length ps}"
    proof (rule inj_onI)
      fix d e assume h: "d \<in> {..length ps}" "e \<in> {..length ps}" "?f d = ?f e"
      then have "slot p d = slot p e" using table_okD(7) [OF t, of "slot p d" "slot p e"] nz [of d] by (simp add: word_unat_eq_iff)
      then show "d = e" using slot_inj [of d e p] h len by simp
    qed
    then have "card {..length ps} \<le> card {1..length ps}"
      using nz table_okD(6) [OF t] by (intro card_inj_on_le [of ?f]) (auto simp: unat_gt_0 Suc_le_eq)
    then show False by simp
  qed
  then obtain e where e: "e \<le> length ps" "aHash pg ! slot p e = 0" by blast
  let ?m = "LEAST e. aHash pg ! slot p e = 0"
  have "aHash pg ! slot p ?m = 0" using e(2) by (rule LeastI)
  moreover have "?m \<le> length ps" using Least_le [of "\<lambda>e. aHash pg ! slot p e = 0", OF e(2)] e(1) by simp
  moreover have "aHash pg ! slot p k \<noteq> 0" if "k < ?m" for k using not_less_Least [OF that] .
  ultimately show ?thesis by blast
qed

lemma foldl_last: "foldl (\<lambda>r v. if P v then g v else r) r vs = (if filter P vs = [] then r else g (last (filter P vs)))"
  by (induction vs rule: rev_induct) simp_all

lemma last_filter:
  "filter P vs \<noteq> [] \<Longrightarrow> \<exists>i<length vs. vs ! i = last (filter P vs) \<and> P (vs ! i) \<and> (\<forall>j. i < j \<and> j < length vs \<longrightarrow> \<not> P (vs ! j))"
proof (induction vs rule: rev_induct)
  case (snoc x vs)
  show ?case
  proof (cases "P x")
    case True
    then show ?thesis by (intro exI [of _ "length vs"]) auto
  next
    case False
    then obtain i where i: "i < length vs" "vs ! i = last (filter P vs)" "P (vs ! i)" "\<And>j. i < j \<Longrightarrow> j < length vs \<Longrightarrow> \<not> P (vs ! j)"
      using snoc by auto
    have "\<not> P ((vs @ [x]) ! j)" if "i < j" "j < length (vs @ [x])" for j
      using that i(4) False by (cases "j < length vs") (auto simp: nth_append)
    then show ?thesis using i(1-3) False by (intro exI [of _ i]) (auto simp: nth_append)
  qed
qed simp

lemma table_entry_at:
  assumes t: "table_ok pg n ps" and e: "e < HASHTABLE_NSLOT" "unat (aHash pg ! slot p e) = Suc v" "ps ! v = p"
  shows "v < length ps \<and> (\<forall>e'<e. unat (aHash pg ! slot p e') \<le> v)"
proof -
  have v: "v < length ps" using table_okD(6) [OF t slot_less, of p e] e(2) by simp
  obtain d where d: "d < HASHTABLE_NSLOT" "unat (aHash pg ! slot p d) = Suc v"
    "\<forall>e<d. aHash pg ! slot p e \<noteq> 0 \<and> unat (aHash pg ! slot p e) \<le> v"
    using table_okD(8) [OF t v] e(3) by auto
  have "aHash pg ! slot p d = aHash pg ! slot p e" using d(2) e(2) by (simp add: word_unat_eq_iff)
  moreover have "aHash pg ! slot p d \<noteq> 0" using d(2) by (auto simp: unat_eq_0)
  ultimately have "slot p d = slot p e" using table_okD(7) [OF t slot_less slot_less] by blast
  then have "d = e" using slot_inj d(1) e(1) by blast
  then show ?thesis using d v by blast
qed

lemma table_entry_found:
  assumes t: "table_ok pg n ps" and v: "v < length ps" "ps ! v = p" and m: "aHash pg ! slot p m = 0"
  shows "\<exists>e<m. unat (aHash pg ! slot p e) = Suc v"
proof -
  obtain d where d: "unat (aHash pg ! slot p d) = Suc v" "\<forall>e<d. aHash pg ! slot p e \<noteq> 0 \<and> unat (aHash pg ! slot p e) \<le> v"
    using table_okD(8) [OF t v(1)] v(2) by blast
  have "d < m"
  proof (rule ccontr)
    assume "\<not> d < m"
    then show False using d m by (cases "m = d") auto
  qed
  then show ?thesis using d by blast
qed

text \<open>The search finds the last entry of the page number in the given range of frames.\<close>

lemma table_lookup:
  assumes t: "table_ok pg n ps"
  shows "\<exists>r. scan_hash pg z minF iLast p (walHash p) HASHTABLE_NSLOT 0 = Some r \<and>
    (r = 0 \<and> (\<forall>v<length ps. ps ! v = p \<longrightarrow> \<not> (minF \<le> Suc v + z \<and> Suc v + z \<le> iLast)) \<or>
     (\<exists>v<length ps. r = Suc v + z \<and> ps ! v = p \<and> minF \<le> r \<and> r \<le> iLast \<and>
        (\<forall>w. v < w \<and> w < length ps \<and> ps ! w = p \<longrightarrow> \<not> Suc w + z \<le> iLast)))"
proof -
  obtain m where m: "m \<le> length ps" "\<And>e. e < m \<Longrightarrow> aHash pg ! slot p e \<noteq> 0" "aHash pg ! slot p m = 0"
    using table_first_free [OF t, of p] by blast
  have mN: "m < HASHTABLE_NSLOT" using m(1) table_okD(2,3) [OF t] by simp
  let ?u = "\<lambda>e. unat (aHash pg ! slot p e)"
  let ?P = "hit pg z minF iLast p"
  let ?vs = "map ?u [0..<m]"
  let ?r = "if filter ?P ?vs = [] then 0 else last (filter ?P ?vs) + z"
  have pos: "?u e \<noteq> 0 \<and> ?u e \<le> length ps" if "e < m" for e
    using m(2) [OF that] table_okD(6) [OF t slot_less] by (simp add: unat_eq_0)
  have hit: "?P (Suc v) \<longleftrightarrow> minF \<le> Suc v + z \<and> Suc v + z \<le> iLast \<and> ps ! v = p" if "v < length ps" for v
    using that table_okD(4) [OF t] by (auto simp: hit_def nth_append)
  have s: "scan_hash pg z minF iLast p (walHash p) HASHTABLE_NSLOT 0 = Some ?r"
    using scan_hash_fold [of m pg p 0 HASHTABLE_NSLOT z minF iLast 0] m mN by (simp add: slot_0 foldl_last)
  show ?thesis
  proof (cases "filter ?P ?vs = []")
    case True
    have "\<not> (minF \<le> Suc v + z \<and> Suc v + z \<le> iLast)" if v: "v < length ps" "ps ! v = p" for v
    proof -
      obtain e where "e < m" "?u e = Suc v" using table_entry_found [OF t v m(3)] by blast
      then have "Suc v \<in> set ?vs" by (auto simp: image_iff intro: bexI [of _ e])
      then have "\<not> ?P (Suc v)" using True by (auto simp: filter_empty_conv)
      then show ?thesis using hit [OF v(1)] v(2) by blast
    qed
    then show ?thesis using s True by auto
  next
    case False
    then obtain i where i: "i < m" "?u i = last (filter ?P ?vs)" "?P (?u i)" "\<And>j. i < j \<Longrightarrow> j < m \<Longrightarrow> \<not> ?P (?u j)"
      using last_filter [OF False] by auto
    obtain v where v: "?u i = Suc v" "v < length ps" using pos [OF i(1)] by (cases "?u i") auto
    have h: "minF \<le> Suc v + z" "Suc v + z \<le> iLast" "ps ! v = p" using i(3) hit [OF v(2)] v(1) by auto
    have "\<not> Suc w + z \<le> iLast" if w: "v < w" "w < length ps" "ps ! w = p" for w
    proof
      assume "Suc w + z \<le> iLast"
      then have P: "?P (Suc w)" using hit [OF w(2)] w h(1) by simp
      obtain e where e: "e < m" "?u e = Suc w" using table_entry_found [OF t w(2,3) m(3)] by blast
      have "\<not> i < e" using i(4) [of e] e P by auto
      moreover have "e \<noteq> i" using e(2) v(1) w(1) by auto
      ultimately have "e < i" by simp
      then have "?u e \<le> v" using table_entry_at [OF t _ v(1) h(3)] i(1) mN by simp
      then show False using e(2) w(1) by simp
    qed
    then have "?r = Suc v + z \<and> (\<forall>w. v < w \<and> w < length ps \<and> ps ! w = p \<longrightarrow> \<not> Suc w + z \<le> iLast)" using False i(2) v(1) by simp
    then show ?thesis using s v(2) h by auto
  qed
qed

text \<open>Clearing, shortening and extending a table.\<close>

lemma table_clear:
  assumes "length (aHash pg) = HASHTABLE_NSLOT" "length (aPgno pg) = n" "n < HASHTABLE_NSLOT"
  shows "table_ok \<lparr>aPgno = map (\<lambda>_. 0) (aPgno pg), aHash = map (\<lambda>_. 0) (aHash pg)\<rparr> n []"
  using assms by (simp add: table_ok_def map_replicate_const)

lemma table_cleanup:
  assumes t: "table_ok pg n ps" and L: "L \<le> length ps"
  shows "table_ok \<lparr>aPgno = take L (aPgno pg) @ replicate (length (aPgno pg) - L) 0,
    aHash = map (\<lambda>v. if unat v > L then 0 else v) (aHash pg)\<rparr> n (take L ps)"
proof -
  let ?h = "map (\<lambda>v. if unat v > L then 0 else v) (aHash pg)"
  note d = table_okD [OF t]
  have nth: "?h ! s = (if unat (aHash pg ! s) > L then 0 else aHash pg ! s)" if "s < HASHTABLE_NSLOT" for s
    using that d(1) by simp
  have 8: "\<exists>d<HASHTABLE_NSLOT. unat (?h ! slot (take L ps ! v) d) = Suc v \<and>
      (\<forall>e<d. ?h ! slot (take L ps ! v) e \<noteq> 0 \<and> unat (?h ! slot (take L ps ! v) e) \<le> v)" if "v < length (take L ps)" for v
  proof -
    have v: "v < length ps" "v < L" "take L ps ! v = ps ! v" using that L by auto
    then show ?thesis using d(8) [OF v(1)] by (force simp: nth)
  qed
  have 7: "s = t" if "s < HASHTABLE_NSLOT" "t < HASHTABLE_NSLOT" "?h ! s = ?h ! t" "?h ! s \<noteq> 0" for s t
    using d(7) [OF that(1,2)] that by (auto simp: nth split: if_splits)
  have 4: "take L (aPgno pg) @ replicate (length (aPgno pg) - L) 0 = take L ps @ replicate (n - length (take L ps)) 0"
    using L d(2,4) by simp
  have 6: "unat (?h ! s) \<le> length (take L ps)" if "s < HASHTABLE_NSLOT" for s using nth [OF that] L by simp
  have 5: "0 \<notin> set (take L ps)" using d(5) by (meson in_set_takeD)
  have "length (take L ps) \<le> n" "length ?h = HASHTABLE_NSLOT" using d(1,2) L by simp_all
  then show ?thesis using 4 5 6 7 8 d(3) by (intro table_okI; simp only: wal_page.simps)
qed

lemma table_append:
  assumes t: "table_ok pg n ps" and p: "p \<noteq> 0" "length ps < n" and idx: "idx = Suc (length ps)"
  shows "\<exists>k. find_slot (aHash pg) (walHash p) idx = Some k \<and>
    table_ok \<lparr>aPgno = (aPgno pg)[length ps := p], aHash = (aHash pg)[k := of_nat idx]\<rparr> n (ps @ [p])"
proof -
  note d = table_okD [OF t]
  obtain m where m: "m \<le> length ps" "\<And>e. e < m \<Longrightarrow> aHash pg ! slot p e \<noteq> 0" "aHash pg ! slot p m = 0"
    using table_first_free [OF t, of p] by blast
  let ?k = "slot p m"
  let ?h = "(aHash pg)[?k := of_nat idx]"
  have mN: "m < HASHTABLE_NSLOT" using m(1) d(2,3) by simp
  have "idx < 2 ^ 16" using idx p(2) d(3) by (simp add: HASHTABLE_NSLOT_def HASHTABLE_NPAGE_def)
  then have u: "unat (of_nat idx :: u16) = idx" by (simp add: unat_of_nat take_bit_nat_eq_self)
  have nth: "?h ! s = (if s = ?k then of_nat idx else aHash pg ! s)" if "s < HASHTABLE_NSLOT" for s
    using that d(1) by (simp add: nth_list_update)
  have f: "find_slot (aHash pg) (walHash p) idx = Some ?k"
    using find_slot_first [of m "aHash pg" p 0 idx] m idx by (simp add: slot_0)
  have new: "unat (?h ! slot p m) = Suc (length ps) \<and> (\<forall>e<m. ?h ! slot p e \<noteq> 0 \<and> unat (?h ! slot p e) \<le> length ps)"
  proof (intro conjI allI impI)
    have "?h ! slot p m = of_nat idx" by (subst nth) simp_all
    then show "unat (?h ! slot p m) = Suc (length ps)" using u idx by (simp only:)
  next
    fix e assume e: "e < m"
    then have "slot p e \<noteq> ?k" using slot_inj [of e m p] mN by auto
    then show "?h ! slot p e \<noteq> 0" "unat (?h ! slot p e) \<le> length ps" using m(2) [OF e] d(6) by (simp_all add: nth)
  qed
  have path: "\<exists>d<HASHTABLE_NSLOT. unat (?h ! slot ((ps @ [p]) ! v) d) = Suc v \<and>
      (\<forall>e<d. ?h ! slot ((ps @ [p]) ! v) e \<noteq> 0 \<and> unat (?h ! slot ((ps @ [p]) ! v) e) \<le> v)" if v: "v < length (ps @ [p])" for v
  proof (cases "v = length ps")
    case True
    then show ?thesis using new mN by (intro exI [of _ m]) simp
  next
    case False
    then have v': "v < length ps" using v by simp
    let ?q = "ps ! v"
    obtain c where c: "c < HASHTABLE_NSLOT" "unat (aHash pg ! slot ?q c) = Suc v"
      "\<And>e. e < c \<Longrightarrow> aHash pg ! slot ?q e \<noteq> 0 \<and> unat (aHash pg ! slot ?q e) \<le> v"
      using d(8) [OF v'] by blast
    have "slot ?q e \<noteq> ?k" if "e \<le> c" for e using c(2) c(3) [of e] that m(3) by (cases "e = c") auto
    then show ?thesis using c v' by (intro exI [of _ c]) (auto simp: nth nth_append)
  qed
  have inj: "s = s'" if "s < HASHTABLE_NSLOT" "s' < HASHTABLE_NSLOT" "?h ! s = ?h ! s'" "?h ! s \<noteq> 0" for s s'
  proof -
    have "aHash pg ! r \<noteq> of_nat idx" if "r < HASHTABLE_NSLOT" for r using d(6) [OF that] u idx by auto
    then show ?thesis using that d(7) [OF that(1,2)] by (auto simp: nth split: if_splits)
  qed
  have bound: "unat (?h ! s) \<le> length (ps @ [p])" if "s < HASHTABLE_NSLOT" for s
    using nth [OF that] d(6) [OF that] u idx by (auto split: if_splits)
  have "(aPgno pg)[length ps := p] = (ps @ [p]) @ replicate (n - length (ps @ [p])) 0"
  proof -
    have "replicate (n - length ps) (0 :: u32) = 0 # replicate (n - Suc (length ps)) 0"
      using p(2) by (metis Suc_diff_Suc replicate_Suc)
    then show ?thesis using d(4) by (simp add: list_update_append)
  qed
  moreover have "length ?h = HASHTABLE_NSLOT" "length (ps @ [p]) \<le> n" "0 \<notin> set (ps @ [p])" using d(1,5) p by simp_all
  ultimately have "table_ok \<lparr>aPgno = (aPgno pg)[length ps := p], aHash = ?h\<rparr> n (ps @ [p])"
    using path inj bound d(3) by (intro table_okI; simp only: wal_page.simps)
  then show ?thesis using f by blast
qed

section \<open>All tables\<close>

definition part :: "nat \<Rightarrow> u32 list \<Rightarrow> u32 list" where
  "part h log = take (table_size h) (drop (iZero h) log)"

text \<open>The index of a log with the page numbers \<open>log\<close>: every table that has frames of the log holds them, and nothing else.\<close>

definition index_ok :: "(nat \<Rightarrow> wal_page) \<Rightarrow> u32 list \<Rightarrow> bool" where
  "index_ok pages log \<longleftrightarrow>
     (\<forall>h. length (aHash (pages h)) = HASHTABLE_NSLOT \<and> length (aPgno (pages h)) = table_size h) \<and>
     (\<forall>h. iZero h < length log \<longrightarrow> table_ok (pages h) (table_size h) (part h log))"

lemma index_okD:
  assumes "index_ok pages log"
  shows "length (aHash (pages h)) = HASHTABLE_NSLOT" "length (aPgno (pages h)) = table_size h"
    and "iZero h < length log \<Longrightarrow> table_ok (pages h) (table_size h) (part h log)"
  using assms by (auto simp: index_ok_def)

lemma index_ok_update:
  assumes "index_ok pages log" "table_ok pg (table_size h) (part h log')"
    and "\<And>h'. h' \<noteq> h \<Longrightarrow> iZero h' < length log' \<Longrightarrow> table_ok (pages h') (table_size h') (part h' log')"
  shows "index_ok (pages(h := pg)) log'"
proof -
  have "length (aHash pg) = HASHTABLE_NSLOT" "length (aPgno pg) = table_size h"
    using table_okD(1,2,4) [OF assms(2)] by simp_all
  then show ?thesis unfolding index_ok_def using index_okD(1,2) [OF assms(1)] assms(2,3) by simp
qed

lemma frame_table: "1 \<le> f \<Longrightarrow> iZero (walFramePage f) < f \<and> f \<le> iZero (walFramePage f) + table_size (walFramePage f)"
  using walFramePage_iff by blast

lemma earlier_table: "h' \<noteq> walFramePage f \<Longrightarrow> iZero h' < f \<Longrightarrow> 1 \<le> f \<Longrightarrow> iZero h' + table_size h' \<le> iZero (walFramePage f)"
proof -
  let ?h = "walFramePage f"
  assume h: "h' \<noteq> ?h" "iZero h' < f" "1 \<le> f"
  have "\<not> ?h < h'" using frame_table [OF h(3)] iZero_mono [of "Suc ?h" h'] h(2) by (auto simp: iZero_Suc)
  then show ?thesis using iZero_mono [of "Suc h'" ?h] h(1) by (simp add: iZero_Suc)
qed

lemma part_take: "iZero h + table_size h \<le> n \<Longrightarrow> part h (take n log @ xs) = part h log" if "n \<le> length log"
  using that by (simp add: part_def take_drop min_absorb1)

lemma cleanup_index:
  assumes i: "index_ok (apWiData w) log" and mx: "mx = mxFrame (hdr w)" "mx \<le> length log" and x: "xmap (walFramePage mx) = SQLITE_OK"
  shows "index_ok (apWiData (walCleanupHash xmap w)) (take mx log)"
proof (cases "mx = 0")
  case True
  then show ?thesis using i mx(1) by (simp add: walCleanupHash_def index_ok_def)
next
  case False
  let ?h = "walFramePage mx" let ?L = "mx - iZero ?h" let ?pg = "apWiData w ?h"
  let ?new = "\<lparr>aPgno = take ?L (aPgno ?pg) @ replicate (length (aPgno ?pg) - ?L) 0, aHash = map (\<lambda>v. if unat v > ?L then 0 else v) (aHash ?pg)\<rparr>"
  have f: "iZero ?h < mx" "mx \<le> iZero ?h + table_size ?h" using frame_table [of mx] False by auto
  have e: "apWiData (walCleanupHash xmap w) = (apWiData w)(?h := ?new)"
    using False mx(1) x by (simp add: walCleanupHash_def walHashGet_def set_page_def Let_def)
  have new: "table_ok ?new (table_size ?h) (part ?h (take mx log))"
  proof -
    have "take ?L (part ?h log) = part ?h (take mx log)" using f by (simp add: part_def take_drop min_absorb1 min_absorb2)
    moreover have "?L \<le> length (part ?h log)" using f mx(2) by (simp add: part_def) linarith
    ultimately show ?thesis using table_cleanup [OF index_okD(3) [OF i], of ?h ?L] f mx(2) by simp
  qed
  have "table_ok (apWiData w h) (table_size h) (part h (take mx log))" if "iZero h < mx" "h \<noteq> ?h" for h
    using index_okD(3) [OF i, of h] earlier_table [OF that(2,1)] False f(1) mx(2) that(1) part_take [of mx log h "[]"] by simp
  then show ?thesis unfolding e using index_ok_update [OF i new] mx(2) by simp
qed

text \<open>The entry is written into a table that ends before its frame.\<close>

lemma append_index_table:
  assumes i: "index_ok (apWiData w) log" and n: "length log = n" "h = walFramePage (n + 1)" "idx = n + 1 - iZero h" and p: "p \<noteq> 0"
    and t: "table_ok (apWiData w h) (table_size h) (part h log)"
  shows "\<exists>k. find_slot (aHash (apWiData w h)) (walHash p) idx = Some k \<and>
    index_ok ((apWiData w)(h := \<lparr>aPgno = (aPgno (apWiData w h))[idx - 1 := p], aHash = (aHash (apWiData w h))[k := of_nat idx]\<rparr>)) (log @ [p])"
proof -
  have f: "iZero h < n + 1" "n + 1 \<le> iZero h + table_size h" using frame_table [of "n + 1"] n(2) by auto
  have len: "length (part h log) = n - iZero h" using f n(1) by (simp add: part_def)
  have idx: "idx = Suc (length (part h log))" using f n(3) len by simp
  have "length (part h log) < table_size h" using f len by linarith
  then obtain k where k: "find_slot (aHash (apWiData w h)) (walHash p) idx = Some k"
    "table_ok \<lparr>aPgno = (aPgno (apWiData w h))[idx - 1 := p], aHash = (aHash (apWiData w h))[k := of_nat idx]\<rparr> (table_size h) (part h log @ [p])"
    using table_append [OF t p _ idx] idx by auto
  have new: "part h (log @ [p]) = part h log @ [p]" using f n(1) by (simp add: part_def)
  have "table_ok (apWiData w h') (table_size h') (part h' (log @ [p]))" if "iZero h' < n + 1" "h' \<noteq> h" for h'
  proof -
    have e: "iZero h' + table_size h' \<le> iZero h" using earlier_table [of h' "n + 1"] that n(2) by simp
    then have "iZero h' < length log" using f(1) n(1) table_size_bounds(1) [of h'] by linarith
    then show ?thesis using index_okD(3) [OF i, of h'] part_take [of n log h' "[p]"] e f(1) n(1) by simp
  qed
  then have "index_ok ((apWiData w)(h := \<lparr>aPgno = (aPgno (apWiData w h))[idx - 1 := p], aHash = (aHash (apWiData w h))[k := of_nat idx]\<rparr>)) (log @ [p])"
    using index_ok_update [OF i k(2) [folded new]] n(1) by simp
  then show ?thesis using k(1) by blast
qed

lemma prepare_index:
  assumes i: "index_ok (apWiData w) log" and n: "n \<le> length log" "n = length log \<or> mxFrame (hdr w) = n"
    and h: "h = walFramePage (n + 1)" and idx: "idx = n + 1 - iZero h" and x: "xmap h = SQLITE_OK"
  shows "index_ok (apWiData (prepare_table xmap w h idx)) (take n log) \<and>
    table_ok (apWiData (prepare_table xmap w h idx) h) (table_size h) (part h (take n log)) \<and>
    (\<exists>pages. prepare_table xmap w h idx = w\<lparr>apWiData := pages\<rparr>)"
proof (cases "idx = 1")
  case True
  let ?pg = "apWiData w h"
  let ?new = "\<lparr>aPgno = map (\<lambda>_. 0) (aPgno ?pg), aHash = map (\<lambda>_. 0) (aHash ?pg)\<rparr>"
  have nz: "n = iZero h" using frame_table [of "n + 1"] h idx True by simp
  have c: "table_ok ?new (table_size h) []" by (rule table_clear [OF index_okD(1,2) [OF i, of h] table_size_bounds(3)])
  have w2: "prepare_table xmap w h idx = set_page w h ?new"
    using True index_okD(2) [OF i, of h] table_size_bounds(1) [of h] by (simp add: prepare_table_def set_page_def Let_def)
  have "table_ok (apWiData w h') (table_size h') (part h' (take n log))" if "iZero h' < n" "h' \<noteq> h" for h'
  proof -
    have "iZero h' + table_size h' \<le> iZero (walFramePage (n + 1))"
      by (rule earlier_table) (use that h in auto)
    then have "iZero h' + table_size h' \<le> n" using nz h by metis
    then show ?thesis using index_okD(3) [OF i, of h'] that(1) n(1) part_take [of n log h' "[]"] by simp
  qed
  moreover have pt: "part h (take n log) = []" using nz by (simp add: part_def)
  ultimately have "index_ok (apWiData (set_page w h ?new)) (take n log)"
    using index_ok_update [OF i c [folded pt]] n(1) by (simp add: set_page_def)
  then show ?thesis using c pt unfolding w2 by (auto simp: set_page_def)
next
  case False
  have f: "iZero h < n + 1" "n + 1 \<le> iZero h + table_size h" using frame_table [of "n + 1"] h by auto
  then have nz: "iZero h < n" using False idx by simp
  then have hn: "walFramePage n = h" using f walFramePage_iff [of n h] by simp
  have t: "table_ok (apWiData w h) (table_size h) (part h log)" using index_okD(3) [OF i] nz n(1) by simp
  have "aPgno (apWiData w h) ! (idx - 1) = (if n < length log then log ! n else 0)"
  proof -
    have "length (part h log) = min (table_size h) (length log - iZero h)" by (simp add: part_def)
    moreover have "part h log ! (n - iZero h) = log ! n" if "n < length log" using that nz f by (simp add: part_def)
    ultimately show ?thesis using table_okD(4) [OF t] f n(1) nz idx by (auto simp: nth_append)
  qed
  moreover have "log ! n \<noteq> 0" if "n < length log"
  proof -
    have "log ! n \<in> set (part h log)" using that nz f
      by (auto simp: part_def in_set_conv_nth intro!: exI [of _ "n - iZero h"])
    then show ?thesis using table_okD(5) [OF t] by metis
  qed
  ultimately have w2: "prepare_table xmap w h idx = (if n < length log then walCleanupHash xmap w else w)"
    using False by (simp add: prepare_table_def)
  have "index_ok (apWiData (prepare_table xmap w h idx)) (take n log)"
    unfolding w2 using cleanup_index [OF i, of n xmap] n i x hn by auto
  moreover have "\<exists>pages. prepare_table xmap w h idx = w\<lparr>apWiData := pages\<rparr>"
    unfolding w2 by (auto simp: walCleanupHash_def set_page_def Let_def walHashGet_def intro: exI [of _ "apWiData w"])
  ultimately show ?thesis using index_okD(3) [of _ "take n log" h] nz n(1) by simp
qed

text \<open>A frame is appended behind the frames of the log, or over the remains of a transaction that
  was not committed.\<close>

lemma append_index:
  assumes i: "index_ok (apWiData w) log" and n: "n \<le> length log" "n = length log \<or> mxFrame (hdr w) = n" and p: "p \<noteq> 0"
    and x: "xmap (walFramePage (n + 1)) = SQLITE_OK"
  shows "\<exists>pages. walIndexAppend xmap w (n + 1) p = (SQLITE_OK, w\<lparr>apWiData := pages\<rparr>) \<and> index_ok pages (take n log @ [p])"
proof -
  define h where "h = walFramePage (n + 1)"
  define idx where "idx = n + 1 - iZero h"
  define w2 where "w2 = prepare_table xmap w h idx"
  obtain pages where w2: "index_ok (apWiData w2) (take n log)" "table_ok (apWiData w2 h) (table_size h) (part h (take n log))" "w2 = w\<lparr>apWiData := pages\<rparr>"
    using prepare_index [OF i n h_def idx_def] x unfolding w2_def h_def by blast
  obtain k where "find_slot (aHash (apWiData w2 h)) (walHash p) idx = Some k"
    "index_ok ((apWiData w2)(h := \<lparr>aPgno = (aPgno (apWiData w2 h))[idx - 1 := p], aHash = (aHash (apWiData w2 h))[k := of_nat idx]\<rparr>)) (take n log @ [p])"
    using append_index_table [OF w2(1) _ h_def idx_def p w2(2)] n(1) by auto
  moreover have "walIndexAppend xmap w (n + 1) p = (case find_slot (aHash (apWiData w2 h)) (walHash p) idx of
      None \<Rightarrow> (SQLITE_CORRUPT, w2)
    | Some k \<Rightarrow> (SQLITE_OK, set_page w2 h \<lparr>aPgno = (aPgno (apWiData w2 h))[idx - 1 := p], aHash = (aHash (apWiData w2 h))[k := of_nat idx]\<rparr>))"
    using x unfolding h_def [symmetric]
    by (simp only: walIndexAppend_def Let_def walHashGet_def case_prod_conv h_def [symmetric] idx_def [symmetric] w2_def [symmetric] simp_thms if_False)
  ultimately show ?thesis using w2(3) by (auto simp: set_page_def)
qed

section \<open>Looking up a page\<close>

text \<open>The last frame up to \<open>n\<close>, and not before \<open>minF\<close>, that holds page \<open>p\<close>; 0 if there is none.\<close>

primrec latest :: "u32 list \<Rightarrow> u32 \<Rightarrow> nat \<Rightarrow> nat \<Rightarrow> nat" where
  "latest log p minF 0 = 0"
| "latest log p minF (Suc n) = (if minF \<le> Suc n \<and> log ! n = p then Suc n else latest log p minF n)"

lemma latest_none: "(\<And>v. v < n \<Longrightarrow> minF \<le> Suc v \<Longrightarrow> log ! v \<noteq> p) \<Longrightarrow> latest log p minF n = 0"
  by (induction n) auto

lemma latest_skip: "m \<le> n \<Longrightarrow> (\<And>v. m \<le> v \<Longrightarrow> v < n \<Longrightarrow> minF \<le> Suc v \<Longrightarrow> log ! v \<noteq> p) \<Longrightarrow> latest log p minF n = latest log p minF m"
proof (induction n)
  case (Suc n)
  show ?case
  proof (cases "m = Suc n")
    case False
    then have "\<not> (minF \<le> Suc n \<and> log ! n = p)" using Suc.prems(1) Suc.prems(2) [of n] by auto
    moreover have "latest log p minF n = latest log p minF m" using Suc.IH Suc.prems False by simp
    ultimately show ?thesis by auto
  qed simp
qed simp

lemma latest_eq: "v < n \<Longrightarrow> minF \<le> Suc v \<Longrightarrow> log ! v = p \<Longrightarrow> (\<And>w. v < w \<Longrightarrow> w < n \<Longrightarrow> log ! w \<noteq> p) \<Longrightarrow> latest log p minF n = Suc v"
  using latest_skip [of "Suc v" n minF log p] by simp

lemma latest_cong: "(\<And>v. v < n \<Longrightarrow> log ! v = log' ! v) \<Longrightarrow> latest log p minF n = latest log' p minF n"
  by (induction n) simp_all

lemma part_nth: "v < length (part h log) \<Longrightarrow> part h log ! v = log ! (iZero h + v)"
  by (auto simp: part_def)

lemma find_tables_latest:
  assumes i: "index_ok (apWiData w) log" and l: "iLast \<le> length log" "1 \<le> iLast" and x: "\<And>h. xmap h = SQLITE_OK"
    and mh: "iMin = walFramePage (minFrame w)" and k: "k = 0 \<or> iMin + k \<le> walFramePage iLast + 1"
  shows "find_tables xmap w p iLast iMin k = (SQLITE_OK, latest log p (minFrame w) (min iLast (iZero (iMin + k))))"
  using k
proof (induction k)
  case 0
  have "\<not> minFrame w \<le> Suc v" if "v < iZero iMin" for v
  proof (cases "minFrame w = 0")
    case True
    then have "iMin = 0" using mh table_sizes by (simp add: walFramePage_def HASHTABLE_NPAGE_ONE_def HASHTABLE_NPAGE_def WALINDEX_HDR_SIZE_def)
    then show ?thesis using that by (simp add: iZero_def)
  next
    case False
    then show ?thesis using frame_table [of "minFrame w"] mh that by simp
  qed
  then show ?case using latest_none [of "min iLast (iZero iMin)" "minFrame w" log p] by simp
next
  case (Suc k)
  let ?h = "iMin + k" let ?z = "iZero ?h" let ?pg = "apWiData w ?h" let ?N = "min iLast (iZero (iMin + Suc k))"
  have h: "?h \<le> walFramePage iLast" using Suc.prems by simp
  have zl: "?z < iLast" using frame_table [OF l(2)] iZero_mono [OF h] by simp
  have t: "table_ok ?pg (table_size ?h) (part ?h log)" using index_okD(3) [OF i] zl l(1) by simp
  have N: "?N \<le> ?z + length (part ?h log)" "?z \<le> ?N" using zl l(1) by (auto simp: iZero_Suc part_def)
  have nth: "part ?h log ! v = log ! (?z + v)" if "v < length (part ?h log)" for v using part_nth [OF that] .
  obtain r where r: "scan_hash ?pg ?z (minFrame w) iLast p (walHash p) HASHTABLE_NSLOT 0 = Some r"
    "r = 0 \<and> (\<forall>v<length (part ?h log). part ?h log ! v = p \<longrightarrow> \<not> (minFrame w \<le> Suc v + ?z \<and> Suc v + ?z \<le> iLast)) \<or>
     (\<exists>v<length (part ?h log). r = Suc v + ?z \<and> part ?h log ! v = p \<and> minFrame w \<le> r \<and> r \<le> iLast \<and>
        (\<forall>w. v < w \<and> w < length (part ?h log) \<and> part ?h log ! w = p \<longrightarrow> \<not> Suc w + ?z \<le> iLast))"
    using table_lookup [OF t, of ?z "minFrame w" iLast p] by blast
  show ?case
  proof (cases "r = 0")
    case True
    have "latest log p (minFrame w) ?N = latest log p (minFrame w) ?z"
    proof (rule latest_skip)
      fix v assume v: "?z \<le> v" "v < ?N" "minFrame w \<le> Suc v"
      then have "v - ?z < length (part ?h log)" using N(1) by linarith
      then show "log ! v \<noteq> p" using r(2) True v nth [of "v - ?z"] by auto
    qed (rule N(2))
    moreover have "k = 0 \<or> iMin + k \<le> walFramePage iLast + 1" using h by simp
    ultimately show ?thesis using Suc.IH r(1) True x zl by (simp add: walHashGet_def)
  next
    case False
    then obtain v where v: "v < length (part ?h log)" "r = Suc v + ?z" "part ?h log ! v = p" "minFrame w \<le> r" "r \<le> iLast"
      "\<And>w. v < w \<Longrightarrow> w < length (part ?h log) \<Longrightarrow> part ?h log ! w = p \<Longrightarrow> \<not> Suc w + ?z \<le> iLast" using r(2) by blast
    have "length (part ?h log) \<le> table_size ?h" by (simp add: part_def)
    then have vn: "?z + v < ?N" using v(1,2,5) by (simp add: iZero_Suc)
    have "latest log p (minFrame w) ?N = Suc (?z + v)"
    proof (rule latest_eq)
      fix u assume u: "?z + v < u" "u < ?N"
      then have "u - ?z < length (part ?h log)" "v < u - ?z" using N(1) by linarith+
      then show "log ! u \<noteq> p" using v(6) [of "u - ?z"] nth [of "u - ?z"] u by auto
    qed (use vn v nth [OF v(1)] in auto)
    then show ?thesis using r(1) False x v(2) by (simp add: walHashGet_def add.commute)
  qed
qed

lemma walFindFrame_latest:
  assumes i: "index_ok (apWiData w) log" and l: "iLast \<le> length log" and x: "\<And>h. xmap h = SQLITE_OK"
    and r: "readLock w \<noteq> 0 \<or> bShmUnreliable w"
  shows "walFindFrame xmap w p iLast = (SQLITE_OK, latest log p (minFrame w) iLast)"
proof (cases "iLast = 0")
  case True
  then show ?thesis by (simp add: walFindFrame_def)
next
  case False
  let ?m = "walFramePage (minFrame w)" let ?k = "walFramePage iLast + 1 - ?m"
  have "min iLast (iZero (?m + ?k)) = iLast"
  proof -
    have "walFramePage iLast + 1 \<le> ?m + ?k" by simp
    then show ?thesis using iZero_mono [of "Suc (walFramePage iLast)" "?m + ?k"] frame_table [of iLast] False by (simp add: iZero_Suc)
  qed
  moreover have "?k = 0 \<or> ?m + ?k \<le> walFramePage iLast + 1" by auto
  ultimately show ?thesis using find_tables_latest [OF i l _ x refl, where k = ?k and p = p] False r by (auto simp: walFindFrame_def Let_def)
qed

section \<open>Sequences of operations\<close>

text \<open>The frames that a connection sees are the first ones of those that the index holds; behind them there may be frames of a
  transaction that ended without a commit.\<close>

definition wal_inv :: "Wal \<Rightarrow> u32 list \<Rightarrow> bool" where
  "wal_inv w log \<longleftrightarrow> mxFrame (hdr w) = length log \<and> mxFrame (shm_hdr w) \<le> length log \<and>
     (\<exists>phys. index_ok (apWiData w) phys \<and> length log \<le> length phys \<and> take (length log) phys = log)"

lemma append_fails: "xmap (walFramePage (n + 1)) \<noteq> SQLITE_OK \<Longrightarrow> walIndexAppend xmap w (n + 1) p = (xmap (walFramePage (n + 1)), w)"
  by (simp add: walIndexAppend_def walHashGet_def)

lemma append_loop_index:
  assumes "index_ok (apWiData w) phys" "n \<le> length phys" "n = length phys \<or> mxFrame (hdr w) = n" "mxFrame (hdr w) \<le> n" "0 \<notin> set ps"
  shows "\<exists>rc m pages phys'. append_loop xmap w n ps = (rc, m, w\<lparr>apWiData := pages\<rparr>) \<and> index_ok pages phys' \<and>
    n \<le> length phys' \<and> take n phys' = take n phys \<and> ((\<forall>h. xmap h = SQLITE_OK) \<longrightarrow> rc = SQLITE_OK) \<and>
    (rc = SQLITE_OK \<longrightarrow> m = n + length ps \<and> phys' = (if ps = [] then phys else take n phys @ ps))"
  using assms
proof (induction ps arbitrary: w n phys)
  case Nil
  then show ?case by (auto intro!: exI [of _ "apWiData w"])
next
  case (Cons p ps)
  show ?case
  proof (cases "xmap (walFramePage (n + 1)) = SQLITE_OK")
    case False
    then show ?thesis using append_fails [of xmap n w p] False Cons.prems(1,2)
      by (intro exI [of _ "xmap (walFramePage (n + 1))"] exI [of _ "n + 1"] exI [of _ "apWiData w"] exI [of _ phys]) auto
  next
    case True
    obtain pages where a: "walIndexAppend xmap w (n + 1) p = (SQLITE_OK, w\<lparr>apWiData := pages\<rparr>)" "index_ok pages (take n phys @ [p])"
      using append_index [OF Cons.prems(1-3), of p xmap] True Cons.prems(5) by auto
    let ?w = "w\<lparr>apWiData := pages\<rparr>"
    let ?phys = "take n phys @ [p]"
    have l: "length ?phys = n + 1" using Cons.prems(2) by simp
    have p: "index_ok (apWiData ?w) ?phys" "n + 1 \<le> length ?phys" "n + 1 = length ?phys \<or> mxFrame (hdr ?w) = n + 1"
      "mxFrame (hdr ?w) \<le> n + 1" "0 \<notin> set ps" using a(2) l Cons.prems(4,5) by auto
    obtain rc m pages' phys' where r: "append_loop xmap ?w (n + 1) ps = (rc, m, ?w\<lparr>apWiData := pages'\<rparr>)" "index_ok pages' phys'"
      "n + 1 \<le> length phys'" "take (n + 1) phys' = take (n + 1) ?phys" "(\<forall>h. xmap h = SQLITE_OK) \<longrightarrow> rc = SQLITE_OK"
      "rc = SQLITE_OK \<longrightarrow> m = n + 1 + length ps \<and> phys' = (if ps = [] then ?phys else take (n + 1) ?phys @ ps)"
      using Cons.IH [OF p] by blast
    have "take n phys' = take n phys" using arg_cong [OF r(4), of "take n"] Cons.prems(2) by simp
    then show ?thesis using r a(1) l by (intro exI [of _ rc] exI [of _ m] exI [of _ pages'] exI [of _ phys']) auto
  qed
qed

text \<open>What the frames, rollbacks, savepoints, restarts and abandoned transactions of the writers leave.\<close>

inductive wal_run :: "Wal \<Rightarrow> u32 list \<Rightarrow> bool" where
  wal_new: "index_ok (apWiData w) [] \<Longrightarrow> mxFrame (hdr w) = 0 \<Longrightarrow> mxFrame (shm_hdr w) = 0 \<Longrightarrow> wal_run w []"
| wal_frames: "wal_run w log \<Longrightarrow> 0 \<notin> set (ps @ replicate nExtra pLast) \<Longrightarrow>
    walFrames_index xmap w szPage ps pLast nExtra isCommit nTruncate = (SQLITE_OK, w') \<Longrightarrow>
    wal_run w' (log @ ps @ replicate nExtra pLast)"
| wal_frames_failed: "wal_run w log \<Longrightarrow> 0 \<notin> set (ps @ replicate nExtra pLast) \<Longrightarrow>
    walFrames_index xmap w szPage ps pLast nExtra isCommit nTruncate = (rc, w') \<Longrightarrow> rc \<noteq> SQLITE_OK \<Longrightarrow> wal_run w' log"
| wal_undo: "wal_run w log \<Longrightarrow> writeLock w \<Longrightarrow> sqlite3WalUndo xmap w xUndo = (rc, w') \<Longrightarrow> wal_run w' (take (mxFrame (shm_hdr w)) log)"
| wal_savepoint: "wal_run w log \<Longrightarrow> sqlite3WalSavepointUndo xmap w d = (w', d') \<Longrightarrow> mxFrame (shm_hdr w) \<le> mxFrame (hdr w') \<Longrightarrow>
    wal_run w' (take (mxFrame (hdr w')) log)"
| wal_restart: "wal_run w log \<Longrightarrow> wal_run (walRestartHdr w salt1) []"
| wal_abandon: "wal_run w log \<Longrightarrow> wal_run (w\<lparr>hdr := shm_hdr w\<rparr>) (take (mxFrame (shm_hdr w)) log)"
| wal_reader: "wal_run w log \<Longrightarrow> wal_run (w\<lparr>readLock := r, minFrame := m, bShmUnreliable := b, writeLock := l\<rparr>) log"

lemma cleanup_fields [simp]:
  "hdr (walCleanupHash xmap w) = hdr w" "shm_hdr (walCleanupHash xmap w) = shm_hdr w"
  by (simp_all add: walCleanupHash_def set_page_def Let_def walHashGet_def)

lemma cleanup_pages:
  assumes "index_ok (apWiData w) phys" "mxFrame (hdr w) \<le> length phys"
  shows "\<exists>phys'. index_ok (apWiData (walCleanupHash xmap w)) phys' \<and> mxFrame (hdr w) \<le> length phys' \<and>
    take (mxFrame (hdr w)) phys' = take (mxFrame (hdr w)) phys"
proof (cases "xmap (walFramePage (mxFrame (hdr w))) = SQLITE_OK")
  case True
  then show ?thesis using cleanup_index [OF assms(1) refl assms(2)] assms(2)
    by (intro exI [of _ "take (mxFrame (hdr w)) phys"]) simp
next
  case False
  then have "walCleanupHash xmap w = w" by (simp add: walCleanupHash_def walHashGet_def Let_def)
  then show ?thesis using assms by auto
qed

lemma mxFrame_WriteHdr [simp]: "mxFrame (walIndexWriteHdr h) = mxFrame h"
  by (simp add: walIndexWriteHdr_def Let_def)

lemma frames_step:
  assumes "wal_inv w log" "0 \<notin> set (ps @ replicate nExtra pLast)"
  shows "\<exists>rc w'. walFrames_index xmap w szPage ps pLast nExtra isCommit nTruncate = (rc, w') \<and>
    wal_inv w' (if rc = SQLITE_OK then log @ ps @ replicate nExtra pLast else log) \<and> ((\<forall>h. xmap h = SQLITE_OK) \<longrightarrow> rc = SQLITE_OK)"
proof -
  obtain phys where i: "mxFrame (hdr w) = length log" "mxFrame (shm_hdr w) \<le> length log" "index_ok (apWiData w) phys"
    "length log \<le> length phys" "take (length log) phys = log" using assms(1) by (auto simp: wal_inv_def)
  let ?qs = "ps @ replicate nExtra pLast"
  obtain rc m pages phys' where a: "append_loop xmap w (length log) ?qs = (rc, m, w\<lparr>apWiData := pages\<rparr>)" "index_ok pages phys'"
    "length log \<le> length phys'" "take (length log) phys' = log" "(\<forall>h. xmap h = SQLITE_OK) \<longrightarrow> rc = SQLITE_OK"
    "rc = SQLITE_OK \<longrightarrow> m = length log + length ?qs \<and> phys' = (if ?qs = [] then phys else log @ ?qs)"
    using append_loop_index [OF i(3,4) disjI2 [OF i(1)] eq_refl [OF i(1)] assms(2), of xmap] unfolding i(5) by blast
  show ?thesis
  proof (cases "rc = SQLITE_OK")
    case False
    then have "walFrames_index xmap w szPage ps pLast nExtra isCommit nTruncate = (rc, w\<lparr>apWiData := pages\<rparr>)"
      using a(1) i(1) by (simp add: walFrames_index_def)
    then show ?thesis using False a i by (auto simp: wal_inv_def)
  next
    case True
    have "length (log @ ?qs) \<le> length phys' \<and> take (length (log @ ?qs)) phys' = log @ ?qs" using a(4,6) i(4,5) True by auto
    then show ?thesis using True a i by (auto simp: walFrames_index_def wal_inv_def Let_def)
  qed
qed

lemma shrink_inv:
  assumes "wal_inv w log" "mxFrame h = n" "mxFrame (shm_hdr w) \<le> n" "n \<le> length log"
  shows "wal_inv (w\<lparr>hdr := h\<rparr>) (take n log)" "wal_inv (walCleanupHash xmap (w\<lparr>hdr := h\<rparr>)) (take n log)"
proof -
  obtain phys where i: "index_ok (apWiData w) phys" "length log \<le> length phys" "take (length log) phys = log"
    using assms(1) by (auto simp: wal_inv_def)
  have t: "take n phys = take n log" using i(3) assms(4) by (metis min.absorb1 take_take)
  then show "wal_inv (w\<lparr>hdr := h\<rparr>) (take n log)" using i assms(2-4) by (auto simp: wal_inv_def)
  obtain phys' where "index_ok (apWiData (walCleanupHash xmap (w\<lparr>hdr := h\<rparr>))) phys'" "n \<le> length phys'" "take n phys' = take n phys"
    using cleanup_pages [of "w\<lparr>hdr := h\<rparr>" phys xmap] i assms(2,4) by auto
  then show "wal_inv (walCleanupHash xmap (w\<lparr>hdr := h\<rparr>)) (take n log)" using t assms(2-4) by (auto simp: wal_inv_def)
qed

lemma wal_run_inv: "wal_run w log \<Longrightarrow> wal_inv w log"
proof (induction rule: wal_run.induct)
  case (wal_new w)
  then show ?case by (auto simp: wal_inv_def)
next
  case (wal_frames w log ps nExtra pLast xmap szPage isCommit nTruncate w')
  then show ?case using frames_step [OF wal_frames.IH wal_frames.hyps(2), of xmap szPage isCommit nTruncate] by auto
next
  case (wal_frames_failed w log ps nExtra pLast xmap szPage isCommit nTruncate rc w')
  then show ?case using frames_step [OF wal_frames_failed.IH wal_frames_failed.hyps(2), of xmap szPage isCommit nTruncate] by auto
next
  case (wal_undo w log xmap xUndo rc w')
  have w': "w' = w\<lparr>hdr := shm_hdr w\<rparr> \<or> w' = walCleanupHash xmap (w\<lparr>hdr := shm_hdr w\<rparr>)"
    using wal_undo.hyps by (auto simp: sqlite3WalUndo_def Let_def)
  have "mxFrame (shm_hdr w) \<le> length log" using wal_undo.IH by (simp add: wal_inv_def)
  then show ?case using shrink_inv [OF wal_undo.IH refl order_refl] w' by blast
next
  case (wal_savepoint w log xmap d w' d')
  let ?mx = "if snd (snd d) \<noteq> nCkpt w then 0 else fst d"
  let ?w = "w\<lparr>hdr := (hdr w)\<lparr>mxFrame := ?mx, aFrameCksum := fst (snd d)\<rparr>\<rparr>"
  have mx: "mxFrame (hdr w) = length log" using wal_savepoint.IH by (simp add: wal_inv_def)
  have w': "w' = (if ?mx < mxFrame (hdr w) then walCleanupHash xmap ?w else w)"
    using wal_savepoint.hyps(2) by (cases d) (auto simp: sqlite3WalSavepointUndo_def split: if_splits)
  show ?case
  proof (cases "?mx < mxFrame (hdr w)")
    case True
    then have e: "w' = walCleanupHash xmap ?w" "mxFrame (hdr w') = ?mx" using w' by simp_all
    then show ?thesis using shrink_inv(2) [OF wal_savepoint.IH, of "(hdr w)\<lparr>mxFrame := ?mx, aFrameCksum := fst (snd d)\<rparr>" ?mx xmap]
      True mx wal_savepoint.hyps(3) by simp
  next
    case False
    then show ?thesis using w' mx wal_savepoint.IH by simp
  qed
next
  case (wal_restart w log salt1)
  then show ?case by (auto simp: wal_inv_def walRestartHdr_def Let_def)
next
  case (wal_abandon w log)
  then have "mxFrame (shm_hdr w) \<le> length log" by (simp add: wal_inv_def)
  then show ?case using shrink_inv(1) [OF wal_abandon.IH refl order_refl] by blast
next
  case (wal_reader w log r m b l)
  then show ?case by (auto simp: wal_inv_def)
qed

section \<open>Properties\<close>

text \<open>C1. In the index of the write-ahead log a page is found in its last frame. After any sequence of
  appended transactions, failed ones, rollbacks, rollbacks to savepoints, restarts of the log, and transactions that a
  writer abandoned without cleaning up, a reader whose snapshot ends at frame \<open>iLast\<close> gets from
  \<open>walFindFrame\<close> the last frame of its snapshot, not before \<open>minFrame\<close>, that holds the page, or 0 if there is none. The search never
  reports a corrupt table, and frames behind the snapshot are not seen.\<close>

theorem walFindFrame_correct:
  assumes "wal_run w log" "\<forall>h. xmap h = SQLITE_OK" "iLast \<le> length log" "readLock w \<noteq> 0 \<or> bShmUnreliable w"
  shows "walFindFrame xmap w p iLast = (SQLITE_OK, latest log p (minFrame w) iLast)"
proof -
  obtain phys where i: "index_ok (apWiData w) phys" "length log \<le> length phys" "take (length log) phys = log"
    using wal_run_inv [OF assms(1)] by (auto simp: wal_inv_def)
  have "walFindFrame xmap w p iLast = (SQLITE_OK, latest phys p (minFrame w) iLast)"
    using walFindFrame_latest [OF i(1) _ _ assms(4)] assms(2,3) i(2) by simp
  moreover have "phys ! v = log ! v" if "v < iLast" for v using that assms(3) i(3) by (metis nth_take order_less_le_trans)
  ultimately show ?thesis using latest_cong [of iLast phys log p "minFrame w"] by simp
qed

text \<open>An empty log.\<close>

definition empty_wal :: Wal where
  "empty_wal = \<lparr>hdr = demo_hdr, shm_hdr = demo_hdr,
     apWiData = (\<lambda>h. \<lparr>aPgno = replicate (table_size h) 0, aHash = replicate HASHTABLE_NSLOT 0\<rparr>),
     minFrame = 1, readLock = 1, bShmUnreliable = False, writeLock = True, nCkpt = 0,
     nBackfill = 0, nBackfillAttempted = 0, aReadMark = [0, 0, 0, 0, 0]\<rparr>"

lemma empty_wal_run: "wal_run empty_wal []"
  by (rule wal_new) (simp_all add: empty_wal_def demo_hdr_def index_ok_def)

lemma walFrames_keeps:
  assumes "walFrames_index xmap w szPage ps pLast nExtra isCommit nTruncate = (rc, w')" "wal_inv w log" "0 \<notin> set (ps @ replicate nExtra pLast)"
  shows "readLock w' = readLock w \<and> minFrame w' = minFrame w \<and> writeLock w' = writeLock w"
    "rc = SQLITE_OK \<Longrightarrow> shm_hdr w' = (if isCommit then hdr w' else shm_hdr w) \<and>
       nPage (hdr w') = (if isCommit then nTruncate else nPage (hdr w)) \<and>
       iChange (hdr w') = (if isCommit then iChange (hdr w) + 1 else iChange (hdr w))"
proof -
  obtain phys where i: "mxFrame (hdr w) = length log" "index_ok (apWiData w) phys" "length log \<le> length phys" using assms(2) by (auto simp: wal_inv_def)
  obtain rc' m pages where "append_loop xmap w (length log) (ps @ replicate nExtra pLast) = (rc', m, w\<lparr>apWiData := pages\<rparr>)"
    using append_loop_index [OF i(2,3) disjI2 [OF i(1)] eq_refl [OF i(1)] assms(3), of xmap] by blast
  note a = this
  show "readLock w' = readLock w \<and> minFrame w' = minFrame w \<and> writeLock w' = writeLock w"
    using a assms(1) i(1) by (auto simp: walFrames_index_def Let_def split: if_splits)
  show "shm_hdr w' = (if isCommit then hdr w' else shm_hdr w) \<and>
       nPage (hdr w') = (if isCommit then nTruncate else nPage (hdr w)) \<and>
       iChange (hdr w') = (if isCommit then iChange (hdr w) + 1 else iChange (hdr w))" if "rc = SQLITE_OK"
    using a assms(1) i(1) that by (auto simp: walFrames_index_def walIndexWriteHdr_def Let_def split: if_splits)
qed

theorem walFindFrame_correct_witness:
  "\<exists>w. walFrames_index (\<lambda>h. 0) empty_wal 4096 [5, 7, 5] 0 0 True 7 = (SQLITE_OK, w) \<and> walFindFrame (\<lambda>h. 0) w 5 3 = (SQLITE_OK, 3)"
proof -
  note inv = wal_run_inv [OF empty_wal_run]
  obtain w where w: "walFrames_index (\<lambda>h. 0) empty_wal 4096 [5, 7, 5] 0 0 True 7 = (SQLITE_OK, w)"
    using frames_step [OF inv, of "[5, 7, 5]" 0 0 "\<lambda>h. 0" 4096 True 7] by (auto simp: SQLITE_OK_def)
  have "wal_run w ([] @ [5, 7, 5] @ replicate 0 0)" by (rule wal_frames [OF empty_wal_run _ w]) simp
  moreover have "readLock w = 1 \<and> minFrame w = 1" using walFrames_keeps [OF w inv] by (simp add: empty_wal_def)
  ultimately have "walFindFrame (\<lambda>h. 0) w 5 3 = (SQLITE_OK, latest [5, 7, 5] 5 1 3)"
    using walFindFrame_correct [of w "[5, 7, 5]" "\<lambda>h. 0" 3 5] by (simp add: SQLITE_OK_def)
  then show ?thesis using w by (simp add: numeral_eq_Suc)
qed

text \<open>C11. The index follows the log: when its pages can be mapped, the frames of a transaction are always entered and the
  tables then hold the old frames followed by the new ones. Only a commit changes the header that other connections see: it
  publishes the header with the new frames, the new database size and the next change counter, while frames that are no commit
  leave the published header as it was. So a rollback after a commit changes nothing, and a rollback after frames that are no
  commit gives back the published header and exactly the frames of the last commit.\<close>

theorem walFrames_index_refines:
  assumes "wal_run w log" "\<forall>h. xmap h = SQLITE_OK" "0 \<notin> set (ps @ replicate nExtra pLast)" "writeLock w"
  shows "\<exists>w'. walFrames_index xmap w szPage ps pLast nExtra isCommit nTruncate = (SQLITE_OK, w') \<and>
    wal_inv w' (log @ ps @ replicate nExtra pLast) \<and>
    shm_hdr w' = (if isCommit then hdr w' else shm_hdr w) \<and>
    nPage (hdr w') = (if isCommit then nTruncate else nPage (hdr w)) \<and>
    iChange (hdr w') = (if isCommit then iChange (hdr w) + 1 else iChange (hdr w)) \<and>
    (\<exists>rc w''. sqlite3WalUndo xmap w' xUndo = (rc, w'') \<and> hdr w'' = (if isCommit then hdr w' else shm_hdr w) \<and>
       wal_inv w'' (if isCommit then log @ ps @ replicate nExtra pLast else take (mxFrame (shm_hdr w)) log))"
proof -
  note inv = wal_run_inv [OF assms(1)]
  let ?log = "log @ ps @ replicate nExtra pLast"
  obtain w' where w': "walFrames_index xmap w szPage ps pLast nExtra isCommit nTruncate = (SQLITE_OK, w')"
    using frames_step [OF inv assms(3), of xmap szPage isCommit nTruncate] assms(2) by auto
  note keeps = walFrames_keeps [OF w' inv assms(3)]
  have run: "wal_run w' ?log" by (rule wal_frames [OF assms(1,3) w'])
  obtain rc w'' where u: "sqlite3WalUndo xmap w' xUndo = (rc, w'')" by fastforce
  have h: "hdr w'' = shm_hdr w'" using u keeps(1) assms(4) by (auto simp: sqlite3WalUndo_def Let_def)
  have "wal_inv w'' (take (mxFrame (shm_hdr w')) ?log)" using wal_run_inv [OF wal_undo [OF run _ u]] keeps(1) assms(4) by simp
  moreover have "take (mxFrame (shm_hdr w')) ?log = (if isCommit then ?log else take (mxFrame (shm_hdr w)) log)"
    using keeps(2) wal_run_inv [OF run] inv by (auto simp: wal_inv_def)
  ultimately show ?thesis using w' u h keeps(2) wal_run_inv [OF run] by auto
qed

theorem walFrames_index_refines_witness:
  "(\<exists>w'. walFrames_index (\<lambda>h. 0) empty_wal 4096 [5, 7, 5] 0 0 True 7 = (SQLITE_OK, w') \<and> wal_inv w' [5, 7, 5] \<and>
      shm_hdr w' = hdr w' \<and> nPage (hdr w') = 7) \<and>
   (\<exists>w'. walFrames_index (\<lambda>h. 0) empty_wal 4096 [5, 7, 5] 0 0 False 0 = (SQLITE_OK, w') \<and> shm_hdr w' = demo_hdr \<and>
      (\<exists>rc w''. sqlite3WalUndo (\<lambda>h. 0) w' (\<lambda>p. 0) = (rc, w'') \<and> hdr w'' = demo_hdr \<and> wal_inv w'' []))"
proof -
  have "writeLock empty_wal" "shm_hdr empty_wal = demo_hdr" by (simp_all add: empty_wal_def)
  then show ?thesis
    using walFrames_index_refines [OF empty_wal_run, of "\<lambda>h. 0" "[5, 7, 5]" 0 0 4096 True 7 "\<lambda>p. 0"]
      walFrames_index_refines [OF empty_wal_run, of "\<lambda>h. 0" "[5, 7, 5]" 0 0 4096 False 0 "\<lambda>p. 0"]
    by (auto simp: SQLITE_OK_def)
qed

end
