(* ===== verification/Spec2Isabelle.thy ===== *)
theory Spec2Isabelle
  imports Varint HashTable Bitvec Estimates Numbers RowSet Utf Complete Like RunParser MemJournal Mem5 WalIndex
begin

text \<open>
  Verification of the storage and utility layers of the database engine under
  \<open>src/sqlanywhere-sqlite3/src\<close>; file names below are relative to that directory.

  \<^bold>\<open>The program.\<close> SQL text enters through \<open>sqlite3RunParser\<close> (\<open>tokenize.c\<close>), which splits it into tokens and
  feeds a generated parser; the shell asks \<open>sqlite3_complete\<close> (\<open>complete.c\<close>) whether more input is needed. The
  engine keeps names in hash tables (\<open>hash.c\<close>) with case-insensitive keys, sets of page numbers in bit vectors
  (\<open>bitvec.c\<close>), sets of row numbers in row sets (\<open>rowset.c\<close>), and takes memory from an allocator, of which
  \<open>mem5.c\<close> is the one for fixed pools. Values are stored in records as variable-length
  integers (\<open>util.c\<close>) and text in one of three encodings (\<open>utf.c\<close>); LIKE and GLOB compare text (\<open>func.c\<close>). Changes
  reach the database through files: in-memory databases (\<open>memdb.c\<close>), journals that stay in memory while they are
  small (\<open>memjournal.c\<close>), and the write-ahead log with its shared index (\<open>wal.c\<close>).

  \<^bold>\<open>Representation.\<close> Unsigned C integers are words of their width where they can wrap; signed ones are integers with
  explicit range checks, and an operation that would overflow has no value. Strings are lists of bytes, and the terminating zero is
  what is read behind the end. Memory that is read and written at computed positions is a function from addresses
  to bytes, or a buffer of known size in which an access outside has no value (\<open>None\<close>). Pointers into linked lists
  are positions or addresses that the elements carry. What an allocator or another part of the system returns is an argument of
  the operations that use it, and theorems hold for every such argument unless a hypothesis says otherwise. Error codes are the
  numbers of \<open>sqlite.h.in\<close>. Shared state is passed explicitly; sequences of operations by several parties are
  inductive relations.

  \<^bold>\<open>Theories.\<close>

  \<^item> \<open>Prelude\<close>: types, memories, result codes, and three contracts: \<open>byte_codec\<close> (a writer and a reader of a value that
    are inverse, and so for sequences), \<open>three_way\<close> (a comparison that is a total order), and \<open>map_store\<close> (a
    structure that refines a map under updates, and so under sequences of updates).

  \<^item> \<open>Varint\<close> (\<open>util.c\<close>, \<open>sqliteInt.h\<close>, \<open>btreeInt.h\<close>): variable-length integers and big-endian fields. The unrolled readers equal
    the plain definition on every buffer, reading inverts writing, and the length function is exact up to 63
    significant bits. Interprets \<open>byte_codec\<close> twice.

  \<^item> \<open>Ctype\<close>, \<open>Chars\<close> (\<open>global.c\<close>, \<open>util.c\<close>): character classes; comparison and hashing of names. Comparison is a total order
    on case-folded text (\<open>three_way\<close>), and equal names hash alike.

  \<^item> \<open>HashTable\<close> (\<open>hash.c\<close>): every operation keeps the buckets contiguous runs of the one list of elements; insertion, replacement,
    deletion and rehashing refine updates of a map (\<open>map_store\<close>), also when allocations fail.

  \<^item> \<open>Bitvec\<close> (\<open>bitvec.c\<close>): the bitmap, hash and radix-tree forms refine a set of numbers (\<open>map_store\<close>). The recursion into sub-vectors
    takes as fuel two steps for every division of the size of the vector by the number of sub-vectors (\<open>bitvec_fuel\<close>), the probe loop the size
    of the table; neither runs out.

  \<^item> \<open>IntMath\<close>, \<open>Estimates\<close>, \<open>Numbers\<close> (\<open>util.c\<close>, \<open>func.c\<close>): overflow-checked arithmetic is exact; \<open>sqlite3LogEst\<close> is ten times the real
    binary logarithm of the four leading bits, rounded to the nearest integer; integers are printed and parsed without loss, and
    \<open>sqlite3GetUInt32\<close> is characterised on every text.

  \<^item> \<open>RowSet\<close> (\<open>rowset.c\<close>): reading gives the inserted rows sorted and without duplicates, the membership test is right about earlier batches,
    and the trees are balanced.

  \<^item> \<open>Utf\<close> (\<open>utf.c\<close>): reading and writing characters; translation stays inside the buffer that it allocates and keeps the
    characters.

  \<^item> \<open>Complete\<close> (\<open>complete.c\<close>): the state machine accepts exactly a grammar of statements.

  \<^item> \<open>Like\<close> (\<open>func.c\<close>): the matcher decides the plain definition of a match, in spite of the early exits of its search.

  \<^item> \<open>Tokenize\<close>, \<open>RunParser\<close> (\<open>tokenize.c\<close>, \<open>main.c\<close>, \<open>util.c\<close>, \<open>malloc.c\<close>, \<open>printf.c\<close>): every token belongs to the
    language of its type; the parser gets exactly the significant tokens with window keywords resolved, then a semicolon and the end of
    input, in a bounded number of calls. The parser, its keyword table and its fallback table are generated and are parameters.

  \<^item> \<open>Files\<close>, \<open>Memdb\<close>, \<open>MemJournal\<close> (\<open>memdb.c\<close>, \<open>memjournal.c\<close>): the contract \<open>byte_file\<close> of a file as a sequence of bytes, which both in-memory
    files satisfy; locks of shared databases exclude each other, and a request is granted exactly when no other file blocks it; the
    buffer of a database grows only within its limit; a journal is a plain sequence of bytes under appends, cuts and header writes, and one that
    spills keeps its contents.

  \<^item> \<open>Mem5\<close> (\<open>mem5.c\<close>): in every reachable state the outstanding blocks are disjoint, large enough and inside the pool, no access leaves the
    control array or the links of free blocks, no operation touches another outstanding block, and a request succeeds whenever an aligned
    free run exists. Loops over
    block sizes take as fuel \<open>LOGMAX\<close>, the number of sizes.

  \<^item> \<open>WalFrame\<close>, \<open>WalIndex\<close> (\<open>wal.c\<close>, \<open>wal.h\<close>): frames are read back as written unless their checksums are deferred, damage within eight aligned bytes is always detected; only a
    commit publishes the header of the index, a rollback gives back the last commit, and the hash tables of
    the index find the last frame of a page in every snapshot, after any sequence of transactions, failures, rollbacks, restarts
    and writers that died. The probe loops take as fuel the collision limits of the source, which are never
    reached.

  \<^bold>\<open>Not modelled.\<close> The pager, the page cache, the B-tree, the locks, recovery and checkpoints of the write-ahead log are about
  interleavings with the file system and its crashes, for which there is no model here. The virtual machine and the code generator need
  all of those and the generated parser. Floating-point conversion, dates, JSON and vector search compute with floating-point
  numbers. The operating-system layers, threads and mutexes are system calls. The extensions, the amalgamated copy of the engine, the
  encryption and the vendored add-ons are copies or clients of the engine; the Rust crates (client library, server, replication,
  backup, bindings) are asynchronous network programs around it. Debugging and test-only code
  (\<open>sqlite3BitvecBuiltinTest\<close>, EBCDIC tables, dumps, counters of test builds) is left out of the parts that are modelled.
\<close>

end
